(* ===== verification/Irc_Prelude.thy ===== *)
theory Irc_Prelude
  imports Main "HOL-Library.Char_ord" "HOL-Library.List_Lexorder" "HOL-Library.Monad_Syntax"
    "HOL-Library.Word"
begin

text \<open>
  Shared vocabulary of the development: the collections of rewrite rules, the model of
  \<open>std::map\<close> and \<open>std::set\<close> as association lists in strict key order, the
  erase-remove idiom of \<open>std::vector\<close>, and a total-correctness predicate for
  computations that may fault on an invalid pointer.
\<close>

section \<open>Collections\<close>

named_theorems heap_simps \<open>closed forms of heap operations on live objects\<close>
named_theorems post_simps \<open>how output and structural updates commute\<close>
named_theorems inv_defs \<open>definitions of the components of the state invariant\<close>

section \<open>Ordered maps: \<open>std::map\<close>\<close>

text \<open>
  A \<open>std::map\<close> is the list of its key/value pairs in iteration order, that is, in strictly
  increasing key order. \<open>find\<close> is the library's \<open>map_of\<close>.
\<close>

type_synonym ('k, 'v) omap = "('k \<times> 'v) list"

definition omap_ok :: "('k::linorder, 'v) omap \<Rightarrow> bool" where
  "omap_ok m \<longleftrightarrow> sorted_wrt (<) (map fst m)"

text \<open>\<open>m[k] = v\<close>\<close>

fun omap_put :: "'k::linorder \<Rightarrow> 'v \<Rightarrow> ('k, 'v) omap \<Rightarrow> ('k, 'v) omap" where
  "omap_put k v [] = [(k, v)]"
| "omap_put k v (e # m) =
     (if fst e < k then e # omap_put k v m
      else if fst e = k then (k, v) # m
      else (k, v) # e # m)"

text \<open>\<open>m.erase(k)\<close>\<close>

definition omap_erase :: "'k \<Rightarrow> ('k, 'v) omap \<Rightarrow> ('k, 'v) omap" where
  "omap_erase k m = filter (\<lambda>e. fst e \<noteq> k) m"

text \<open>\<open>m.count(k)\<close>, as a truth value\<close>

definition omap_count :: "'k \<Rightarrow> ('k, 'v) omap \<Rightarrow> bool" where
  "omap_count k m \<longleftrightarrow> map_of m k \<noteq> None"

locale ordered_map =
  fixes find :: "'m \<Rightarrow> 'k::linorder \<Rightarrow> 'v option"
    and put :: "'k \<Rightarrow> 'v \<Rightarrow> 'm \<Rightarrow> 'm"
    and erase :: "'k \<Rightarrow> 'm \<Rightarrow> 'm"
    and entries :: "'m \<Rightarrow> ('k \<times> 'v) list"
    and invar :: "'m \<Rightarrow> bool"
  assumes find_put: "invar m \<Longrightarrow> find (put k v m) k' = (if k' = k then Some v else find m k')"
    and find_erase: "invar m \<Longrightarrow> find (erase k m) k' = (if k' = k then None else find m k')"
    and invar_put: "invar m \<Longrightarrow> invar (put k v m)"
    and invar_erase: "invar m \<Longrightarrow> invar (erase k m)"
    and entries_find: "invar m \<Longrightarrow> (k, v) \<in> set (entries m) \<longleftrightarrow> find m k = Some v"
    and entries_sorted: "invar m \<Longrightarrow> sorted_wrt (<) (map fst (entries m))"
begin

lemma put_same: "invar m \<Longrightarrow> find (put k v m) k = Some v"
  by (simp add: find_put)

lemma erase_put: "invar m \<Longrightarrow> find m k = None \<Longrightarrow> find (erase k (put k v m)) = find m"
  by (auto simp: find_put find_erase invar_put)

lemma put_put_swap:
  "invar m \<Longrightarrow> k \<noteq> k' \<Longrightarrow> find (put k v (put k' v' m)) = find (put k' v' (put k v m))"
  by (auto simp: find_put invar_put)

lemma distinct_keys: "invar m \<Longrightarrow> distinct (map fst (entries m))"
  using entries_sorted strict_sorted_iff by blast

lemma invar_fold_put: "invar m \<Longrightarrow> invar (fold (\<lambda>(k, v). put k v) kvs m)"
  by (induction kvs arbitrary: m) (auto simp: invar_put)

text \<open>After a sequence of insertions the last one for a key is the one that is found.\<close>

lemma find_fold_put:
  "invar m \<Longrightarrow> find (fold (\<lambda>(k, v). put k v) kvs m) k =
     (case map_of (rev kvs) k of Some v \<Rightarrow> Some v | None \<Rightarrow> find m k)"
  by (induction kvs arbitrary: m)
    (auto simp: invar_put find_put map_add_def split: option.splits)

end

lemma omap_ok_Nil [simp]: "omap_ok []"
  by (simp add: omap_ok_def)

lemma omap_ok_Cons: "omap_ok (e # m) \<longleftrightarrow> (\<forall>x \<in> set m. fst e < fst x) \<and> omap_ok m"
  by (auto simp: omap_ok_def)

lemma set_omap_put: "set (omap_put k v m) \<subseteq> insert (k, v) (set m)"
  by (induction m) auto

lemma omap_ok_put [simp]: "omap_ok m \<Longrightarrow> omap_ok (omap_put k v m)"
proof (induction m)
  case (Cons e m)
  then show ?case
    using set_omap_put [of k v m] by (fastforce simp: omap_ok_Cons)
qed (simp add: omap_ok_Cons)

lemma map_of_omap_put [simp]: "omap_ok m \<Longrightarrow> map_of (omap_put k v m) = (map_of m)(k \<mapsto> v)"
proof (induction m)
  case (Cons e m)
  have "map_of m k = None" if "k < fst e"
    using that Cons.prems by (fastforce simp: omap_ok_Cons map_of_eq_None_iff)
  with Cons show ?case
    by (cases e) (auto simp: omap_ok_Cons fun_eq_iff)
qed auto

lemma omap_ok_erase [simp]: "omap_ok m \<Longrightarrow> omap_ok (omap_erase k m)"
  by (simp add: omap_ok_def omap_erase_def sorted_wrt_map sorted_wrt_filter)

lemma map_of_omap_erase [simp]: "map_of (omap_erase k m) = (map_of m)(k := None)"
  by (induction m) (auto simp: omap_erase_def)

lemma omap_ok_distinct: "omap_ok m \<Longrightarrow> distinct (map fst m)"
  by (simp add: omap_ok_def strict_sorted_iff)

lemma omap_ok_find: "omap_ok m \<Longrightarrow> (k, v) \<in> set m \<longleftrightarrow> map_of m k = Some v"
  by (simp add: omap_ok_distinct)

interpretation omap: ordered_map map_of omap_put omap_erase id omap_ok
  by unfold_locales (simp_all add: omap_ok_find, simp add: omap_ok_def)

lemma set_omap_erase [simp]: "set (omap_erase k m) = {e \<in> set m. fst e \<noteq> k}"
  by (auto simp: omap_erase_def)

lemma omap_count_iff [simp]: "omap_count k m \<longleftrightarrow> k \<in> fst ` set m"
  by (simp add: omap_count_def map_of_eq_None_iff)

lemma keys_omap_put [simp]: "fst ` set (omap_put k v m) = insert k (fst ` set m)"
  by (induction m) auto

section \<open>Ordered sets: \<open>std::set\<close>\<close>

text \<open>\<open>s.insert(x)\<close> returns whether \<open>x\<close> was new, and the set with \<open>x\<close> in it.\<close>

type_synonym 'a oset = "('a, unit) omap"

definition oset_insert :: "'a::linorder \<Rightarrow> 'a oset \<Rightarrow> bool \<times> 'a oset" where
  "oset_insert x s = (\<not> omap_count x s, omap_put x () s)"

section \<open>Vectors\<close>

text \<open>\<open>v.erase(std::remove(v.begin(), v.end(), x), v.end())\<close>\<close>

definition erase_remove :: "'a \<Rightarrow> 'a list \<Rightarrow> 'a list" where
  "erase_remove x v = filter (\<lambda>y. y \<noteq> x) v"

lemma set_erase_remove [simp]: "set (erase_remove x v) = set v - {x}"
  by (auto simp: erase_remove_def)

lemma distinct_erase_remove [simp]: "distinct v \<Longrightarrow> distinct (erase_remove x v)"
  by (simp add: erase_remove_def)

lemma erase_remove_notin [simp]: "x \<notin> set v \<Longrightarrow> erase_remove x v = v"
  by (auto simp: erase_remove_def filter_id_conv)

lemma erase_remove_Nil_iff: "distinct v \<Longrightarrow> erase_remove x v = [] \<longleftrightarrow> v = [] \<or> v = [x]"
  by (cases v; cases "tl v") (auto simp: erase_remove_def filter_empty_conv)

section \<open>Computations that may fault\<close>

text \<open>
  A computation that dereferences pointers has type \<open>'a option\<close>; \<open>None\<close> is an access
  to an object that does not exist, which is undefined behaviour in the source. \<open>returns\<close> is total
  correctness: the computation does not fault and its result satisfies \<open>Q\<close>.
\<close>

definition returns :: "'a option \<Rightarrow> ('a \<Rightarrow> bool) \<Rightarrow> bool" where
  "returns m Q \<longleftrightarrow> (\<exists>x. m = Some x \<and> Q x)"

lemma returns_Some [simp]: "returns (Some x) Q \<longleftrightarrow> Q x"
  by (simp add: returns_def)

lemma returns_None [simp]: "\<not> returns None Q"
  by (simp add: returns_def)

lemma returns_bind [simp]: "returns (Option.bind m f) Q \<longleftrightarrow> returns m (\<lambda>x. returns (f x) Q)"
  by (cases m) auto

lemma returns_if [simp]: "returns (if b then m else m') Q \<longleftrightarrow> (if b then returns m Q else returns m' Q)"
  by simp

lemma returns_mono: "returns m P \<Longrightarrow> (\<And>x. P x \<Longrightarrow> Q x) \<Longrightarrow> returns m Q"
  by (auto simp: returns_def)

lemma returns_bindI: "returns m P \<Longrightarrow> (\<And>x. P x \<Longrightarrow> returns (f x) Q) \<Longrightarrow> returns (Option.bind m f) Q"
  by (auto simp: returns_def)

lemma returns_conj: "returns m P \<Longrightarrow> returns m Q \<Longrightarrow> returns m (\<lambda>x. P x \<and> Q x)"
  by (auto simp: returns_def)

lemma returnsE: "returns m Q \<Longrightarrow> (\<And>x. m = Some x \<Longrightarrow> Q x \<Longrightarrow> thesis) \<Longrightarrow> thesis"
  by (auto simp: returns_def)

lemma bind_map_opt: "Option.bind (map_option f m) k = Option.bind m (\<lambda>x. k (f x))"
  by (cases m) simp_all

text \<open>Running a fallible step for every element of a list, left to right.\<close>

fun each :: "('a \<Rightarrow> 's \<Rightarrow> 's option) \<Rightarrow> 'a list \<Rightarrow> 's \<Rightarrow> 's option" where
  "each f [] s = Some s"
| "each f (x # xs) s = Option.bind (f x s) (each f xs)"

lemma each_append: "each f (xs @ ys) s = Option.bind (each f xs s) (each f ys)"
  by (induction xs arbitrary: s) (auto split: Option.bind_splits)

lemma returns_each:
  assumes "I s" and "\<And>x s. x \<in> set xs \<Longrightarrow> I s \<Longrightarrow> returns (f x s) I"
  shows "returns (each f xs s) I"
  using assms
proof (induction xs arbitrary: s)
  case (Cons x xs)
  have "returns (f x s) I"
    using Cons.prems by simp
  then have "returns (f x s) (\<lambda>t. returns (each f xs t) I)"
    by (rule returns_mono) (use Cons in simp)
  then show ?case by simp
qed simp

section \<open>Sizes\<close>

text \<open>Subtraction of the 64-bit unsigned \<open>size_t\<close>, which wraps around.\<close>

definition size_sub :: "nat \<Rightarrow> nat \<Rightarrow> nat" where
  "size_sub a b = unat (of_nat a - of_nat b :: 64 word)"

lemma size_sub_no_wrap:
  assumes "b \<le> a" and "a < 2 ^ 64"
  shows "size_sub a b = a - b"
proof -
  have "of_nat a - of_nat b = (of_nat (a - b) :: 64 word)"
    using assms(1) by (simp add: of_nat_diff)
  moreover have "a - b < 2 ^ LENGTH(64)"
    using assms(2) by simp
  ultimately show ?thesis
    unfolding size_sub_def by (simp only: unat_of_nat mod_less)
qed

end
