(* ===== verification/Irc_Text.thy ===== *)
theory Irc_Text
  imports Irc_Prelude
begin

text \<open>
  Byte strings: the C library's character functions, the case mapping of
  \<open>common/IrcHelpers.cpp\<close>, decimal conversion, the reply formats of
  \<open>common/IrcHelpers.cpp\<close> and \<open>common/Reply.cpp\<close>, and the two UTF-8 aware
  truncations of the source with their common contract.
\<close>

unbundle bit_operations_syntax

section \<open>Characters\<close>

text \<open>
  A \<open>char\<close> is a byte. The program never calls \<open>setlocale\<close>, so the functions of
  \<open>cctype\<close> work in the C locale: bytes from 128 up are neither letters nor changed.
\<close>

abbreviation code :: "char \<Rightarrow> nat" where
  "code c \<equiv> of_char c"

abbreviation NUL :: char where "NUL \<equiv> CHR 0x00"
abbreviation BEL :: char where "BEL \<equiv> CHR 0x07"
abbreviation LF :: char where "LF \<equiv> CHR 0x0A"
abbreviation CR :: char where "CR \<equiv> CHR 0x0D"
abbreviation SP :: char where "SP \<equiv> CHR 0x20"

definition isupper_c :: "char \<Rightarrow> bool" where
  "isupper_c c \<longleftrightarrow> 65 \<le> code c \<and> code c \<le> 90"

definition islower_c :: "char \<Rightarrow> bool" where
  "islower_c c \<longleftrightarrow> 97 \<le> code c \<and> code c \<le> 122"

definition isdigit_c :: "char \<Rightarrow> bool" where
  "isdigit_c c \<longleftrightarrow> 48 \<le> code c \<and> code c \<le> 57"

definition isalpha_c :: "char \<Rightarrow> bool" where
  "isalpha_c c \<longleftrightarrow> isupper_c c \<or> islower_c c"

definition isalnum_c :: "char \<Rightarrow> bool" where
  "isalnum_c c \<longleftrightarrow> isalpha_c c \<or> isdigit_c c"

definition isspace_c :: "char \<Rightarrow> bool" where
  "isspace_c c \<longleftrightarrow> code c = 32 \<or> (9 \<le> code c \<and> code c \<le> 13)"

definition tolower_c :: "char \<Rightarrow> char" where
  "tolower_c c = (if isupper_c c then char_of (code c + 32) else c)"

definition toupper_c :: "char \<Rightarrow> char" where
  "toupper_c c = (if islower_c c then char_of (code c - 32) else c)"

lemmas ctype_defs = isupper_c_def islower_c_def isdigit_c_def isalpha_c_def isalnum_c_def
  isspace_c_def tolower_c_def toupper_c_def

section \<open>Case mapping\<close>

definition lowerChar :: "char \<Rightarrow> char" where
  "lowerChar c =
     (if c = CHR ''['' then CHR ''{''
      else if c = CHR '']'' then CHR ''}''
      else if c = CHR 0x5C then CHR ''|''
      else if c = CHR ''~'' then CHR ''^''
      else tolower_c c)"

definition toLower :: "string \<Rightarrow> string" where
  "toLower str = map lowerChar str"

lemma tolower_c_cases: "tolower_c c = c \<or> islower_c (tolower_c c)"
  by (auto simp: ctype_defs)

lemma islower_lowerChar: "islower_c c \<Longrightarrow> lowerChar c = c"
  by (auto simp: lowerChar_def ctype_defs)

lemma lowerChar_idem [simp]: "lowerChar (lowerChar c) = lowerChar c"
proof (cases "c \<in> {CHR ''['', CHR '']'', CHR 0x5C, CHR ''~''}")
  case True
  then show ?thesis by (auto simp: lowerChar_def ctype_defs)
next
  case False
  then have "lowerChar c = tolower_c c"
    by (auto simp: lowerChar_def)
  then show ?thesis
    using tolower_c_cases [of c] islower_lowerChar by metis
qed

lemma toLower_idem [simp]: "toLower (toLower s) = toLower s"
  by (simp add: toLower_def)

lemma length_toLower [simp]: "length (toLower s) = length s"
  by (simp add: toLower_def)

lemma toLower_Nil_iff [simp]: "toLower s = [] \<longleftrightarrow> s = []" "[] = toLower s \<longleftrightarrow> s = []"
  by (auto simp: toLower_def)

section \<open>Decimal numbers\<close>

text \<open>\<open>std::ostringstream << n\<close>\<close>

fun show_nat :: "nat \<Rightarrow> string" where
  "show_nat n = (if n < 10 then [char_of (48 + n)] else show_nat (n div 10) @ [char_of (48 + n mod 10)])"

declare show_nat.simps [simp del]

definition show_int :: "int \<Rightarrow> string" where
  "show_int i = (if i < 0 then CHR ''-'' # show_nat (nat (- i)) else show_nat (nat i))"

definition dec_value :: "string \<Rightarrow> nat" where
  "dec_value s = foldl (\<lambda>a c. a * 10 + (code c - 48)) 0 s"

text \<open>
  \<open>std::strtol(s, &end, 10)\<close> on a 64-bit \<open>long\<close>: leading white space, an optional sign, the
  longest run of digits, saturation at the limits of \<open>long\<close>; the second component is the rest
  of the string \<open>end\<close> points to, the whole string when there is no digit.
\<close>

definition long_max :: int where "long_max = 2 ^ 63 - 1"
definition long_min :: int where "long_min = - (2 ^ 63)"

definition strtol :: "string \<Rightarrow> int \<times> string" where
  "strtol s =
     (let t = dropWhile isspace_c s;
          neg = (t \<noteq> [] \<and> hd t = CHR ''-'');
          u = (if t \<noteq> [] \<and> (hd t = CHR ''-'' \<or> hd t = CHR ''+'') then tl t else t);
          ds = takeWhile isdigit_c u;
          v = int (dec_value ds)
      in if ds = [] then (0, s)
         else (max long_min (min long_max (if neg then - v else v)), dropWhile isdigit_c u))"

text \<open>\<open>std::atoi\<close>: \<open>(int) strtol(s, NULL, 10)\<close>, with a 32-bit two's complement \<open>int\<close>.\<close>

definition atoi :: "string \<Rightarrow> int" where
  "atoi s = signed_take_bit 31 (fst (strtol s))"

lemma dec_value_snoc [simp]: "dec_value (s @ [c]) = dec_value s * 10 + (code c - 48)"
  by (simp add: dec_value_def)

lemma dec_value_Nil [simp]: "dec_value [] = 0"
  by (simp add: dec_value_def)

lemma dec_value_bound: "list_all isdigit_c s \<Longrightarrow> dec_value s < 10 ^ length s"
proof (induction s rule: rev_induct)
  case (snoc c s)
  then show ?case by (auto simp: isdigit_c_def)
qed simp

lemma show_nat_digits: "list_all isdigit_c (show_nat n)"
proof (induction n rule: show_nat.induct)
  case (1 n)
  then show ?case
    by (cases "n < 10") (auto simp: show_nat.simps [of n] isdigit_c_def)
qed

lemma dec_value_show_nat [simp]: "dec_value (show_nat n) = n"
proof (induction n rule: show_nat.induct)
  case (1 n)
  then show ?case
    by (cases "n < 10") (auto simp: show_nat.simps [of n] dec_value_def)
qed

lemma show_nat_not_Nil [simp]: "show_nat n \<noteq> []"
  by (subst show_nat.simps) simp

lemma length_show_nat: "n < 10 ^ k \<Longrightarrow> 0 < k \<Longrightarrow> length (show_nat n) \<le> k"
proof (induction n arbitrary: k rule: show_nat.induct)
  case (1 n)
  show ?case
  proof (cases "n < 10")
    case True
    with "1.prems" show ?thesis by (simp add: show_nat.simps [of n])
  next
    case False
    then obtain k' where k: "k = Suc k'" "0 < k'"
      using "1.prems" by (cases k; cases "k - 1") auto
    have "n div 10 < 10 ^ k'"
      using "1.prems" k by (simp add: less_mult_imp_div_less mult.commute)
    with False k "1.IH" show ?thesis by (simp add: show_nat.simps [of n])
  qed
qed

lemma strtol_digits:
  assumes "list_all isdigit_c s" and "s \<noteq> []"
  shows "strtol s = (min long_max (int (dec_value s)), [])"
proof -
  obtain c cs where s: "s = c # cs" using assms(2) by (cases s) auto
  have c: "isdigit_c c" "\<not> isspace_c c" "c \<noteq> CHR ''-''" "c \<noteq> CHR ''+''"
    using assms(1) s by (auto simp: isdigit_c_def isspace_c_def)
  have run: "takeWhile isdigit_c cs = cs" "dropWhile isdigit_c cs = []"
    using assms(1) s by (simp_all add: takeWhile_eq_all_conv dropWhile_eq_Nil_conv list_all_iff)
  have "long_min \<le> min long_max (int n)" for n
    by (simp add: long_min_def long_max_def)
  then show ?thesis
    using c s by (simp add: strtol_def Let_def max_absorb2 run)
qed

lemma atoi_digits:
  assumes "list_all isdigit_c s" and "s \<noteq> []" and "length s \<le> 9"
  shows "atoi s = int (dec_value s)"
proof -
  have "dec_value s < 10 ^ length s" using assms(1) by (rule dec_value_bound)
  also have "(10::nat) ^ length s \<le> 10 ^ 9" using assms(3) by (rule power_increasing) simp
  finally have b: "dec_value s < 1000000000" by simp
  have "fst (strtol s) = int (dec_value s)"
    using b by (simp add: strtol_digits [OF assms(1,2)] long_max_def)
  then show ?thesis
    using b by (simp add: atoi_def signed_take_bit_int_eq_self_iff)
qed

section \<open>UTF-8\<close>

text \<open>\<open>(static_cast<unsigned char>(c) & 0xC0) == 0x80\<close>: a byte that continues a character\<close>

definition is_cont :: "char \<Rightarrow> bool" where
  "is_cont c \<longleftrightarrow> (of_char c :: 8 word) AND 0xC0 = 0x80"

text \<open>The number of bytes of the character that starts with this byte, 0 for no lead byte.\<close>

definition utf8_len :: "char \<Rightarrow> nat" where
  "utf8_len c =
     (if code c < 0x80 then 1
      else if code c < 0xC0 then 0
      else if code c < 0xE0 then 2
      else if code c < 0xF0 then 3
      else if code c < 0xF8 then 4
      else 0)"

definition utf8_seq :: "string \<Rightarrow> bool" where
  "utf8_seq w \<longleftrightarrow> w \<noteq> [] \<and> length w = utf8_len (hd w) \<and> list_all is_cont (tl w)"

inductive utf8 :: "string \<Rightarrow> bool" where
  utf8_Nil: "utf8 []"
| utf8_app: "utf8_seq w \<Longrightarrow> utf8 s \<Longrightarrow> utf8 (w @ s)"

text \<open>
  The loop of \<open>Client::sendReply\<close> and \<open>Message::spliter\<close>: from position \<open>pos\<close>, at most
  \<open>k\<close> steps back while the byte there continues a character.
\<close>

fun back_off :: "string \<Rightarrow> nat \<Rightarrow> nat \<Rightarrow> nat" where
  "back_off s pos 0 = pos"
| "back_off s pos (Suc k) = (if is_cont (s ! pos) then back_off s (pos - 1) k else pos)"

definition cut510 :: "string \<Rightarrow> string" where
  "cut510 s = (if length s \<le> 510 then s else take (back_off s 510 3) s)"

text \<open>The loop of \<open>truncateUtf8\<close> in \<open>channel/Channel.cpp\<close>.\<close>

fun retreat :: "string \<Rightarrow> nat \<Rightarrow> nat" where
  "retreat s 0 = 0"
| "retreat s (Suc pos) = (if is_cont (s ! Suc pos) then retreat s pos else Suc pos)"

definition truncateUtf8 :: "string \<Rightarrow> nat \<Rightarrow> string" where
  "truncateUtf8 s maxBytes = (if length s \<le> maxBytes then s else take (retreat s maxBytes) s)"

subsection \<open>Well-formed strings\<close>

lemma is_cont_code_all:
  "\<forall>c. (of_char c :: 8 word) AND 0xC0 = 0x80 \<longleftrightarrow> 0x80 \<le> code c \<and> code c < 0xC0"
  by code_simp

lemma is_cont_code: "is_cont c \<longleftrightarrow> 0x80 \<le> code c \<and> code c < 0xC0"
  unfolding is_cont_def by (rule is_cont_code_all [rule_format])

lemma is_cont_utf8_len: "is_cont c \<Longrightarrow> utf8_len c = 0"
  by (simp add: is_cont_code utf8_len_def)

lemma utf8_seq_not_Nil: "utf8_seq w \<Longrightarrow> w \<noteq> []"
  by (simp add: utf8_seq_def)

lemma utf8_seq_hd: "utf8_seq w \<Longrightarrow> \<not> is_cont (hd w)"
  by (auto simp: utf8_seq_def dest: is_cont_utf8_len)

lemma utf8_seq_length: "utf8_seq w \<Longrightarrow> length w \<le> 4"
  by (auto simp: utf8_seq_def utf8_len_def)

lemma utf8_seq_nth: "utf8_seq w \<Longrightarrow> i < length w \<Longrightarrow> is_cont (w ! i) \<longleftrightarrow> 0 < i"
  by (cases i; cases w) (auto simp: utf8_seq_def list_all_length dest: is_cont_utf8_len)

lemma utf8_not_cont_0: "utf8 s \<Longrightarrow> s \<noteq> [] \<Longrightarrow> \<not> is_cont (s ! 0)"
  by (induction rule: utf8.induct) (auto simp: nth_append utf8_seq_nth dest: utf8_seq_not_Nil)

lemma utf8_ascii: "list_all (\<lambda>c. code c < 0x80) s \<Longrightarrow> utf8 s"
proof (induction s)
  case (Cons c s)
  then have "utf8 ([c] @ s)"
    by (intro utf8_app) (auto simp: utf8_seq_def utf8_len_def)
  then show ?case by simp
qed (rule utf8_Nil)

text \<open>A cut at a byte that starts a character leaves a well-formed string.\<close>

lemma utf8_take:
  "utf8 s \<Longrightarrow> k < length s \<Longrightarrow> \<not> is_cont (s ! k) \<Longrightarrow> utf8 (take k s)"
proof (induction arbitrary: k rule: utf8.induct)
  case (utf8_app w s)
  show ?case
  proof (cases "k < length w")
    case True
    with utf8_app have "k = 0"
      using utf8_seq_nth [of w k] by (simp add: nth_append)
    then show ?thesis by (simp add: utf8_Nil)
  next
    case False
    with utf8_app have "utf8 (take (k - length w) s)"
      by (simp add: nth_append)
    with False utf8_app.hyps(1) show ?thesis
      by (auto intro: utf8.utf8_app)
  qed
qed simp

text \<open>Among four consecutive bytes one starts a character.\<close>

lemma utf8_start_near:
  "utf8 s \<Longrightarrow> i + 3 < length s \<Longrightarrow> \<exists>j. i \<le> j \<and> j \<le> i + 3 \<and> \<not> is_cont (s ! j)"
proof (induction arbitrary: i rule: utf8.induct)
  case (utf8_app w s)
  consider "i = 0" | "0 < i" "i < length w" | "length w \<le> i" by linarith
  then show ?case
  proof cases
    case 1
    have "\<not> is_cont ((w @ s) ! 0)"
      using utf8_app.hyps(1) utf8_seq_nth [of w 0] by (auto simp: utf8_seq_def nth_append)
    with 1 show ?thesis by auto
  next
    case 2
    have "length w \<le> i + 3" "s \<noteq> []"
      using 2 utf8_seq_length [OF utf8_app.hyps(1)] utf8_app.prems by auto
    moreover have "\<not> is_cont ((w @ s) ! length w)"
      using utf8_not_cont_0 [OF utf8_app.hyps(2)] \<open>s \<noteq> []\<close> by (simp add: nth_append)
    ultimately show ?thesis using 2 by (intro exI [of _ "length w"]) simp
  next
    case 3
    then have "i - length w + 3 < length s" using utf8_app.prems by simp
    then obtain j where "i - length w \<le> j" "j \<le> i - length w + 3" "\<not> is_cont (s ! j)"
      using utf8_app.IH by blast
    with 3 show ?thesis by (intro exI [of _ "length w + j"]) (auto simp: nth_append)
  qed
qed simp

lemma utf8_cancel: "utf8 t \<Longrightarrow> utf8 (t @ u) \<Longrightarrow> utf8 u"
proof (induction rule: utf8.induct)
  case (utf8_app w t)
  from utf8_app.prems have "utf8 (w @ t @ u)" by simp
  then obtain w' s' where w': "utf8_seq w'" "utf8 s'" "w @ t @ u = w' @ s'"
    using utf8_app.hyps(1) by (cases rule: utf8.cases) (auto simp: utf8_seq_def)
  moreover have "length w = length w'"
    using w' utf8_app.hyps(1) by (cases w; cases w') (auto simp: utf8_seq_def)
  ultimately show ?case using utf8_app.IH by simp
qed simp

subsection \<open>The truncation contract\<close>

text \<open>
  What both truncations promise: a string within the limit is unchanged; a longer one is cut
  at a position not beyond the limit, every byte skipped continues a character, and where the input is well formed the
  byte at the cut starts one.
\<close>

locale utf8_truncation =
  fixes limit :: nat
    and trunc :: "string \<Rightarrow> string"
  assumes trunc_short: "length s \<le> limit \<Longrightarrow> trunc s = s"
    and trunc_long: "limit < length s \<Longrightarrow>
      \<exists>k \<le> limit. trunc s = take k s \<and> (\<forall>j. k < j \<and> j \<le> limit \<longrightarrow> is_cont (s ! j)) \<and>
        (utf8 s \<longrightarrow> \<not> is_cont (s ! k))"
begin

lemma trunc_prefix: "\<exists>r. s = trunc s @ r"
proof (cases "length s \<le> limit")
  case False
  then obtain k where "trunc s = take k s" using trunc_long [of s] by auto
  then show ?thesis by (metis append_take_drop_id)
qed (simp add: trunc_short)

lemma trunc_length: "length (trunc s) \<le> limit"
  using trunc_short [of s] trunc_long [of s] by (cases "length s \<le> limit") auto

lemma trunc_utf8: "utf8 s \<Longrightarrow> utf8 (trunc s)"
  using trunc_short [of s] trunc_long [of s] utf8_take [of s]
  by (cases "length s \<le> limit") fastforce+

text \<open>No well-formed prefix within the limit is longer.\<close>

lemma trunc_maximal:
  assumes s: "utf8 s" and t: "utf8 t" "s = t @ u" "length t \<le> limit"
  shows "length t \<le> length (trunc s)"
proof (cases "length s \<le> limit")
  case True
  with t(2) show ?thesis by (simp add: trunc_short)
next
  case False
  then obtain k where k: "k \<le> limit" "trunc s = take k s"
    "\<And>j. k < j \<Longrightarrow> j \<le> limit \<Longrightarrow> is_cont (s ! j)"
    using trunc_long [of s] by auto
  show ?thesis
  proof (rule ccontr)
    assume "\<not> ?thesis"
    then have "k < length t" using k(1,2) False by simp
    then have "is_cont (s ! length t)" using k(3) t(3) by blast
    moreover have "utf8 u" using s t(2) by (blast intro: utf8_cancel [OF t(1)])
    moreover have "u \<noteq> []" using False t(2,3) by auto
    ultimately show False using utf8_not_cont_0 [of u] t(2) by (simp add: nth_append)
  qed
qed

end

lemma back_off_bounds: "pos - k \<le> back_off s pos k \<and> back_off s pos k \<le> pos"
proof (induction k arbitrary: pos)
  case (Suc k)
  show ?case using Suc [of "pos - 1"] by (auto intro: order_trans)
qed simp

lemma back_off_skips: "back_off s pos k < j \<Longrightarrow> j \<le> pos \<Longrightarrow> is_cont (s ! j)"
proof (induction k arbitrary: pos)
  case (Suc k)
  then show ?case by (cases "j = pos") (auto split: if_splits)
qed simp

text \<open>A byte that starts a character within reach stops the loop.\<close>

lemma back_off_stops:
  "\<not> is_cont (s ! j) \<Longrightarrow> pos - k \<le> j \<Longrightarrow> j \<le> pos \<Longrightarrow> \<not> is_cont (s ! back_off s pos k)"
proof (induction k arbitrary: pos)
  case (Suc k)
  then show ?case by (cases "j = pos") auto
qed simp

interpretation cut510: utf8_truncation 510 cut510
proof unfold_locales
  fix s :: string
  assume long: "510 < length s"
  have "\<not> is_cont (s ! back_off s 510 3)" if u: "utf8 s"
  proof -
    obtain j where "507 \<le> j" "j \<le> 510" "\<not> is_cont (s ! j)"
      using utf8_start_near [OF u, of 507] long by auto
    then show ?thesis by (intro back_off_stops) auto
  qed
  with long show "\<exists>k \<le> 510. cut510 s = take k s \<and>
      (\<forall>j. k < j \<and> j \<le> 510 \<longrightarrow> is_cont (s ! j)) \<and> (utf8 s \<longrightarrow> \<not> is_cont (s ! k))"
    using back_off_bounds [of 510 3 s]
    by (intro exI [of _ "back_off s 510 3"]) (auto simp: cut510_def intro: back_off_skips)
qed (simp add: cut510_def)

lemma retreat_le: "retreat s pos \<le> pos"
  by (induction pos) auto

lemma retreat_skips: "retreat s pos < j \<Longrightarrow> j \<le> pos \<Longrightarrow> is_cont (s ! j)"
  by (induction pos) (auto simp: le_Suc_eq split: if_splits)

lemma retreat_stops: "\<not> is_cont (s ! 0) \<Longrightarrow> \<not> is_cont (s ! retreat s pos)"
  by (induction pos) auto

interpretation truncateUtf8: utf8_truncation n "\<lambda>s. truncateUtf8 s n" for n
proof unfold_locales
  fix s :: string
  assume long: "n < length s"
  have "\<not> is_cont (s ! retreat s n)" if "utf8 s"
    using utf8_not_cont_0 [OF that] long by (intro retreat_stops) fastforce
  with long show "\<exists>k \<le> n. truncateUtf8 s n = take k s \<and>
      (\<forall>j. k < j \<and> j \<le> n \<longrightarrow> is_cont (s ! j)) \<and> (utf8 s \<longrightarrow> \<not> is_cont (s ! k))"
    using retreat_le [of s n]
    by (intro exI [of _ "retreat s n"]) (auto simp: truncateUtf8_def intro: retreat_skips)
qed (simp add: truncateUtf8_def)

lemma cut510_short [simp]: "length s \<le> 510 \<Longrightarrow> cut510 s = s"
  by (rule cut510.trunc_short)

lemma set_cut510: "set (cut510 s) \<subseteq> set s"
  using cut510.trunc_prefix [of s] by (metis Un_upper1 set_append)

lemma cut510_nonempty [simp]: "cut510 s = [] \<longleftrightarrow> s = []"
  using back_off_bounds [of 510 3 s] by (auto simp: cut510_def)

lemma cut510_length_lower: "510 < length s \<Longrightarrow> 507 \<le> length (cut510 s)"
  using back_off_bounds [of 510 3 s] by (simp add: cut510_def)

lemma set_truncateUtf8: "set (truncateUtf8 s n) \<subseteq> set s"
  using truncateUtf8.trunc_prefix [of s n] by (metis Un_upper1 set_append)

section \<open>Reply formats\<close>

text \<open>\<open>IrcReply\<close> of \<open>common/IrcHelpers.cpp\<close>\<close>

definition formatReply :: "string \<Rightarrow> string \<Rightarrow> string \<Rightarrow> string" where
  "formatReply num target trailing = '':ircserv '' @ num @ '' '' @ target @ '' :'' @ trailing"

definition formatReplyWithParameter :: "string \<Rightarrow> string \<Rightarrow> string \<Rightarrow> string \<Rightarrow> string" where
  "formatReplyWithParameter num target parameter trailing =
     '':ircserv '' @ num @ '' '' @ target @ '' '' @ parameter @ '' :'' @ trailing"

definition formatCommand :: "string \<Rightarrow> string \<Rightarrow> string" where
  "formatCommand command trailing = '':ircserv '' @ command @ '' :'' @ trailing"

text \<open>\<open>makeReply\<close> of \<open>common/Reply.cpp\<close>: the numeric is padded to three digits.\<close>

definition makeReply :: "int \<Rightarrow> string \<Rightarrow> string \<Rightarrow> string" where
  "makeReply num nick rest =
     (let prefix = ''ircserv'';
          cmd = (if num < 100 then ''0'' else []) @ (if num < 10 then ''0'' else []) @ show_int num
      in '':'' @ prefix @ '' '' @ cmd @ '' '' @ nick @ '' '' @ rest)"

text \<open>The numerics of \<open>IrcNumeric\<close> in \<open>common/IrcHelpers.hpp\<close>\<close>

definition RPL_WELCOME :: string where "RPL_WELCOME = ''001''"
definition RPL_YOURHOST :: string where "RPL_YOURHOST = ''002''"
definition RPL_CREATED :: string where "RPL_CREATED = ''003''"
definition RPL_MYINFO :: string where "RPL_MYINFO = ''004''"
definition ERR_UNKNOWNCOMMAND :: string where "ERR_UNKNOWNCOMMAND = ''421''"
definition ERR_NOTREGISTERED :: string where "ERR_NOTREGISTERED = ''451''"
definition ERR_NEEDMOREPARAMS_s :: string where "ERR_NEEDMOREPARAMS_s = ''461''"
definition ERR_NONICKNAMEGIVEN :: string where "ERR_NONICKNAMEGIVEN = ''431''"
definition ERR_ERRONEUSNICKNAME :: string where "ERR_ERRONEUSNICKNAME = ''432''"
definition ERR_NICKNAMEINUSE :: string where "ERR_NICKNAMEINUSE = ''433''"
definition ERR_ALREADYREGISTERED :: string where "ERR_ALREADYREGISTERED = ''462''"
definition ERR_PASSWDMISMATCH :: string where "ERR_PASSWDMISMATCH = ''464''"
definition ERR_NOORIGIN :: string where "ERR_NOORIGIN = ''409''"

text \<open>The numerics of \<open>Numeric\<close> in \<open>common/Reply.hpp\<close>\<close>

definition RPL_CHANNELMODEIS :: int where "RPL_CHANNELMODEIS = 324"
definition RPL_TOPIC :: int where "RPL_TOPIC = 332"
definition RPL_NOTOPIC :: int where "RPL_NOTOPIC = 331"
definition RPL_NAMREPLY :: int where "RPL_NAMREPLY = 353"
definition RPL_ENDOFNAMES :: int where "RPL_ENDOFNAMES = 366"
definition RPL_INVITING :: int where "RPL_INVITING = 341"
definition ERR_NOSUCHNICK :: int where "ERR_NOSUCHNICK = 401"
definition ERR_NOSUCHCHANNEL :: int where "ERR_NOSUCHCHANNEL = 403"
definition ERR_CANNOTSENDTOCHAN :: int where "ERR_CANNOTSENDTOCHAN = 404"
definition ERR_NORECIPIENT :: int where "ERR_NORECIPIENT = 411"
definition ERR_NOTEXTTOSEND :: int where "ERR_NOTEXTTOSEND = 412"
definition ERR_NOTONCHANNEL :: int where "ERR_NOTONCHANNEL = 442"
definition ERR_USERNOTINCHANNEL :: int where "ERR_USERNOTINCHANNEL = 441"
definition ERR_USERONCHANNEL :: int where "ERR_USERONCHANNEL = 443"
definition ERR_NEEDMOREPARAMS :: int where "ERR_NEEDMOREPARAMS = 461"
definition ERR_KEYSET :: int where "ERR_KEYSET = 467"
definition ERR_INVITEONLYCHAN :: int where "ERR_INVITEONLYCHAN = 473"
definition ERR_BADCHANNELKEY :: int where "ERR_BADCHANNELKEY = 475"
definition ERR_BADCHANMASK :: int where "ERR_BADCHANMASK = 476"
definition ERR_CHANNELISFULL :: int where "ERR_CHANNELISFULL = 471"
definition ERR_UNKNOWNMODE :: int where "ERR_UNKNOWNMODE = 472"
definition ERR_CHANOPRIVSNEEDED :: int where "ERR_CHANOPRIVSNEEDED = 482"
definition ERR_INVALIDKEY :: int where "ERR_INVALIDKEY = 525"
definition ERR_INVALIDMODEPARAM :: int where "ERR_INVALIDMODEPARAM = 696"

lemmas numeric_defs = RPL_CHANNELMODEIS_def RPL_TOPIC_def RPL_NOTOPIC_def RPL_NAMREPLY_def
  RPL_ENDOFNAMES_def RPL_INVITING_def ERR_NOSUCHNICK_def ERR_NOSUCHCHANNEL_def
  ERR_CANNOTSENDTOCHAN_def ERR_NORECIPIENT_def ERR_NOTEXTTOSEND_def ERR_NOTONCHANNEL_def
  ERR_USERNOTINCHANNEL_def ERR_USERONCHANNEL_def ERR_NEEDMOREPARAMS_def ERR_KEYSET_def
  ERR_INVITEONLYCHAN_def ERR_BADCHANNELKEY_def ERR_BADCHANMASK_def ERR_CHANNELISFULL_def
  ERR_UNKNOWNMODE_def ERR_CHANOPRIVSNEEDED_def ERR_INVALIDKEY_def ERR_INVALIDMODEPARAM_def

lemmas numeric_string_defs = RPL_WELCOME_def RPL_YOURHOST_def RPL_CREATED_def RPL_MYINFO_def
  ERR_UNKNOWNCOMMAND_def ERR_NOTREGISTERED_def ERR_NEEDMOREPARAMS_s_def ERR_NONICKNAMEGIVEN_def
  ERR_ERRONEUSNICKNAME_def ERR_NICKNAMEINUSE_def ERR_ALREADYREGISTERED_def
  ERR_PASSWDMISMATCH_def ERR_NOORIGIN_def

end
