(* ===== verification/Irc_Message.thy ===== *)
theory Irc_Message
  imports Irc_Text
begin

text \<open>
  The message parser of \<open>parse/Message.cpp\<close>. The definitions follow the source's index arithmetic over
  \<open>std::string\<close>; a reference grammar over string suffixes says what they compute, and a printer
  is inverted by the parser.
\<close>

section \<open>String operations\<close>

text \<open>\<open>s.find(c, pos)\<close>, with \<open>None\<close> for \<open>std::string::npos\<close>\<close>

definition str_find :: "string \<Rightarrow> char \<Rightarrow> nat \<Rightarrow> nat option" where
  "str_find s c pos =
     (let e = pos + length (takeWhile (\<lambda>x. x \<noteq> c) (drop pos s))
      in if e < length s then Some e else None)"

text \<open>\<open>s.find_first_not_of(c)\<close>\<close>

definition str_find_first_not_of :: "string \<Rightarrow> char \<Rightarrow> nat option" where
  "str_find_first_not_of s c =
     (let e = length (takeWhile (\<lambda>x. x = c) s) in if e < length s then Some e else None)"

text \<open>\<open>s.substr(pos, n)\<close>\<close>

definition substr :: "string \<Rightarrow> nat \<Rightarrow> nat \<Rightarrow> string" where
  "substr s pos n = take n (drop pos s)"

section \<open>The parser\<close>

record message =
  m_prefix :: string
  m_existPrefix :: bool
  m_command :: string
  m_parameter :: "string list"

definition Message0 :: message where
  "Message0 = \<lparr>m_prefix = [], m_existPrefix = False, m_command = [], m_parameter = []\<rparr>"

definition setPrefix :: "string \<Rightarrow> message \<Rightarrow> message" where
  "setPrefix prefix m = m\<lparr>m_existPrefix := True, m_prefix := prefix\<rparr>"

definition setCommand :: "string \<Rightarrow> message \<Rightarrow> message" where
  "setCommand command m = m\<lparr>m_command := map toupper_c command\<rparr>"

definition addParameter :: "string \<Rightarrow> message \<Rightarrow> message" where
  "addParameter parameter m = m\<lparr>m_parameter := m_parameter m @ [parameter]\<rparr>"

text \<open>\<open>while (pos < searedSize && seared[pos] == ' ') ++pos;\<close>\<close>

function skip_spaces :: "string \<Rightarrow> nat \<Rightarrow> nat" where
  "skip_spaces s pos = (if pos < length s \<and> s ! pos = SP then skip_spaces s (Suc pos) else pos)"
  by pat_completeness auto
termination
  by (relation "measure (\<lambda>(s, pos). length s - pos)") auto

declare skip_spaces.simps [simp del]

lemma skip_spaces_ge: "pos \<le> skip_spaces s pos"
proof (induction s pos rule: skip_spaces.induct)
  case (1 s pos)
  then show ?case
    by (cases "pos < length s \<and> s ! pos = SP") (auto simp: skip_spaces.simps [of s pos])
qed

lemma str_find_SomeD:
  assumes "str_find s c pos = Some e"
  shows "pos \<le> e" "e < length s" "s ! e = c" "substr s pos (e - pos) = takeWhile (\<lambda>x. x \<noteq> c) (drop pos s)"
proof -
  let ?w = "takeWhile (\<lambda>x. x \<noteq> c) (drop pos s)"
  have e: "e = pos + length ?w" "e < length s"
    using assms by (auto simp: str_find_def Let_def split: if_splits)
  show "pos \<le> e" "e < length s" using e by auto
  have "length ?w < length (drop pos s)" using e by simp
  then have "drop pos s ! length ?w = c"
    using nth_length_takeWhile by blast
  then show "s ! e = c" using e by simp
  show "substr s pos (e - pos) = ?w"
    by (simp add: substr_def e(1) takeWhile_eq_take [symmetric])
qed

lemma skip_spaces_after_find:
  "str_find s SP pos = Some e \<Longrightarrow> pos < skip_spaces s e"
  using str_find_SomeD [of s SP pos e] skip_spaces_ge [of "Suc e" s]
  by (subst skip_spaces.simps) auto

text \<open>The parameter loop: \<open>paramCount\<close> middle parameters have been stored so far.\<close>

function parse_params :: "string \<Rightarrow> nat \<Rightarrow> nat \<Rightarrow> message \<Rightarrow> message" where
  "parse_params seared pos paramCount m =
     (if pos < length seared then
        if seared ! pos = CHR '':'' \<or> paramCount = 14 then
          addParameter (if seared ! pos = CHR '':'' then drop (pos + 1) seared else drop pos seared) m
        else (case str_find seared SP pos of
            None \<Rightarrow> addParameter (drop pos seared) m
          | Some e \<Rightarrow> parse_params seared (skip_spaces seared e) (paramCount + 1)
              (addParameter (substr seared pos (e - pos)) m))
      else m)"
  by pat_completeness auto
termination
  by (relation "measure (\<lambda>(s, pos, n, m). length s - pos)") (auto dest: skip_spaces_after_find)

declare parse_params.simps [simp del]

text \<open>From the command on\<close>

definition parse_command :: "string \<Rightarrow> nat \<Rightarrow> message \<Rightarrow> bool \<times> message" where
  "parse_command seared pos m =
     (case str_find seared SP pos of
        None \<Rightarrow> (True, setCommand (drop pos seared) m)
      | Some e \<Rightarrow>
          (let m = setCommand (substr seared pos (e - pos)) m; pos = skip_spaces seared e
           in if length seared \<le> pos then (True, m) else (True, parse_params seared pos 0 m)))"

text \<open>From the first word on: the prefix, when there is one, then the command.\<close>

definition spliter_seared :: "string \<Rightarrow> message \<Rightarrow> bool \<times> message" where
  "spliter_seared seared m =
     (case str_find_first_not_of seared SP of
        None \<Rightarrow> (False, m)
      | Some pos \<Rightarrow>
          if seared ! pos = CHR '':'' then
            (let start = pos + 1 in
             case str_find seared SP start of
               None \<Rightarrow> (False, m)
             | Some e \<Rightarrow>
                 (let m = (if start \<noteq> e then setPrefix (substr seared start (e - start)) m else m);
                      pos = skip_spaces seared e
                  in if length seared \<le> pos then (False, m) else parse_command seared pos m))
          else parse_command seared pos m)"

text \<open>
  \<open>Message::spliter\<close>: the returned flag and the message object afterwards. A message that has
  been rejected may already carry a prefix.
\<close>

definition spliter :: "string \<Rightarrow> message \<Rightarrow> bool \<times> message" where
  "spliter raw m =
     (if raw = [] then (False, m) else
      let searing = cut510 raw in
      if str_find searing NUL 0 \<noteq> None then (False, m) else
      let rpos = str_find searing CR 0 in
      if rpos \<noteq> None \<and> rpos \<noteq> Some (length searing - 1) then (False, m) else
      let seared = (if rpos = Some (length searing - 1) then substr searing 0 (length searing - 1) else searing)
      in spliter_seared seared m)"

section \<open>Reference grammar\<close>

text \<open>
  The same over suffixes: \<open>word\<close> is the next word, \<open>next_word\<close> the text from the following word
  on.
\<close>

abbreviation word :: "string \<Rightarrow> string" where
  "word t \<equiv> takeWhile (\<lambda>c. c \<noteq> SP) t"

definition next_word :: "string \<Rightarrow> string" where
  "next_word t = dropWhile (\<lambda>c. c = SP) (dropWhile (\<lambda>c. c \<noteq> SP) t)"

lemma length_next_word: "length (next_word t) \<le> length t"
  unfolding next_word_def by (rule order_trans [OF length_dropWhile_le length_dropWhile_le])

lemma length_next_word_less: "t \<noteq> [] \<Longrightarrow> length (next_word t) < length t"
proof (induction t)
  case (Cons c t)
  show ?case
  proof (cases "c = SP")
    case True
    then show ?thesis by (simp add: next_word_def length_dropWhile_le less_Suc_eq_le)
  next
    case False
    then show ?thesis using length_next_word [of t] by (simp add: next_word_def less_Suc_eq_le)
  qed
qed simp

function params_of :: "nat \<Rightarrow> string \<Rightarrow> string list" where
  "params_of n t =
     (if t = [] then []
      else if hd t = CHR '':'' then [tl t]
      else if n = 14 then [t]
      else word t # params_of (n + 1) (next_word t))"
  by pat_completeness auto
termination
  by (relation "measure (\<lambda>(n, t). length t)") (auto intro: length_next_word_less)

declare params_of.simps [simp del]

text \<open>The line as parsed: cut to 510 bytes, no NUL, a carriage return only at the end, where it is dropped.\<close>

definition line_of :: "string \<Rightarrow> string option" where
  "line_of raw =
     (let s = cut510 raw
      in if s = [] \<or> NUL \<in> set s \<or> CR \<in> set (butlast s) then None
         else Some (if last s = CR then butlast s else s))"

definition body_of :: "string option \<Rightarrow> string \<Rightarrow> string option \<times> string \<times> string list" where
  "body_of pre t = (pre, map toupper_c (word t), params_of 0 (next_word t))"

definition grammar_at :: "string \<Rightarrow> (string option \<times> string \<times> string list) option" where
  "grammar_at t =
     (if t = [] then None
      else if hd t = CHR '':'' then
        (if next_word (tl t) = [] then None
         else Some (body_of (if word (tl t) = [] then None else Some (word (tl t))) (next_word (tl t))))
      else Some (body_of None t))"

definition grammar :: "string \<Rightarrow> (string option \<times> string \<times> string list) option" where
  "grammar raw = Option.bind (line_of raw) (\<lambda>l. grammar_at (dropWhile (\<lambda>c. c = SP) l))"

section \<open>The parser computes the grammar\<close>

lemma takeWhile_short: "length (takeWhile (\<lambda>x. x \<noteq> c) t) < length t \<longleftrightarrow> c \<in> set t"
  by (induction t) auto

lemma str_find_None: "str_find s c pos = None \<longleftrightarrow> c \<notin> set (drop pos s)"
  unfolding takeWhile_short [symmetric] by (auto simp: str_find_def Let_def)

lemma drop_str_find: "str_find s c pos = Some e \<Longrightarrow> drop e s = dropWhile (\<lambda>x. x \<noteq> c) (drop pos s)"
  by (auto simp: str_find_def Let_def dropWhile_eq_drop add.commute split: if_splits)

lemma drop_skip_spaces: "drop (skip_spaces s pos) s = dropWhile (\<lambda>c. c = SP) (drop pos s)"
proof (induction s pos rule: skip_spaces.induct)
  case (1 s pos)
  show ?case
  proof (cases "pos < length s")
    case True
    then have "drop pos s = s ! pos # drop (Suc pos) s" by (simp add: Cons_nth_drop_Suc)
    with True 1 show ?thesis by (auto simp: skip_spaces.simps [of s pos])
  qed (simp add: skip_spaces.simps [of s pos])
qed

lemma drop_skip_find:
  "str_find s SP pos = Some e \<Longrightarrow> drop (skip_spaces s e) s = next_word (drop pos s)"
  by (simp add: drop_skip_spaces drop_str_find next_word_def)

lemma no_space_word:
  assumes "SP \<notin> set t"
  shows "word t = t" "next_word t = []"
proof -
  show "word t = t" using assms by (induction t) auto
  have "dropWhile (\<lambda>c. c \<noteq> SP) t = []" using assms by (induction t) auto
  then show "next_word t = []" unfolding next_word_def by (simp only: dropWhile.simps(1))
qed

lemma params_of_trailing: "params_of n (CHR '':'' # t) = [t]"
  "c \<noteq> CHR '':'' \<Longrightarrow> params_of 14 (c # t) = [c # t]"
  by (simp_all add: params_of.simps)

lemma params_of_Nil [simp]: "params_of n [] = []"
  by (simp add: params_of.simps)

lemma parse_params_eq:
  "parse_params s pos n m = m\<lparr>m_parameter := m_parameter m @ params_of n (drop pos s)\<rparr>"
proof (induction s pos n m rule: parse_params.induct)
  case (1 s pos n m)
  show ?case
  proof (cases "pos < length s")
    case False
    then show ?thesis by (simp add: parse_params.simps [of s pos])
  next
    case True
    then have d: "drop pos s = s ! pos # drop (Suc pos) s" by (simp add: Cons_nth_drop_Suc)
    show ?thesis
    proof (cases "s ! pos = CHR '':'' \<or> n = 14")
      case True
      with \<open>pos < length s\<close> d show ?thesis
        by (auto simp: parse_params.simps [of s pos] params_of_trailing addParameter_def)
    next
      case no_trail: False
      show ?thesis
      proof (cases "str_find s SP pos")
        case None
        then have "params_of n (drop pos s) = [drop pos s]"
          using no_space_word [of "drop pos s"] no_trail d
          by (subst params_of.simps) (auto simp: str_find_None)
        with None no_trail True show ?thesis
          by (simp add: parse_params.simps [of s pos] addParameter_def)
      next
        case (Some e)
        have "params_of n (drop pos s) = word (drop pos s) # params_of (n + 1) (drop (skip_spaces s e) s)"
          using no_trail d by (subst params_of.simps) (auto simp: drop_skip_find [OF Some])
        with Some no_trail True 1 show ?thesis
          by (simp add: parse_params.simps [of s pos] addParameter_def str_find_SomeD(4) [OF Some])
      qed
    qed
  qed
qed

lemma parse_command_eq:
  "parse_command s pos m = (True, m\<lparr>m_command := map toupper_c (word (drop pos s)),
     m_parameter := m_parameter m @ params_of 0 (next_word (drop pos s))\<rparr>)"
proof (cases "str_find s SP pos")
  case None
  then have "SP \<notin> set (drop pos s)" by (simp add: str_find_None)
  then show ?thesis
    using None by (simp add: parse_command_def setCommand_def no_space_word)
next
  case (Some e)
  have "params_of 0 (next_word (drop pos s)) = []" if "length s \<le> skip_spaces s e"
    using that drop_skip_find [OF Some] by simp
  with Some show ?thesis
    by (auto simp: parse_command_def setCommand_def parse_params_eq Let_def
        str_find_SomeD(4) [OF Some] drop_skip_find [OF Some])
qed

lemma find_first_not_of_None: "str_find_first_not_of s c = None \<longleftrightarrow> dropWhile (\<lambda>x. x = c) s = []"
  by (auto simp: str_find_first_not_of_def Let_def dropWhile_eq_drop)

lemma find_first_not_of_Some:
  assumes "str_find_first_not_of s c = Some pos"
  shows "drop pos s = dropWhile (\<lambda>x. x = c) s" "pos < length s"
    "s ! pos = hd (dropWhile (\<lambda>x. x = c) s)"
proof -
  show "drop pos s = dropWhile (\<lambda>x. x = c) s" "pos < length s"
    using assms by (auto simp: str_find_first_not_of_def Let_def dropWhile_eq_drop split: if_splits)
  then show "s ! pos = hd (dropWhile (\<lambda>x. x = c) s)" by (metis hd_drop_conv_nth)
qed

lemma str_find_last:
  assumes "s \<noteq> []"
  shows "str_find s c 0 \<noteq> None \<and> str_find s c 0 \<noteq> Some (length s - 1) \<longleftrightarrow> c \<in> set (butlast s)"
    and "str_find s c 0 = Some (length s - 1) \<longleftrightarrow> c \<notin> set (butlast s) \<and> last s = c"
proof -
  obtain b x where s: "s = b @ [x]" using assms by (metis append_butlast_last_id)
  have short: "length (takeWhile (\<lambda>y. y \<noteq> c) b) < length b" if "c \<in> set b"
    using that by (simp add: takeWhile_short)
  have "str_find s c 0 \<noteq> None \<and> str_find s c 0 \<noteq> Some (length s - 1)"
    "str_find s c 0 \<noteq> Some (length s - 1)" if "c \<in> set b"
    using that short s by (auto simp: str_find_def Let_def takeWhile_append1)
  moreover have "str_find s c 0 = (if x = c then Some (length s - 1) else None)" if "c \<notin> set b"
  proof -
    have "takeWhile (\<lambda>y. y \<noteq> c) (b @ [x]) = b @ takeWhile (\<lambda>y. y \<noteq> c) [x]"
      using that by (intro takeWhile_append2) auto
    then show ?thesis using s by (simp add: str_find_def)
  qed
  ultimately show
    "str_find s c 0 \<noteq> None \<and> str_find s c 0 \<noteq> Some (length s - 1) \<longleftrightarrow> c \<in> set (butlast s)"
    "str_find s c 0 = Some (length s - 1) \<longleftrightarrow> c \<notin> set (butlast s) \<and> last s = c"
    using s by (cases "c \<in> set b"; auto)+
qed

definition message_of :: "string option \<times> string \<times> string list \<Rightarrow> message" where
  "message_of g = (case g of (pre, cmd, ps) \<Rightarrow>
     \<lparr>m_prefix = (case pre of None \<Rightarrow> [] | Some p \<Rightarrow> p), m_existPrefix = (pre \<noteq> None),
      m_command = cmd, m_parameter = ps\<rparr>)"

text \<open>A message without a prefix\<close>

abbreviation cmd_msg :: "string \<Rightarrow> string list \<Rightarrow> message" where
  "cmd_msg name ps \<equiv> message_of (None, name, ps)"

lemma message_of_fields [simp]:
  "m_parameter (message_of (pre, name, ps)) = ps" "m_command (message_of (pre, name, ps)) = name"
  by (simp_all add: message_of_def)

definition accepted :: "bool \<times> message \<Rightarrow> message option" where
  "accepted r = (if fst r then Some (snd r) else None)"

lemma spliter_line:
  assumes "line_of raw = Some l"
  shows "spliter raw m = spliter_seared l m"
proof -
  define s where "s = cut510 raw"
  have s: "s \<noteq> []" "NUL \<notin> set s" "CR \<notin> set (butlast s)"
    and l: "l = (if last s = CR then butlast s else s)"
    using assms by (auto simp: line_of_def s_def Let_def split: if_splits)
  have raw: "raw \<noteq> []" using s(1) s_def by simp
  have nul: "str_find s NUL 0 = None" using s(2) by (simp add: str_find_None)
  note cr = str_find_last [OF s(1), of CR]
  have "(if str_find s CR 0 = Some (length s - 1) then substr s 0 (length s - 1) else s) = l"
    unfolding cr(2) using s(3) l by (simp add: substr_def butlast_conv_take)
  then show ?thesis
    unfolding spliter_def Let_def s_def [symmetric] if_not_P [OF raw] nul cr(1)
    using s(3) by simp
qed

lemma spliter_seared_eq:
  "accepted (spliter_seared l Message0) =
     map_option message_of (grammar_at (dropWhile (\<lambda>c. c = SP) l))"
proof (cases "str_find_first_not_of l SP")
  case None
  then have "dropWhile (\<lambda>c. c = SP) l = []" by (simp only: find_first_not_of_None)
  then have "grammar_at (dropWhile (\<lambda>c. c = SP) l) = None" unfolding grammar_at_def by simp
  with None show ?thesis by (simp add: spliter_seared_def accepted_def)
next
  case first: (Some pos)
  note pos = find_first_not_of_Some [OF first]
  define t where "t = dropWhile (\<lambda>c. c = SP) l"
  have t: "t \<noteq> []" using pos(1,2) t_def by (metis drop_eq_Nil2 not_le)
  have hd: "l ! pos = hd t" using pos(3) t_def by simp
  have dt: "drop pos l = t" using pos(1) t_def by simp
  then have dt': "drop (Suc pos) l = tl t" by (metis drop_Suc tl_drop)
  show ?thesis
  proof (cases "hd t = CHR '':''")
    case False
    then show ?thesis
      using t hd by (simp add: spliter_seared_def accepted_def t_def [symmetric] grammar_at_def first dt
        parse_command_eq body_of_def message_of_def Message0_def)
  next
    case True
    show ?thesis
    proof (cases "str_find l SP (Suc pos)")
      case None
      then have "next_word (tl t) = []" using dt' by (simp add: str_find_None no_space_word)
      then show ?thesis
        using t hd True None by (simp add: spliter_seared_def accepted_def t_def [symmetric] grammar_at_def first)
    next
      case (Some e)
      have "Suc pos = e \<longleftrightarrow> word (tl t) = []"
        using str_find_SomeD [OF Some] dt' by (auto simp: substr_def)
      moreover have "length l \<le> skip_spaces l e \<longleftrightarrow> next_word (tl t) = []"
        using drop_skip_find [OF Some] dt' by (metis drop_eq_Nil2)
      ultimately show ?thesis
        using t hd True Some str_find_SomeD(4) [OF Some] drop_skip_find [OF Some] dt'
        by (simp add: spliter_seared_def accepted_def t_def [symmetric] grammar_at_def first parse_command_eq
            body_of_def message_of_def Message0_def setPrefix_def Let_def)
    qed
  qed
qed

lemma spliter_rejects_line:
  assumes "line_of raw = None"
  shows "accepted (spliter raw Message0) = None"
proof (cases "raw = []")
  case False
  define s where "s = cut510 raw"
  have s: "s \<noteq> []" using False s_def by simp
  then have "NUL \<in> set s \<or> CR \<in> set (butlast s)"
    using assms by (auto simp: line_of_def s_def Let_def split: if_splits)
  then have "str_find s NUL 0 \<noteq> None \<or>
      str_find s CR 0 \<noteq> None \<and> str_find s CR 0 \<noteq> Some (length s - 1)"
    using str_find_last(1) [OF s] by (auto simp: str_find_None)
  then show ?thesis
    by (auto simp: spliter_def Let_def accepted_def s_def)
qed (simp add: spliter_def accepted_def)

lemma spliter_grammar: "accepted (spliter raw Message0) = map_option message_of (grammar raw)"
proof (cases "line_of raw")
  case None
  then show ?thesis by (simp add: spliter_rejects_line grammar_def)
next
  case (Some l)
  then show ?thesis by (simp add: spliter_line spliter_seared_eq grammar_def)
qed

section \<open>The shape of accepted messages\<close>

text \<open>A middle parameter: a non-empty word that does not start with a colon.\<close>

definition middle :: "string \<Rightarrow> bool" where
  "middle p \<longleftrightarrow> p \<noteq> [] \<and> SP \<notin> set p \<and> hd p \<noteq> CHR '':''"

lemma word_no_space: "SP \<notin> set (word t)"
  using set_takeWhileD by fastforce

lemma set_next_word: "set (next_word t) \<subseteq> set t"
  unfolding next_word_def by (meson set_dropWhileD subsetI)

lemma hd_next_word: "next_word t \<noteq> [] \<Longrightarrow> hd (next_word t) \<noteq> SP"
  unfolding next_word_def using hd_dropWhile by blast

lemma length_params_of: "n \<le> 14 \<Longrightarrow> length (params_of n t) \<le> 15 - n"
proof (induction n t rule: params_of.induct)
  case (1 n t)
  then show ?case
    by (cases "t = [] \<or> hd t = CHR '':'' \<or> n = 14") (auto simp: params_of.simps [of n t])
qed

lemma word_middle: "t \<noteq> [] \<Longrightarrow> hd t \<noteq> SP \<Longrightarrow> hd t \<noteq> CHR '':'' \<Longrightarrow> middle (word t)"
  using word_no_space [of t] by (cases t) (auto simp: middle_def)

lemma params_of_middle:
  "t = [] \<or> hd t \<noteq> SP \<Longrightarrow> list_all middle (butlast (params_of n t))"
proof (induction n t rule: params_of.induct)
  case (1 n t)
  show ?case
  proof (cases "t = [] \<or> hd t = CHR '':'' \<or> n = 14")
    case True
    then show ?thesis by (auto simp: params_of.simps [of n t])
  next
    case False
    then have "list_all middle (butlast (params_of (n + 1) (next_word t)))"
      using "1.IH" hd_next_word by blast
    moreover have "middle (word t)" using False "1.prems" word_middle by blast
    ultimately show ?thesis using False by (simp add: params_of.simps [of n t])
  qed
qed

lemma set_params_of: "p \<in> set (params_of n t) \<Longrightarrow> set p \<subseteq> set t"
proof (induction n t rule: params_of.induct)
  case (1 n t)
  show ?case
  proof (cases "t = [] \<or> hd t = CHR '':'' \<or> n = 14")
    case True
    then have "params_of n t \<in> {[], [tl t], [t]}" by (auto simp: params_of.simps [of n t])
    with "1.prems" show ?thesis by (cases t) auto
  next
    case False
    then consider "p = word t" | "p \<in> set (params_of (n + 1) (next_word t))"
      using "1.prems" by (auto simp: params_of.simps [of n t])
    then show ?thesis
      using "1.IH" False set_next_word [of t] by cases (auto dest: set_takeWhileD)
  qed
qed

lemma line_of_set: "line_of raw = Some l \<Longrightarrow> set l \<subseteq> set raw - {NUL, CR}"
proof -
  assume l: "line_of raw = Some l"
  define s where "s = cut510 raw"
  have s: "s \<noteq> []" "NUL \<notin> set s" "CR \<notin> set (butlast s)" "l = (if last s = CR then butlast s else s)"
    using l by (auto simp: line_of_def s_def Let_def split: if_splits)
  have "set s = insert (last s) (set (butlast s))"
    using s(1) by (metis append_butlast_last_id list.simps(15) set_rotate1 rotate1.simps(2))
  then show ?thesis using s set_cut510 [of raw] by (auto simp: s_def split: if_splits)
qed

lemma grammar_SomeE:
  assumes "grammar raw = Some (pre, cmd, ps)"
  obtains t where "t \<noteq> []" "hd t \<noteq> SP" "set t \<subseteq> set raw - {NUL, CR}"
    "cmd = map toupper_c (word t)" "ps = params_of 0 (next_word t)"
    "case pre of None \<Rightarrow> True | Some p \<Rightarrow> p \<noteq> [] \<and> SP \<notin> set p \<and> set p \<subseteq> set raw - {NUL, CR}"
proof -
  obtain l where l: "line_of raw = Some l" using assms by (cases "line_of raw") (auto simp: grammar_def)
  define t where "t = dropWhile (\<lambda>c. c = SP) l"
  have sub: "set t \<subseteq> set raw - {NUL, CR}"
    using line_of_set [OF l] set_dropWhileD [of _ _ l] by (fastforce simp: t_def)
  have g: "grammar_at t = Some (pre, cmd, ps)"
    using assms l by (simp add: grammar_def t_def)
  then have t: "t \<noteq> []" by (auto simp: grammar_at_def)
  then have sp: "hd t \<noteq> SP"
    using hd_dropWhile [of "\<lambda>c. c = SP" l] unfolding t_def by blast
  have subtl: "set (tl t) \<subseteq> set raw - {NUL, CR}" using sub t by (cases t) auto
  show thesis
  proof (cases "hd t = CHR '':''")
    case True
    have "set (word (tl t)) \<subseteq> set raw - {NUL, CR}" using subtl set_takeWhileD by fastforce
    then show thesis
      using g t True subtl hd_next_word [of "tl t"] set_next_word [of "tl t"] word_no_space [of "tl t"]
      by (intro that [of "next_word (tl t)"]) (auto simp: grammar_at_def body_of_def split: if_splits)
  next
    case False
    then show thesis
      using g t sp sub by (intro that [of t]) (auto simp: grammar_at_def body_of_def)
  qed
qed

text \<open>No accepted message carries a NUL, a carriage return or a byte that was not received.\<close>

definition message_bytes :: "message \<Rightarrow> char set" where
  "message_bytes m = set (m_prefix m) \<union> \<Union> (set ` set (m_parameter m))"

lemma toupper_c_lower [simp]: "\<not> islower_c (toupper_c c)"
  by (auto simp: ctype_defs)

lemma toupper_c_no_space: "toupper_c c = SP \<longleftrightarrow> c = SP"
  by (cases "islower_c c") (auto simp: toupper_c_def islower_c_def dest!: arg_cong [where f = code])

lemma accepted_grammar:
  assumes "accepted (spliter raw Message0) = Some m"
  obtains pre cmd ps where "grammar raw = Some (pre, cmd, ps)" "m = message_of (pre, cmd, ps)"
  using assms by (auto simp: spliter_grammar)

lemma accepted_bytes:
  assumes "accepted (spliter raw Message0) = Some m"
  shows "message_bytes m \<subseteq> set raw - {NUL, CR}"
proof -
  obtain pre cmd ps where g: "grammar raw = Some (pre, cmd, ps)" and m: "m = message_of (pre, cmd, ps)"
    using assms by (rule accepted_grammar)
  obtain t where t: "set t \<subseteq> set raw - {NUL, CR}" "ps = params_of 0 (next_word t)"
    "case pre of None \<Rightarrow> True | Some p \<Rightarrow> p \<noteq> [] \<and> SP \<notin> set p \<and> set p \<subseteq> set raw - {NUL, CR}"
    using g by (rule grammar_SomeE)
  have "set p \<subseteq> set raw - {NUL, CR}" if "p \<in> set ps" for p
    using that t(1,2) set_params_of [of p 0 "next_word t"] set_next_word [of t] by blast
  then show ?thesis
    using t(3) by (auto simp: m message_of_def message_bytes_def split: option.splits)
qed

section \<open>Printing\<close>

fun print_params :: "string list \<Rightarrow> string" where
  "print_params [] = []"
| "print_params [p] = '' :'' @ p"
| "print_params (p # ps) = SP # p @ print_params ps"

definition print_message :: "string option \<Rightarrow> string \<Rightarrow> string list \<Rightarrow> string" where
  "print_message pre cmd ps =
     (case pre of None \<Rightarrow> [] | Some p \<Rightarrow> CHR '':'' # p @ [SP]) @ cmd @ print_params ps"

definition printable :: "string option \<Rightarrow> string \<Rightarrow> string list \<Rightarrow> bool" where
  "printable pre cmd ps \<longleftrightarrow>
     middle cmd \<and> list_all (\<lambda>c. \<not> islower_c c) cmd \<and>
     (case pre of None \<Rightarrow> True | Some p \<Rightarrow> p \<noteq> [] \<and> SP \<notin> set p) \<and>
     length ps \<le> 15 \<and> list_all middle (butlast ps) \<and>
     length (print_message pre cmd ps) \<le> 510 \<and>
     NUL \<notin> set (print_message pre cmd ps) \<and> CR \<notin> set (print_message pre cmd ps)"

lemma word_append: "SP \<notin> set p \<Longrightarrow> word (p @ SP # r) = p"
  by (induction p) auto

lemma next_word_append: "SP \<notin> set p \<Longrightarrow> next_word (p @ SP # r) = dropWhile (\<lambda>c. c = SP) r"
  by (induction p) (auto simp: next_word_def)

lemma print_params_Cons: "ps \<noteq> [] \<Longrightarrow> list_all middle (butlast ps) \<Longrightarrow>
   \<exists>r. print_params ps = SP # r \<and> r \<noteq> [] \<and> hd r \<noteq> SP"
  by (cases ps rule: print_params.cases) (auto simp: middle_def dest: hd_in_set)

lemma params_of_print:
  "ps \<noteq> [] \<Longrightarrow> n + length ps \<le> 15 \<Longrightarrow> list_all middle (butlast ps) \<Longrightarrow>
     params_of n (tl (print_params ps)) = ps"
proof (induction ps arbitrary: n rule: print_params.induct)
  case (2 p)
  then show ?case by (simp add: params_of_trailing)
next
  case (3 p q qs)
  let ?ps = "q # qs"
  obtain r where r: "print_params ?ps = SP # r" "hd r \<noteq> SP"
    using print_params_Cons [of ?ps] "3.prems" by auto
  have p: "middle p" using "3.prems" by simp
  have "params_of (n + 1) r = ?ps" using "3.IH" [of "n + 1"] "3.prems" r by simp
  moreover have "dropWhile (\<lambda>c. c = SP) r = r" using r(2) by (cases r) auto
  ultimately show ?case
    using p r "3.prems" by (subst params_of.simps)
      (auto simp: middle_def word_append next_word_append)
qed simp

lemma map_toupper_id: "list_all (\<lambda>c. \<not> islower_c c) s \<Longrightarrow> map toupper_c s = s"
  by (induction s) (auto simp: toupper_c_def)

lemma body_of_print:
  assumes "middle cmd" "list_all (\<lambda>c. \<not> islower_c c) cmd" "length ps \<le> 15" "list_all middle (butlast ps)"
  shows "body_of pre (cmd @ print_params ps) = (pre, cmd, ps)"
proof -
  have cmd: "SP \<notin> set cmd" using assms(1) by (simp add: middle_def)
  have "word (cmd @ print_params ps) = cmd \<and> params_of 0 (next_word (cmd @ print_params ps)) = ps"
  proof (cases "ps = []")
    case True
    then show ?thesis using no_space_word [OF cmd] by simp
  next
    case False
    then obtain r where r: "print_params ps = SP # r" "r \<noteq> []" "hd r \<noteq> SP"
      using print_params_Cons [of ps] assms(4) by auto
    have "dropWhile (\<lambda>c. c = SP) r = r" using r by (cases r) auto
    then show ?thesis
      using r params_of_print [of ps 0] False assms(3,4)
      by (simp add: word_append [OF cmd] next_word_append [OF cmd])
  qed
  then show ?thesis using assms(2) by (simp add: body_of_def map_toupper_id)
qed

lemma grammar_print:
  assumes "printable pre cmd ps"
  shows "grammar (print_message pre cmd ps) = Some (pre, cmd, ps)"
proof -
  let ?raw = "print_message pre cmd ps"
  have c: "middle cmd" "list_all (\<lambda>c. \<not> islower_c c) cmd" "length ps \<le> 15" "list_all middle (butlast ps)"
    and raw: "length ?raw \<le> 510" "NUL \<notin> set ?raw" "CR \<notin> set ?raw"
    and pre: "case pre of None \<Rightarrow> True | Some p \<Rightarrow> p \<noteq> [] \<and> SP \<notin> set p"
    using assms by (auto simp: printable_def)
  have ne: "?raw \<noteq> []" using c(1) by (auto simp: print_message_def middle_def)
  then have line: "line_of ?raw = Some ?raw"
    using raw by (auto simp: line_of_def Let_def dest: in_set_butlastD last_in_set)
  have cmd: "cmd @ print_params ps \<noteq> []" "hd (cmd @ print_params ps) \<noteq> SP"
    "hd (cmd @ print_params ps) \<noteq> CHR '':''"
    using c(1) by (auto simp: middle_def dest: hd_in_set)
  note body = body_of_print [OF c]
  have trim: "dropWhile (\<lambda>c. c = SP) (cmd @ print_params ps) = cmd @ print_params ps"
    using cmd by (cases "cmd @ print_params ps") auto
  show ?thesis
  proof (cases pre)
    case None
    then have raw': "?raw = cmd @ print_params ps" by (simp add: print_message_def)
    have "grammar_at (cmd @ print_params ps) = Some (pre, cmd, ps)"
      using cmd None by (simp add: grammar_at_def body)
    then show ?thesis unfolding grammar_def line unfolding raw' by (simp only: trim Option.bind.simps)
  next
    case (Some p)
    then have p: "SP \<notin> set p" "p \<noteq> []" using pre by auto
    have raw': "?raw = CHR '':'' # p @ SP # cmd @ print_params ps"
      using Some by (simp add: print_message_def)
    have "grammar_at (CHR '':'' # p @ SP # cmd @ print_params ps) = Some (pre, cmd, ps)"
      using cmd Some p body by (simp add: grammar_at_def word_append next_word_append trim)
    then show ?thesis unfolding grammar_def line unfolding raw' by simp
  qed
qed

end
