(* ===== verification/Irc_Client.thy ===== *)
theory Irc_Client
  imports Irc_Message
begin

text \<open>
  The per-connection state of \<open>Client.hpp\<close> and the methods of \<open>Client.cpp\<close> that touch one client
  object only, with the helpers of \<open>common/\<close> that read one. The methods that follow pointers to channels
  (\<open>broadcastNickChange\<close>, \<open>broadcastQuit\<close>) are in \<open>Irc_State\<close>.
\<close>

section \<open>Pointers\<close>

text \<open>Addresses of \<open>Client\<close> and \<open>Channel\<close> objects, ordered as \<open>std::set<Client *>\<close> needs it.\<close>

datatype cptr = CPtr (cptr_addr: nat)

datatype chptr = ChPtr (chptr_addr: nat)

instantiation cptr :: linorder
begin

definition less_eq_cptr :: "cptr \<Rightarrow> cptr \<Rightarrow> bool" where
  "less_eq_cptr p q \<longleftrightarrow> cptr_addr p \<le> cptr_addr q"

definition less_cptr :: "cptr \<Rightarrow> cptr \<Rightarrow> bool" where
  "less_cptr p q \<longleftrightarrow> cptr_addr p < cptr_addr q"

instance
  by intro_classes (auto simp: less_eq_cptr_def less_cptr_def cptr.expand)

end

section \<open>State\<close>

record client =
  cl_fd :: int
  cl_ip :: string
  cl_nickname :: string
  cl_username :: string
  cl_realname :: string
  cl_is_registered :: bool
  cl_is_password_verified :: bool
  cl_joinedChannels :: "(string, chptr) omap"
  cl_invitedChannels :: "chptr list"
  cl_read_buffer :: string
  cl_write_buffer :: string
  cl_connectedAt :: int
  cl_lastActivity :: int
  cl_pingSent :: bool
  cl_closingSince :: int

text \<open>The constructor; \<open>now\<close> is the value of \<open>std::time(NULL)\<close>.\<close>

definition new_Client :: "int \<Rightarrow> int \<Rightarrow> client" where
  "new_Client now fd =
     \<lparr>cl_fd = fd, cl_ip = [], cl_nickname = [], cl_username = [], cl_realname = [],
      cl_is_registered = False, cl_is_password_verified = False,
      cl_joinedChannels = [], cl_invitedChannels = [], cl_read_buffer = [], cl_write_buffer = [],
      cl_connectedAt = now, cl_lastActivity = now, cl_pingSent = False, cl_closingSince = 0\<rparr>"

section \<open>Methods\<close>

definition setIp :: "string \<Rightarrow> client \<Rightarrow> client" where
  "setIp ip c = c\<lparr>cl_ip := ip\<rparr>"

definition setNickname :: "string \<Rightarrow> client \<Rightarrow> client" where
  "setNickname nickname c = c\<lparr>cl_nickname := nickname\<rparr>"

definition setUsername :: "string \<Rightarrow> client \<Rightarrow> client" where
  "setUsername username c = c\<lparr>cl_username := username\<rparr>"

definition setRealname :: "string \<Rightarrow> client \<Rightarrow> client" where
  "setRealname realname c = c\<lparr>cl_realname := realname\<rparr>"

definition setRegistered :: "bool \<Rightarrow> client \<Rightarrow> client" where
  "setRegistered status c = c\<lparr>cl_is_registered := status\<rparr>"

definition setPasswordVerified :: "bool \<Rightarrow> client \<Rightarrow> client" where
  "setPasswordVerified status c = c\<lparr>cl_is_password_verified := status\<rparr>"

definition addJoinedChannels :: "string \<Rightarrow> chptr \<Rightarrow> client \<Rightarrow> client" where
  "addJoinedChannels name channel c = c\<lparr>cl_joinedChannels := omap_put name channel (cl_joinedChannels c)\<rparr>"

definition removeJoinedChannels :: "string \<Rightarrow> client \<Rightarrow> client" where
  "removeJoinedChannels name c = c\<lparr>cl_joinedChannels := omap_erase name (cl_joinedChannels c)\<rparr>"

definition addInvitedChannel :: "chptr \<Rightarrow> client \<Rightarrow> client" where
  "addInvitedChannel ch c = c\<lparr>cl_invitedChannels := cl_invitedChannels c @ [ch]\<rparr>"

definition removeInvitedChannel :: "chptr \<Rightarrow> client \<Rightarrow> client" where
  "removeInvitedChannel ch c = c\<lparr>cl_invitedChannels := erase_remove ch (cl_invitedChannels c)\<rparr>"

definition sendReply :: "string \<Rightarrow> client \<Rightarrow> client" where
  "sendReply message c = c\<lparr>cl_write_buffer := cl_write_buffer c @ (cut510 message @ [CR, LF])\<rparr>"

definition hasCompleteLine :: "client \<Rightarrow> bool" where
  "hasCompleteLine c \<longleftrightarrow> str_find (cl_read_buffer c) LF 0 \<noteq> None"

text \<open>
  \<open>popLine\<close> returns the line and leaves the rest. Without a newline \<open>pos\<close> is \<open>npos\<close>: the line is
  the whole buffer, and \<open>erase(0, npos + 1)\<close> erases nothing because \<open>npos + 1\<close> wraps to 0.
\<close>

definition popLine :: "client \<Rightarrow> string \<times> client" where
  "popLine c =
     (let pos = str_find (cl_read_buffer c) LF 0;
          line = (case pos of None \<Rightarrow> cl_read_buffer c | Some e \<Rightarrow> substr (cl_read_buffer c) 0 e);
          line = (if line \<noteq> [] \<and> last line = CR then butlast line else line)
      in (line, c\<lparr>cl_read_buffer := (case pos of None \<Rightarrow> cl_read_buffer c | Some e \<Rightarrow> drop (e + 1) (cl_read_buffer c))\<rparr>))"

definition updateLastActivity :: "int \<Rightarrow> client \<Rightarrow> client" where
  "updateLastActivity now c = c\<lparr>cl_lastActivity := now, cl_pingSent := False\<rparr>"

definition getIdleTime :: "int \<Rightarrow> client \<Rightarrow> int" where
  "getIdleTime now c = now - cl_lastActivity c"

definition getConnectTime :: "int \<Rightarrow> client \<Rightarrow> int" where
  "getConnectTime now c = now - cl_connectedAt c"

definition setPingSent :: "bool \<Rightarrow> client \<Rightarrow> client" where
  "setPingSent status c = c\<lparr>cl_pingSent := status\<rparr>"

definition markClosing :: "int \<Rightarrow> client \<Rightarrow> client" where
  "markClosing now c = c\<lparr>cl_closingSince := now\<rparr>"

definition getClosingTime :: "int \<Rightarrow> client \<Rightarrow> int" where
  "getClosingTime now c = (if cl_closingSince c = 0 then 0 else now - cl_closingSince c)"

definition tryCompleteRegistration :: "client \<Rightarrow> client" where
  "tryCompleteRegistration c =
     (if \<not> cl_is_registered c \<and> cl_is_password_verified c \<and> cl_nickname c \<noteq> [] \<and> cl_username c \<noteq> [] then
        (let c = c\<lparr>cl_is_registered := True\<rparr>;
             c = sendReply (formatReply RPL_WELCOME (cl_nickname c)
                   (''Welcome to the ircserv Network, '' @ cl_nickname c @ ''!'' @ cl_username c @ ''@'' @ cl_ip c)) c;
             c = sendReply (formatReply RPL_YOURHOST (cl_nickname c)
                   ''Your host is ircserv, running version 1.0'') c;
             c = sendReply (formatReply RPL_CREATED (cl_nickname c)
                   ''This server was created for ircserv'') c
         in sendReply ('':ircserv '' @ RPL_MYINFO @ '' '' @ cl_nickname c @ '' ircserv 1.0 o itkol'') c)
      else c)"

definition isMissingPassword :: "client \<Rightarrow> bool" where
  "isMissingPassword c \<longleftrightarrow> \<not> cl_is_registered c \<and> \<not> cl_is_password_verified c \<and>
     cl_nickname c \<noteq> [] \<and> cl_username c \<noteq> []"

text \<open>\<open>IrcReply::targetname\<close> and \<open>makeCommand\<close>\<close>

definition targetname :: "client \<Rightarrow> string" where
  "targetname c = (if cl_is_registered c then cl_nickname c else ''*'')"

definition makeCommand :: "client \<Rightarrow> string \<Rightarrow> string \<Rightarrow> string" where
  "makeCommand c cmd rest =
     (let prefix = cl_nickname c @ ''!'' @ cl_username c @ ''@'' @ cl_ip c
      in if rest \<noteq> [] then '':'' @ prefix @ '' '' @ cmd @ '' '' @ rest
         else '':'' @ prefix @ '' '' @ cmd)"

text \<open>The nickname syntax of \<open>common/commandlist/Nick.cpp\<close>\<close>

definition isSpecial :: "char \<Rightarrow> bool" where
  "isSpecial c \<longleftrightarrow>
     c = CHR ''['' \<or> c = CHR '']'' \<or> c = CHR 0x5C \<or> c = CHR 0x60 \<or>
     c = CHR ''_'' \<or> c = CHR ''^'' \<or> c = CHR ''{'' \<or> c = CHR ''}'' \<or> c = CHR ''|''"

definition isValidNickname :: "string \<Rightarrow> bool" where
  "isValidNickname newer \<longleftrightarrow>
     (if newer = [] \<or> length newer > 9 then False
      else if \<not> isalpha_c (hd newer) \<and> \<not> isSpecial (hd newer) then False
      else \<not> (\<exists>c \<in> set (tl newer). \<not> isalnum_c c \<and> \<not> isSpecial c \<and> c \<noteq> CHR ''-''))"

section \<open>Lines in\<close>

lemma hasCompleteLine_iff: "hasCompleteLine c \<longleftrightarrow> LF \<in> set (cl_read_buffer c)"
  by (simp add: hasCompleteLine_def str_find_None)

lemma popLine_split:
  assumes "cl_read_buffer c = l @ LF # rest" and "LF \<notin> set l"
  shows "popLine c = (if l \<noteq> [] \<and> last l = CR then butlast l else l, c\<lparr>cl_read_buffer := rest\<rparr>)"
proof -
  have "takeWhile (\<lambda>x. x \<noteq> LF) (l @ LF # rest) = l"
    using assms(2) by (induction l) auto
  then have "str_find (cl_read_buffer c) LF 0 = Some (length l)"
    using assms(1) by (simp add: str_find_def)
  then show ?thesis
    using assms(1) by (simp add: popLine_def Let_def substr_def)
qed

lemma popLine_complete:
  assumes "hasCompleteLine c"
  obtains l rest where "cl_read_buffer c = l @ LF # rest" "LF \<notin> set l"
    "popLine c = (if l \<noteq> [] \<and> last l = CR then butlast l else l, c\<lparr>cl_read_buffer := rest\<rparr>)"
  using assms popLine_split split_list_first [of LF "cl_read_buffer c"]
  by (auto simp: hasCompleteLine_iff)

lemma popLine_shrinks:
  assumes "hasCompleteLine c"
  shows "length (cl_read_buffer (snd (popLine c))) < length (cl_read_buffer c)"
  using popLine_complete [OF assms] by (metis (no_types, lifting) add_Suc_right client.select_convs(10)
      client.surjective client.update_convs(10) le_add2 length_Cons length_append less_Suc_eq_le snd_conv)

lemma popLine_no_LF: "LF \<notin> set (fst (popLine c))"
proof (cases "hasCompleteLine c")
  case True
  then obtain l rest where "LF \<notin> set l"
    "popLine c = (if l \<noteq> [] \<and> last l = CR then butlast l else l, c\<lparr>cl_read_buffer := rest\<rparr>)"
    by (rule popLine_complete)
  then show ?thesis by (auto dest: in_set_butlastD)
next
  case False
  then have "str_find (cl_read_buffer c) LF 0 = None" "LF \<notin> set (cl_read_buffer c)"
    by (simp_all add: hasCompleteLine_def str_find_None)
  then show ?thesis by (auto simp: popLine_def Let_def dest: in_set_butlastD)
qed

section \<open>Registration\<close>

lemma registered_tryCompleteRegistration:
  "cl_is_registered (tryCompleteRegistration c) \<longleftrightarrow>
     cl_is_registered c \<or> cl_is_password_verified c \<and> cl_nickname c \<noteq> [] \<and> cl_username c \<noteq> []"
  by (auto simp: tryCompleteRegistration_def sendReply_def Let_def)

text \<open>A client that gave both names is registered or has no valid password.\<close>

lemma registration_trichotomy:
  "cl_is_registered (tryCompleteRegistration c) \<or> isMissingPassword (tryCompleteRegistration c) \<or>
   cl_nickname c = [] \<or> cl_username c = []"
  by (auto simp: tryCompleteRegistration_def isMissingPassword_def sendReply_def Let_def)

end
