(* ===== verification/Irc_Channel_Base.thy ===== *)
theory Irc_Channel_Base
  imports Irc_Client
begin

text \<open>
  The state of \<open>channel/Channel.hpp\<close> and the parts of \<open>channel/Channel.cpp\<close> that touch one channel object
  only: the checkers, the list administration, the mode flags, and the validation and printing of mode
  parameters.
\<close>

section \<open>State\<close>

record channel =
  ch_name :: string
  ch_topic :: string
  ch_key :: string
  ch_userLimit :: int
  ch_members :: "cptr list"
  ch_operators :: "cptr list"
  ch_invitedUsers :: "cptr list"
  ch_inviteOnly :: bool
  ch_topicByOpOnly :: bool

definition new_Channel :: "string \<Rightarrow> channel" where
  "new_Channel name =
     \<lparr>ch_name = name, ch_topic = [], ch_key = [], ch_userLimit = 0, ch_members = [], ch_operators = [],
      ch_invitedUsers = [], ch_inviteOnly = False, ch_topicByOpOnly = False\<rparr>"

definition default_Channel :: channel where
  "default_Channel =
     \<lparr>ch_name = ''default'', ch_topic = [], ch_key = [], ch_userLimit = 0, ch_members = [], ch_operators = [],
      ch_invitedUsers = [], ch_inviteOnly = False, ch_topicByOpOnly = False\<rparr>"

text \<open>\<open>operator=\<close>; the test for self-assignment makes no difference to the result\<close>

definition assign_Channel :: "channel \<Rightarrow> channel \<Rightarrow> channel" where
  "assign_Channel other this = this\<lparr>ch_name := ch_name other, ch_topic := ch_topic other, ch_key := ch_key other,
     ch_userLimit := ch_userLimit other, ch_inviteOnly := ch_inviteOnly other, ch_topicByOpOnly := ch_topicByOpOnly other,
     ch_members := ch_members other, ch_operators := ch_operators other, ch_invitedUsers := ch_invitedUsers other\<rparr>"

lemma assign_Channel_eq: "assign_Channel other this = other"
  by (simp add: assign_Channel_def)

section \<open>Checkers\<close>

definition checkKey :: "channel \<Rightarrow> string \<Rightarrow> bool" where
  "checkKey ch key \<longleftrightarrow> ch_key ch = key"

definition isFull :: "channel \<Rightarrow> bool" where
  "isFull ch \<longleftrightarrow> (if ch_userLimit ch \<le> 0 then False else nat (ch_userLimit ch) \<le> length (ch_members ch))"

definition isInvited :: "channel \<Rightarrow> cptr \<Rightarrow> bool" where
  "isInvited ch client \<longleftrightarrow> List.member (ch_invitedUsers ch) client"

definition isMember :: "channel \<Rightarrow> cptr \<Rightarrow> bool" where
  "isMember ch client \<longleftrightarrow> List.member (ch_members ch) client"

definition isOperator :: "channel \<Rightarrow> cptr \<Rightarrow> bool" where
  "isOperator ch client \<longleftrightarrow> List.member (ch_operators ch) client"

definition isEmpty :: "channel \<Rightarrow> bool" where
  "isEmpty ch \<longleftrightarrow> ch_members ch = []"

lemma checkers [simp]:
  "isInvited ch p \<longleftrightarrow> p \<in> set (ch_invitedUsers ch)"
  "isMember ch p \<longleftrightarrow> p \<in> set (ch_members ch)"
  "isOperator ch p \<longleftrightarrow> p \<in> set (ch_operators ch)"
  by (simp_all add: isInvited_def isMember_def isOperator_def)

section \<open>Lists and flags\<close>

definition removeMemberfromInvitedUsers :: "cptr \<Rightarrow> channel \<Rightarrow> channel" where
  "removeMemberfromInvitedUsers client ch = ch\<lparr>ch_invitedUsers := erase_remove client (ch_invitedUsers ch)\<rparr>"

definition addOperator :: "cptr \<Rightarrow> channel \<Rightarrow> channel" where
  "addOperator client ch =
     (if \<not> isOperator ch client then ch\<lparr>ch_operators := ch_operators ch @ [client]\<rparr> else ch)"

definition removeOperator :: "cptr \<Rightarrow> channel \<Rightarrow> channel" where
  "removeOperator client ch = ch\<lparr>ch_operators := erase_remove client (ch_operators ch)\<rparr>"

definition setModeInviteOnly :: "bool \<Rightarrow> channel \<Rightarrow> channel" where
  "setModeInviteOnly enable ch = ch\<lparr>ch_inviteOnly := enable\<rparr>"

definition setModeTopicRestriction :: "bool \<Rightarrow> channel \<Rightarrow> channel" where
  "setModeTopicRestriction enable ch = ch\<lparr>ch_topicByOpOnly := enable\<rparr>"

definition setModeKey :: "bool \<Rightarrow> string \<Rightarrow> channel \<Rightarrow> channel" where
  "setModeKey enable key ch = (if enable then ch\<lparr>ch_key := key\<rparr> else ch\<lparr>ch_key := []\<rparr>)"

definition setModeOperator :: "bool \<Rightarrow> cptr \<Rightarrow> channel \<Rightarrow> channel" where
  "setModeOperator enable user ch =
     (if enable then
        (if isOperator ch user then ch else ch\<lparr>ch_operators := ch_operators ch @ [user]\<rparr>)
      else
        (if \<not> isOperator ch user then ch
         else ch\<lparr>ch_operators := erase_remove user (ch_operators ch)\<rparr>))"

definition setModeUserLimit :: "bool \<Rightarrow> int \<Rightarrow> channel \<Rightarrow> channel" where
  "setModeUserLimit enable userLimit ch =
     (if enable then ch\<lparr>ch_userLimit := userLimit\<rparr> else ch\<lparr>ch_userLimit := 0\<rparr>)"

section \<open>Mode strings and parameters\<close>

definition buildModeString :: "channel \<Rightarrow> string" where
  "buildModeString ch =
     (let modes = ''+''; params = [];
          modes = (if ch_inviteOnly ch then modes @ ''i'' else modes);
          modes = (if ch_topicByOpOnly ch then modes @ ''t'' else modes);
          (modes, params) = (if ch_key ch \<noteq> [] then (modes @ ''k'', params @ '' '' @ ch_key ch) else (modes, params));
          (modes, params) = (if ch_userLimit ch > 0 then (modes @ ''l'', params @ '' '' @ show_int (ch_userLimit ch))
                             else (modes, params))
      in modes @ params)"

text \<open>\<open>appendApplied(applied, lastSign, enable, flag)\<close> returns the two by-reference arguments.\<close>

definition appendApplied :: "string \<Rightarrow> char \<Rightarrow> bool \<Rightarrow> char \<Rightarrow> string \<times> char" where
  "appendApplied applied lastSign enable flag =
     (let sign = (if enable then CHR ''+'' else CHR ''-'');
          (applied, lastSign) = (if sign \<noteq> lastSign then (applied @ [sign], sign) else (applied, lastSign))
      in (applied @ [flag], lastSign))"

text \<open>\<open>parseLimit\<close>: the value stored in \<open>out\<close> when the result is true\<close>

definition parseLimit :: "string \<Rightarrow> int option" where
  "parseLimit str =
     (if str = [] \<or> length str > 9 then None
      else if \<exists>c \<in> set str. code c < code CHR ''0'' \<or> code c > code CHR ''9'' then None
      else if atoi str > 0 then Some (atoi str) else None)"

definition isValidKey :: "string \<Rightarrow> bool" where
  "isValidKey key \<longleftrightarrow>
     (if key = [] \<or> length key > 42 then False
      else \<not> (\<exists>c \<in> set key. code c \<le> 32 \<or> code c = 0x7f \<or> c = CHR '',''))"

text \<open>The channel name syntax of \<open>common/commandlist/Join.cpp\<close>\<close>

definition isValidChannelName :: "string \<Rightarrow> bool" where
  "isValidChannelName name \<longleftrightarrow>
     (if name = [] \<or> length name > 50 then False
      else if hd name \<noteq> CHR ''#'' \<and> hd name \<noteq> CHR ''&'' then False
      else if str_find name SP 0 \<noteq> None then False
      else if str_find name CHR '','' 0 \<noteq> None then False
      else if str_find name BEL 0 \<noteq> None then False
      else True)"

section \<open>Facts\<close>

lemma parseLimit_eq:
  "parseLimit str = (if str \<noteq> [] \<and> length str \<le> 9 \<and> list_all isdigit_c str \<and> 0 < dec_value str
     then Some (int (dec_value str)) else None)"
proof (cases "str \<noteq> [] \<and> length str \<le> 9 \<and> list_all isdigit_c str")
  case True
  then have "atoi str = int (dec_value str)" using atoi_digits by blast
  with True show ?thesis
    by (auto simp: parseLimit_def list_all_iff isdigit_c_def)
next
  case False
  then show ?thesis
    by (auto simp: parseLimit_def list_all_iff isdigit_c_def not_le)
qed

lemma parseLimit_range: "parseLimit str = Some n \<Longrightarrow> 0 < n \<and> n < 10 ^ 9"
proof -
  assume "parseLimit str = Some n"
  then have n: "n = int (dec_value str)" "0 < dec_value str" "list_all isdigit_c str" "length str \<le> 9"
    by (auto simp: parseLimit_eq split: if_splits)
  have "dec_value str < 10 ^ length str" using n(3) by (rule dec_value_bound)
  also have "(10::nat) ^ length str \<le> 10 ^ 9" using n(4) by (rule power_increasing) simp
  finally show ?thesis using n by simp
qed

lemma parseLimit_show:
  assumes "0 < n" "n < 10 ^ 9"
  shows "parseLimit (show_int n) = Some n"
proof -
  have "length (show_nat (nat n)) \<le> 9" using assms by (intro length_show_nat) auto
  with assms show ?thesis
    by (simp add: parseLimit_eq show_int_def show_nat_digits)
qed

end
