(* ===== verification/Irc_State.thy ===== *)
theory Irc_State
  imports Irc_Channel_Base
begin

text \<open>
  The state of the whole server: the fields of \<open>network/Server.hpp\<close> and the heap its pointers point into.
  Dereferencing a pointer to an object that does not exist is a fault (\<open>None\<close>). Output is described by
  \<open>post\<close>, which appends messages to the write buffers of any number of clients. The structural invariant
  \<open>wf\<close> relates the maps, the member, operator and invitation lists and the back pointers of the clients.
\<close>

section \<open>State\<close>

datatype pollflag = POLLIN | POLLOUT | POLLERR | POLLHUP | POLLNVAL

record pollfd =
  pf_fd :: int
  pf_events :: "pollflag set"

record server =
  sv_port :: int
  sv_server_fd :: int
  sv_password :: string
  sv_poll_fds :: "pollfd list"
  sv_clients :: "(int, cptr) omap"
  sv_channels :: "(string, chptr) omap"
  sv_to_disconnected :: "(int, string) omap"
  sv_closing :: "(int, string) omap"
  hp_client :: "cptr \<Rightarrow> client option"
  hp_channel :: "chptr \<Rightarrow> channel option"
  hp_next :: nat

definition new_Server :: "int \<Rightarrow> string \<Rightarrow> server" where
  "new_Server port password =
     \<lparr>sv_port = port, sv_server_fd = -1, sv_password = password, sv_poll_fds = [], sv_clients = [],
      sv_channels = [], sv_to_disconnected = [], sv_closing = [],
      hp_client = Map.empty, hp_channel = Map.empty, hp_next = 0\<rparr>"

section \<open>Heap access\<close>

definition set_client :: "cptr \<Rightarrow> client \<Rightarrow> server \<Rightarrow> server" where
  "set_client p c s = s\<lparr>hp_client := (hp_client s)(p \<mapsto> c)\<rparr>"

definition set_channel :: "chptr \<Rightarrow> channel \<Rightarrow> server \<Rightarrow> server" where
  "set_channel q ch s = s\<lparr>hp_channel := (hp_channel s)(q \<mapsto> ch)\<rparr>"

text \<open>A method call through a pointer\<close>

definition on_client :: "cptr \<Rightarrow> (client \<Rightarrow> client) \<Rightarrow> server \<Rightarrow> server option" where
  "on_client p f s = do { c \<leftarrow> hp_client s p; Some (set_client p (f c) s) }"

definition on_channel :: "chptr \<Rightarrow> (channel \<Rightarrow> channel) \<Rightarrow> server \<Rightarrow> server option" where
  "on_channel q f s = do { ch \<leftarrow> hp_channel s q; Some (set_channel q (f ch) s) }"

text \<open>\<open>new\<close> returns an address that was never used before; \<open>delete\<close> of a dead object is a fault.\<close>

definition new_client :: "client \<Rightarrow> server \<Rightarrow> cptr \<times> server" where
  "new_client c s = (CPtr (hp_next s), (set_client (CPtr (hp_next s)) c s)\<lparr>hp_next := Suc (hp_next s)\<rparr>)"

definition new_channel :: "channel \<Rightarrow> server \<Rightarrow> chptr \<times> server" where
  "new_channel ch s = (ChPtr (hp_next s), (set_channel (ChPtr (hp_next s)) ch s)\<lparr>hp_next := Suc (hp_next s)\<rparr>)"

definition delete_client :: "cptr \<Rightarrow> server \<Rightarrow> server option" where
  "delete_client p s = do { _ \<leftarrow> hp_client s p; Some (s\<lparr>hp_client := (hp_client s)(p := None)\<rparr>) }"

definition delete_channel :: "chptr \<Rightarrow> server \<Rightarrow> server option" where
  "delete_channel q s = do { _ \<leftarrow> hp_channel s q; Some (s\<lparr>hp_channel := (hp_channel s)(q := None)\<rparr>) }"

section \<open>Broadcasts to the peers of a client\<close>

text \<open>
  The nested loop of \<open>Client::broadcastNickChange\<close> and \<open>Client::broadcastQuit\<close>: every member of every
  joined channel that has not been notified yet.
\<close>

fun notify_members :: "string \<Rightarrow> cptr list \<Rightarrow> cptr oset \<Rightarrow> server \<Rightarrow> (cptr oset \<times> server) option" where
  "notify_members notice [] notified s = Some (notified, s)"
| "notify_members notice (p # members) notified s =
     (let (inserted, notified') = oset_insert p notified
      in if inserted then do { s \<leftarrow> on_client p (sendReply notice) s; notify_members notice members notified' s }
         else notify_members notice members notified' s)"

fun notify_channels :: "string \<Rightarrow> (string, chptr) omap \<Rightarrow> cptr oset \<Rightarrow> server \<Rightarrow> (cptr oset \<times> server) option" where
  "notify_channels notice [] notified s = Some (notified, s)"
| "notify_channels notice (e # joined) notified s = do {
     ch \<leftarrow> hp_channel s (snd e);
     (notified, s) \<leftarrow> notify_members notice (ch_members ch) notified s;
     notify_channels notice joined notified s }"

definition broadcastNickChange :: "cptr \<Rightarrow> string \<Rightarrow> server \<Rightarrow> server option" where
  "broadcastNickChange this notice s = do {
     s \<leftarrow> on_client this (sendReply notice) s;
     c \<leftarrow> hp_client s this;
     (_, s) \<leftarrow> notify_channels notice (cl_joinedChannels c) (snd (oset_insert this [])) s;
     Some s }"

definition broadcastQuit :: "cptr \<Rightarrow> string \<Rightarrow> server \<Rightarrow> server option" where
  "broadcastQuit this notice s = do {
     c \<leftarrow> hp_client s this;
     (_, s) \<leftarrow> notify_channels notice (cl_joinedChannels c) (snd (oset_insert this [])) s;
     Some s }"

section \<open>Output\<close>

text \<open>\<open>post out s\<close>: every client \<open>p\<close> is sent the messages \<open>out p\<close>, in this order.\<close>

type_synonym outs = "cptr \<Rightarrow> string list"

definition frames :: "string list \<Rightarrow> string" where
  "frames ms = concat (map (\<lambda>m. cut510 m @ [CR, LF]) ms)"

definition emit :: "string list \<Rightarrow> client \<Rightarrow> client" where
  "emit ms c = c\<lparr>cl_write_buffer := cl_write_buffer c @ frames ms\<rparr>"

definition post :: "outs \<Rightarrow> server \<Rightarrow> server" where
  "post out s = s\<lparr>hp_client := (\<lambda>p. map_option (emit (out p)) (hp_client s p))\<rparr>"

definition to_one :: "cptr \<Rightarrow> string list \<Rightarrow> outs" where
  "to_one p ms = (\<lambda>q. if q = p then ms else [])"

definition to_all :: "cptr list \<Rightarrow> string \<Rightarrow> outs" where
  "to_all ps m = (\<lambda>q. replicate (count_list ps q) m)"

definition then_out :: "outs \<Rightarrow> outs \<Rightarrow> outs" where
  "then_out a b = (\<lambda>p. a p @ b p)"

lemma frames_simps [simp]: "frames [] = []" "frames (m # ms) = cut510 m @ [CR, LF] @ frames ms"
  by (simp_all add: frames_def)

lemma frames_append [simp]: "frames (a @ b) = frames a @ frames b"
  by (simp add: frames_def)

lemma emit_Nil [simp]: "emit [] c = c"
  by (simp add: emit_def)

lemma emit_emit [simp]: "emit b (emit a c) = emit (a @ b) c"
  by (simp add: emit_def)

lemma sendReply_emit: "sendReply m = emit [m]"
  by (simp add: fun_eq_iff sendReply_def emit_def)

lemma emit_fields [simp]:
  "cl_fd (emit ms c) = cl_fd c" "cl_ip (emit ms c) = cl_ip c"
  "cl_nickname (emit ms c) = cl_nickname c" "cl_username (emit ms c) = cl_username c"
  "cl_realname (emit ms c) = cl_realname c"
  "cl_is_registered (emit ms c) = cl_is_registered c"
  "cl_is_password_verified (emit ms c) = cl_is_password_verified c"
  "cl_joinedChannels (emit ms c) = cl_joinedChannels c"
  "cl_invitedChannels (emit ms c) = cl_invitedChannels c"
  "cl_read_buffer (emit ms c) = cl_read_buffer c"
  "cl_write_buffer (emit ms c) = cl_write_buffer c @ frames ms"
  "cl_connectedAt (emit ms c) = cl_connectedAt c" "cl_lastActivity (emit ms c) = cl_lastActivity c"
  "cl_pingSent (emit ms c) = cl_pingSent c" "cl_closingSince (emit ms c) = cl_closingSince c"
  by (simp_all add: emit_def)

lemma makeCommand_emit [simp]: "makeCommand (emit ms c) = makeCommand c"
  by (simp add: fun_eq_iff makeCommand_def)

lemma targetname_emit [simp]: "targetname (emit ms c) = targetname c"
  by (simp add: targetname_def)

lemma post_fields [simp]:
  "sv_port (post out s) = sv_port s" "sv_server_fd (post out s) = sv_server_fd s"
  "sv_password (post out s) = sv_password s" "sv_poll_fds (post out s) = sv_poll_fds s"
  "sv_clients (post out s) = sv_clients s" "sv_channels (post out s) = sv_channels s"
  "sv_to_disconnected (post out s) = sv_to_disconnected s" "sv_closing (post out s) = sv_closing s"
  "hp_client (post out s) p = map_option (emit (out p)) (hp_client s p)"
  "hp_channel (post out s) = hp_channel s" "hp_next (post out s) = hp_next s"
  by (simp_all add: post_def)

lemma post_none [post_simps]: "post (\<lambda>_. []) s = s"
  by (simp add: post_def emit_Nil [abs_def] option.map_ident cong: option.map_cong)

lemma post_post [post_simps]: "post b (post a s) = post (then_out a b) s"
  by (simp add: post_def then_out_def option.map_comp o_def)

lemma set_fields [simp]:
  "hp_client (set_client p c s) = (hp_client s)(p \<mapsto> c)" "hp_channel (set_client p c s) = hp_channel s"
  "hp_client (set_channel q ch s) = hp_client s" "hp_channel (set_channel q ch s) = (hp_channel s)(q \<mapsto> ch)"
  "sv_port (set_client p c s) = sv_port s" "sv_port (set_channel q ch s) = sv_port s"
  "sv_server_fd (set_client p c s) = sv_server_fd s" "sv_server_fd (set_channel q ch s) = sv_server_fd s"
  "sv_password (set_client p c s) = sv_password s" "sv_password (set_channel q ch s) = sv_password s"
  "sv_poll_fds (set_client p c s) = sv_poll_fds s" "sv_poll_fds (set_channel q ch s) = sv_poll_fds s"
  "sv_clients (set_client p c s) = sv_clients s" "sv_clients (set_channel q ch s) = sv_clients s"
  "sv_channels (set_client p c s) = sv_channels s" "sv_channels (set_channel q ch s) = sv_channels s"
  "sv_to_disconnected (set_client p c s) = sv_to_disconnected s"
  "sv_to_disconnected (set_channel q ch s) = sv_to_disconnected s"
  "sv_closing (set_client p c s) = sv_closing s" "sv_closing (set_channel q ch s) = sv_closing s"
  "hp_next (set_client p c s) = hp_next s" "hp_next (set_channel q ch s) = hp_next s"
  by (simp_all add: set_client_def set_channel_def)

lemma on_client_live [heap_simps]: "hp_client s p = Some c \<Longrightarrow> on_client p f s = Some (set_client p (f c) s)"
  by (simp add: on_client_def)

lemma on_channel_live [heap_simps]: "hp_channel s q = Some ch \<Longrightarrow> on_channel q f s = Some (set_channel q (f ch) s)"
  by (simp add: on_channel_def)

lemma set_client_same [simp]: "hp_client s p = Some c \<Longrightarrow> set_client p c s = s"
  by (simp add: set_client_def map_upd_triv)

lemma set_channel_same [simp]: "hp_channel s q = Some ch \<Longrightarrow> set_channel q ch s = s"
  by (simp add: set_channel_def map_upd_triv)

lemma set_client_twice [simp]: "set_client p c' (set_client p c s) = set_client p c' s"
  by (simp add: set_client_def)

lemma set_channel_twice [simp]: "set_channel q ch' (set_channel q ch s) = set_channel q ch' s"
  by (simp add: set_channel_def)

lemma set_channel_client: "set_channel q ch (set_client p c s) = set_client p c (set_channel q ch s)"
  by (simp add: set_channel_def set_client_def)

lemma set_channel_post [post_simps]: "set_channel q ch (post out s) = post out (set_channel q ch s)"
  by (simp add: set_channel_def post_def)

lemma set_client_post [post_simps]: "set_client p (emit (out p) c) (post out s) = post out (set_client p c s)"
  by (simp add: set_client_def post_def fun_eq_iff)

lemma set_client_emit: "hp_client s p = Some c \<Longrightarrow> set_client p (emit ms c) s = post (to_one p ms) s"
  by (auto simp: set_client_def post_def to_one_def fun_eq_iff map_option_case split: option.split)

lemma set_client_send [heap_simps]:
  "hp_client s p = Some c \<Longrightarrow> set_client p (sendReply m c) s = post (to_one p [m]) s"
  by (simp add: sendReply_emit set_client_emit)

lemma emit_commute [post_simps]:
  "addJoinedChannels n q (emit ms c) = emit ms (addJoinedChannels n q c)"
  "removeJoinedChannels n (emit ms c) = emit ms (removeJoinedChannels n c)"
  "addInvitedChannel q (emit ms c) = emit ms (addInvitedChannel q c)"
  "removeInvitedChannel q (emit ms c) = emit ms (removeInvitedChannel q c)"
  "setNickname n (emit ms c) = emit ms (setNickname n c)"
  "markClosing now (emit ms c) = emit ms (markClosing now c)"
  "setPingSent b (emit ms c) = emit ms (setPingSent b c)"
  by (simp_all add: emit_def addJoinedChannels_def removeJoinedChannels_def addInvitedChannel_def
      removeInvitedChannel_def setNickname_def markClosing_def setPingSent_def)

lemma to_one_same [simp]: "to_one p ms p = ms" "q \<noteq> p \<Longrightarrow> to_one p ms q = []"
  by (simp_all add: to_one_def)

lemma to_all_simps:
  "to_all [] m = (\<lambda>_. [])" "to_all (p # ps) m = then_out (to_one p [m]) (to_all ps m)"
  by (auto simp: to_all_def then_out_def to_one_def fun_eq_iff)

lemma to_all_distinct: "distinct ps \<Longrightarrow> to_all ps m q = (if q \<in> set ps then [m] else [])"
  by (induction ps) (auto simp: to_all_def)

definition live_clients :: "server \<Rightarrow> cptr set" where
  "live_clients s = {p. hp_client s p \<noteq> None}"

lemma live_clients_post [simp]: "live_clients (post out s) = live_clients s"
  by (auto simp: live_clients_def)

lemma each_send [heap_simps]:
  "set ps \<subseteq> live_clients s \<Longrightarrow>
     each (\<lambda>p. on_client p (sendReply m)) ps s = Some (post (to_all ps m) s)"
proof (induction ps arbitrary: s)
  case Nil
  then show ?case by (simp add: to_all_simps post_simps)
next
  case (Cons p ps)
  then obtain c where c: "hp_client s p = Some c" by (auto simp: live_clients_def)
  have "each (\<lambda>p. on_client p (sendReply m)) ps (post (to_one p [m]) s) =
      Some (post (to_all ps m) (post (to_one p [m]) s))"
    using Cons by simp
  with c show ?case by (simp add: heap_simps to_all_simps post_simps)
qed

section \<open>What the broadcasts send\<close>

lemma notify_members_eq:
  "set ms \<subseteq> live_clients s \<Longrightarrow> \<exists>notified'. fst ` set notified' = fst ` set notified \<union> set ms \<and>
     notify_members m ms notified s =
       Some (notified', post (\<lambda>p. if p \<in> set ms - fst ` set notified then [m] else []) s)"
proof (induction ms arbitrary: notified s)
  case Nil
  then show ?case by (simp add: post_none)
next
  case (Cons p ms)
  then obtain c where c: "hp_client s p = Some c" by (auto simp: live_clients_def)
  let ?n = "omap_put p () notified"
  show ?case
  proof (cases "p \<in> fst ` set notified")
    case True
    have "notify_members m (p # ms) notified s = notify_members m ms ?n s"
      using True by (simp add: oset_insert_def)
    moreover have "(\<lambda>q. if q \<in> set (p # ms) - fst ` set notified then [m] else []) =
        (\<lambda>q. if q \<in> set ms - fst ` set ?n then [m] else [])"
      using True by (auto simp: fun_eq_iff)
    ultimately show ?thesis using Cons.IH [of s ?n] Cons.prems True by auto
  next
    case False
    have "notify_members m (p # ms) notified s = notify_members m ms ?n (post (to_one p [m]) s)"
      using False c by (simp add: oset_insert_def heap_simps)
    moreover have "then_out (to_one p [m]) (\<lambda>q. if q \<in> set ms - fst ` set ?n then [m] else []) =
        (\<lambda>q. if q \<in> set (p # ms) - fst ` set notified then [m] else [])"
      using False by (auto simp: fun_eq_iff then_out_def to_one_def)
    ultimately show ?thesis
      using Cons.IH [of "post (to_one p [m]) s" ?n] Cons.prems by (auto simp: post_post)
  qed
qed

text \<open>The members of the channels in a list of joined channels\<close>

definition members_of :: "server \<Rightarrow> (string, chptr) omap \<Rightarrow> cptr set" where
  "members_of s joined = {p. \<exists>q \<in> snd ` set joined. \<exists>ch. hp_channel s q = Some ch \<and> p \<in> set (ch_members ch)}"

lemma members_of_post [simp]: "members_of (post out s) joined = members_of s joined"
  by (simp add: members_of_def)

lemma members_of_Cons: "hp_channel s (snd e) = Some ch \<Longrightarrow>
   members_of s (e # joined) = set (ch_members ch) \<union> members_of s joined"
  by (auto simp: members_of_def)

lemma notify_channels_eq:
  "\<lbrakk>\<forall>q \<in> snd ` set joined. hp_channel s q \<noteq> None; members_of s joined \<subseteq> live_clients s\<rbrakk> \<Longrightarrow>
     \<exists>notified'. notify_channels m joined notified s =
       Some (notified', post (\<lambda>p. if p \<in> members_of s joined - fst ` set notified then [m] else []) s)"
proof (induction joined arbitrary: notified s)
  case Nil
  then show ?case by (simp add: post_none members_of_def)
next
  case (Cons e joined)
  then obtain ch where ch: "hp_channel s (snd e) = Some ch" by auto
  let ?out = "\<lambda>p. if p \<in> set (ch_members ch) - fst ` set notified then [m] else []"
  obtain n' where n': "fst ` set n' = fst ` set notified \<union> set (ch_members ch)"
    "notify_members m (ch_members ch) notified s = Some (n', post ?out s)"
    using notify_members_eq [of "ch_members ch" s notified m] Cons.prems(2) members_of_Cons [OF ch]
    by auto
  obtain n'' where "notify_channels m joined n' (post ?out s) =
      Some (n'', post (\<lambda>p. if p \<in> members_of s joined - fst ` set n' then [m] else []) (post ?out s))"
    using Cons.IH [of "post ?out s" n'] Cons.prems members_of_Cons [OF ch] by auto
  moreover have "then_out ?out (\<lambda>p. if p \<in> members_of s joined - fst ` set n' then [m] else []) =
      (\<lambda>p. if p \<in> members_of s (e # joined) - fst ` set notified then [m] else [])"
    using n'(1) by (auto simp: fun_eq_iff then_out_def members_of_Cons [OF ch])
  ultimately show ?case using ch n'(2) by (simp add: post_post)
qed

end
