(* ===== verification/Irc_Invariant.thy ===== *)
theory Irc_Invariant
  imports Irc_State
begin

text \<open>
  The invariant of the server state and, for each kind of change the handlers make (a member joins or
  leaves, an invitation, a channel is created or deleted, a client appears or disappears, a change of one
  object's own fields), the lemma that the change keeps it.
\<close>

section \<open>The invariant\<close>

text \<open>The client map and the live clients correspond through the file descriptor.\<close>

definition inv_clients :: "server \<Rightarrow> bool" where [inv_defs]:
  "inv_clients s \<longleftrightarrow> omap_ok (sv_clients s) \<and>
     (\<forall>fd p. map_of (sv_clients s) fd = Some p \<longleftrightarrow> (\<exists>c. hp_client s p = Some c \<and> cl_fd c = fd))"

text \<open>The channel map and the live channels correspond through the case-folded name.\<close>

definition inv_channels :: "server \<Rightarrow> bool" where [inv_defs]:
  "inv_channels s \<longleftrightarrow> omap_ok (sv_channels s) \<and>
     (\<forall>k q. map_of (sv_channels s) k = Some q \<longleftrightarrow> (\<exists>ch. hp_channel s q = Some ch \<and> toLower (ch_name ch) = k))"

text \<open>The lists of a channel have no duplicates; operators are members, invited users are not.\<close>

definition lists_ok :: "channel \<Rightarrow> bool" where
  "lists_ok ch \<longleftrightarrow> distinct (ch_members ch) \<and> distinct (ch_operators ch) \<and> distinct (ch_invitedUsers ch) \<and>
     set (ch_operators ch) \<subseteq> set (ch_members ch) \<and> set (ch_invitedUsers ch) \<inter> set (ch_members ch) = {}"

definition inv_lists :: "server \<Rightarrow> bool" where [inv_defs]:
  "inv_lists s \<longleftrightarrow> (\<forall>q ch. hp_channel s q = Some ch \<longrightarrow> lists_ok ch \<and>
     set (ch_members ch) \<subseteq> live_clients s \<and> set (ch_invitedUsers ch) \<subseteq> live_clients s)"

text \<open>The back pointers of a client are exactly the channels it is a member of, under their names.\<close>

definition in_channel :: "server \<Rightarrow> cptr \<Rightarrow> string \<Rightarrow> chptr \<Rightarrow> bool" where
  "in_channel s p n q \<longleftrightarrow> (\<exists>ch. hp_channel s q = Some ch \<and> ch_name ch = n \<and> p \<in> set (ch_members ch))"

definition inv_joined :: "server \<Rightarrow> bool" where [inv_defs]:
  "inv_joined s \<longleftrightarrow> (\<forall>p c. hp_client s p = Some c \<longrightarrow> omap_ok (cl_joinedChannels c) \<and>
     (\<forall>n q. map_of (cl_joinedChannels c) n = Some q \<longleftrightarrow> in_channel s p n q))"

text \<open>The invitations of a client are exactly the channels that list it as invited.\<close>

definition invited_in :: "server \<Rightarrow> cptr \<Rightarrow> chptr \<Rightarrow> bool" where
  "invited_in s p q \<longleftrightarrow> (\<exists>ch. hp_channel s q = Some ch \<and> p \<in> set (ch_invitedUsers ch))"

definition inv_invited :: "server \<Rightarrow> bool" where [inv_defs]:
  "inv_invited s \<longleftrightarrow> (\<forall>p c. hp_client s p = Some c \<longrightarrow> distinct (cl_invitedChannels c) \<and>
     (\<forall>q. q \<in> set (cl_invitedChannels c) \<longleftrightarrow> invited_in s p q))"

text \<open>Addresses from \<open>hp_next\<close> on have never been used.\<close>

definition inv_alloc :: "server \<Rightarrow> bool" where [inv_defs]:
  "inv_alloc s \<longleftrightarrow> (\<forall>p. hp_client s p \<noteq> None \<longrightarrow> cptr_addr p < hp_next s) \<and>
     (\<forall>q. hp_channel s q \<noteq> None \<longrightarrow> chptr_addr q < hp_next s)"

definition wf :: "server \<Rightarrow> bool" where
  "wf s \<longleftrightarrow> inv_clients s \<and> inv_channels s \<and> inv_lists s \<and> inv_joined s \<and> inv_invited s \<and> inv_alloc s"

lemma wfD:
  assumes "wf s"
  shows "inv_clients s" "inv_channels s" "inv_lists s" "inv_joined s" "inv_invited s" "inv_alloc s"
  using assms by (auto simp: wf_def)

lemma links_post [simp]:
  "in_channel (post out s) = in_channel s" "invited_in (post out s) = invited_in s"
  by (simp_all add: fun_eq_iff in_channel_def invited_in_def)

lemma wf_post [simp]: "wf (post out s) \<longleftrightarrow> wf s"
  by (simp add: wf_def inv_defs) (fastforce simp: map_option_case split: option.splits)

section \<open>Consequences\<close>

lemma channel_key:
  "inv_channels s \<Longrightarrow> map_of (sv_channels s) k = Some q \<longleftrightarrow>
     (\<exists>ch. hp_channel s q = Some ch \<and> toLower (ch_name ch) = k)"
  by (simp add: inv_channels_def)

lemma channel_unique:
  assumes "inv_channels s" "hp_channel s q = Some ch" "hp_channel s q' = Some ch'"
    "toLower (ch_name ch) = toLower (ch_name ch')"
  shows "q = q'"
  using assms unfolding inv_channels_def by (metis option.sel)

lemma client_unique:
  assumes "inv_clients s" "hp_client s p = Some c" "hp_client s p' = Some c'" "cl_fd c = cl_fd c'"
  shows "p = p'"
  using assms unfolding inv_clients_def by (metis option.sel)

lemma member_live:
  "wf s \<Longrightarrow> hp_channel s q = Some ch \<Longrightarrow> set (ch_members ch) \<subseteq> live_clients s"
  unfolding wf_def inv_lists_def by blast

lemma liveE: "p \<in> live_clients s \<Longrightarrow> (\<And>c. hp_client s p = Some c \<Longrightarrow> thesis) \<Longrightarrow> thesis"
  by (auto simp: live_clients_def)

lemma live_clients_set [simp]:
  "live_clients (set_client p c s) = insert p (live_clients s)"
  "live_clients (set_channel q ch s) = live_clients s"
  by (auto simp: live_clients_def)

lemma links_set_client [simp]:
  "in_channel (set_client p c s) = in_channel s" "invited_in (set_client p c s) = invited_in s"
  by (simp_all add: fun_eq_iff in_channel_def invited_in_def)

lemma in_channel_set_channel:
  "in_channel (set_channel q ch s) p n q' \<longleftrightarrow>
     (if q' = q then ch_name ch = n \<and> p \<in> set (ch_members ch) else in_channel s p n q')"
  by (auto simp: in_channel_def)

lemma invited_in_set_channel:
  "invited_in (set_channel q ch s) p q' \<longleftrightarrow>
     (if q' = q then p \<in> set (ch_invitedUsers ch) else invited_in s p q')"
  by (auto simp: invited_in_def)

lemma in_channel_name:
  "inv_channels s \<Longrightarrow> hp_channel s q = Some ch \<Longrightarrow> in_channel s p (ch_name ch) q' \<Longrightarrow> q' = q"
  by (auto simp: in_channel_def dest: channel_unique)

lemma in_channel_iff: "hp_channel s q = Some ch \<Longrightarrow> in_channel s p n q \<longleftrightarrow> ch_name ch = n \<and> p \<in> set (ch_members ch)"
  by (simp add: in_channel_def)

lemma invited_in_iff: "hp_channel s q = Some ch \<Longrightarrow> invited_in s p q \<longleftrightarrow> p \<in> set (ch_invitedUsers ch)"
  by (simp add: invited_in_def)

lemma inv_joinedD:
  assumes "inv_joined s" "hp_client s p = Some c"
  shows "omap_ok (cl_joinedChannels c)" "map_of (cl_joinedChannels c) n = Some q \<longleftrightarrow> in_channel s p n q"
  using assms by (auto simp: inv_joined_def)

lemma inv_invitedD:
  assumes "inv_invited s" "hp_client s p = Some c"
  shows "distinct (cl_invitedChannels c)" "q \<in> set (cl_invitedChannels c) \<longleftrightarrow> invited_in s p q"
  using assms by (auto simp: inv_invited_def)

lemma inv_listsD:
  assumes "inv_lists s" "hp_channel s q = Some ch"
  shows "lists_ok ch" "set (ch_members ch) \<subseteq> live_clients s" "set (ch_invitedUsers ch) \<subseteq> live_clients s"
  using assms by (auto simp: inv_lists_def)

lemma inv_lists_set_client: "inv_lists s \<Longrightarrow> inv_lists (set_client p c s)"
  unfolding inv_lists_def by auto

lemma inv_lists_set_channel:
  "inv_lists s \<Longrightarrow> lists_ok ch \<Longrightarrow> set (ch_members ch) \<subseteq> live_clients s \<Longrightarrow>
     set (ch_invitedUsers ch) \<subseteq> live_clients s \<Longrightarrow> inv_lists (set_channel q ch s)"
  unfolding inv_lists_def by auto

section \<open>A member joins\<close>

definition joined_channel :: "cptr \<Rightarrow> channel \<Rightarrow> channel" where
  "joined_channel p ch = ch\<lparr>ch_invitedUsers := erase_remove p (ch_invitedUsers ch),
     ch_members := ch_members ch @ [p],
     ch_operators := (if ch_members ch = [] \<and> p \<notin> set (ch_operators ch)
                      then ch_operators ch @ [p] else ch_operators ch)\<rparr>"

definition joined_client :: "chptr \<Rightarrow> string \<Rightarrow> client \<Rightarrow> client" where
  "joined_client q n c = c\<lparr>cl_invitedChannels := erase_remove q (cl_invitedChannels c),
     cl_joinedChannels := omap_put n q (cl_joinedChannels c)\<rparr>"

lemma wf_join:
  assumes wf: "wf s" and q: "hp_channel s q = Some ch" and p: "hp_client s p = Some c"
    and out: "p \<notin> set (ch_members ch)"
  shows "wf (set_client p (joined_client q (ch_name ch) c) (set_channel q (joined_channel p ch) s))"
    (is "wf ?t")
proof -
  note i = wfD [OF wf]
  have "inv_clients ?t" "inv_channels ?t" "inv_alloc ?t"
    using i(1,2,6) q p by (auto simp: inv_defs joined_client_def joined_channel_def split: if_splits)
  moreover have "inv_lists ?t"
    using inv_listsD [OF i(3) q] p out
    by (intro inv_lists_set_client inv_lists_set_channel i(3))
      (auto simp: lists_ok_def live_clients_def joined_channel_def)
  moreover have "inv_invited ?t"
    unfolding inv_invited_def
  proof (intro allI impI)
    fix p' c' assume c': "hp_client ?t p' = Some c'"
    have link: "invited_in ?t p' q' \<longleftrightarrow> invited_in s p' q' \<and> (p' \<noteq> p \<or> q' \<noteq> q)" for q'
      using q by (auto simp: invited_in_set_channel invited_in_iff joined_channel_def)
    show "distinct (cl_invitedChannels c') \<and> (\<forall>q'. q' \<in> set (cl_invitedChannels c') \<longleftrightarrow> invited_in ?t p' q')"
      unfolding link using c' inv_invitedD [OF i(5)] p
      by (cases "p' = p") (auto simp: joined_client_def)
  qed
  moreover have "inv_joined ?t"
    unfolding inv_joined_def
  proof (intro allI impI)
    fix p' c' assume c': "hp_client ?t p' = Some c'"
    have link: "in_channel ?t p' n q' \<longleftrightarrow> in_channel s p' n q' \<or> p' = p \<and> n = ch_name ch \<and> q' = q" for n q'
      using q by (auto simp: in_channel_set_channel in_channel_iff joined_channel_def)
    show "omap_ok (cl_joinedChannels c') \<and>
        (\<forall>n q'. map_of (cl_joinedChannels c') n = Some q' \<longleftrightarrow> in_channel ?t p' n q')"
      unfolding link using c' inv_joinedD [OF i(4)] p in_channel_name [OF i(2) q]
      by (cases "p' = p") (auto simp: joined_client_def split: if_splits)
  qed
  ultimately show ?thesis by (simp add: wf_def)
qed

section \<open>A member leaves\<close>

definition left_channel :: "cptr \<Rightarrow> channel \<Rightarrow> channel" where
  "left_channel p ch = ch\<lparr>ch_members := erase_remove p (ch_members ch),
     ch_operators := erase_remove p (ch_operators ch)\<rparr>"

lemma wf_leave:
  assumes wf: "wf s" and q: "hp_channel s q = Some ch" and p: "hp_client s p = Some c"
  shows "wf (set_client p (removeJoinedChannels (ch_name ch) c) (set_channel q (left_channel p ch) s))"
    (is "wf ?t")
proof -
  note i = wfD [OF wf]
  have "inv_clients ?t" "inv_channels ?t" "inv_alloc ?t"
    using i(1,2,6) q p by (auto simp: inv_defs removeJoinedChannels_def left_channel_def split: if_splits)
  moreover have "inv_lists ?t"
    using inv_listsD [OF i(3) q] p
    by (intro inv_lists_set_client inv_lists_set_channel i(3)) (auto simp: lists_ok_def left_channel_def)
  moreover have "inv_invited ?t"
  proof -
    have "invited_in ?t = invited_in s"
      using q by (auto simp: fun_eq_iff invited_in_set_channel invited_in_iff left_channel_def)
    then show ?thesis using i(5) p by (auto simp: inv_invited_def removeJoinedChannels_def)
  qed
  moreover have "inv_joined ?t"
    unfolding inv_joined_def
  proof (intro allI impI)
    fix p' c' assume c': "hp_client ?t p' = Some c'"
    have link: "in_channel ?t p' n q' \<longleftrightarrow> in_channel s p' n q' \<and> (p' \<noteq> p \<or> q' \<noteq> q)" for n q'
      using q by (auto simp: in_channel_set_channel in_channel_iff left_channel_def)
    have key: "in_channel s r n q \<Longrightarrow> n = ch_name ch" "in_channel s r (ch_name ch) q' \<Longrightarrow> q' = q" for r n q'
      using in_channel_name [OF i(2) q] q by (auto simp: in_channel_iff)
    show "omap_ok (cl_joinedChannels c') \<and>
        (\<forall>n q'. map_of (cl_joinedChannels c') n = Some q' \<longleftrightarrow> in_channel ?t p' n q')"
      unfolding link using c' inv_joinedD [OF i(4)] p
      by (cases "p' = p") (auto simp: removeJoinedChannels_def dest: key split: if_splits)
  qed
  ultimately show ?thesis by (simp add: wf_def)
qed

section \<open>An invitation\<close>

lemma wf_invite:
  assumes wf: "wf s" and q: "hp_channel s q = Some ch" and p: "hp_client s p = Some c"
    and new: "p \<notin> set (ch_invitedUsers ch)" and out: "p \<notin> set (ch_members ch)"
  shows "wf (set_client p (addInvitedChannel q c)
      (set_channel q (ch\<lparr>ch_invitedUsers := ch_invitedUsers ch @ [p]\<rparr>) s))" (is "wf ?t")
proof -
  note i = wfD [OF wf]
  have "inv_clients ?t" "inv_channels ?t" "inv_alloc ?t"
    using i(1,2,6) q p by (auto simp: inv_defs addInvitedChannel_def split: if_splits)
  moreover have "inv_lists ?t"
    using inv_listsD [OF i(3) q] p new out
    by (intro inv_lists_set_client inv_lists_set_channel i(3)) (auto simp: lists_ok_def live_clients_def)
  moreover have "inv_joined ?t"
  proof -
    have "in_channel ?t = in_channel s"
      using q by (auto simp: fun_eq_iff in_channel_set_channel in_channel_iff)
    then show ?thesis using i(4) p by (auto simp: inv_joined_def addInvitedChannel_def)
  qed
  moreover have "inv_invited ?t"
    unfolding inv_invited_def
  proof (intro allI impI)
    fix p' c' assume c': "hp_client ?t p' = Some c'"
    have link: "invited_in ?t p' q' \<longleftrightarrow> invited_in s p' q' \<or> p' = p \<and> q' = q" for q'
      using q by (auto simp: invited_in_set_channel invited_in_iff)
    have "\<not> invited_in s p q" using q new by (simp add: invited_in_iff)
    then show "distinct (cl_invitedChannels c') \<and> (\<forall>q'. q' \<in> set (cl_invitedChannels c') \<longleftrightarrow> invited_in ?t p' q')"
      unfolding link using c' inv_invitedD [OF i(5)] p
      by (cases "p' = p") (auto simp: addInvitedChannel_def)
  qed
  ultimately show ?thesis by (simp add: wf_def)
qed

section \<open>Changes of one object\<close>

lemma wf_set_client:
  assumes wf: "wf s" and p: "hp_client s p = Some c"
    and same: "cl_fd c' = cl_fd c" "cl_joinedChannels c' = cl_joinedChannels c"
      "cl_invitedChannels c' = cl_invitedChannels c"
  shows "wf (set_client p c' s)"
proof -
  note i = wfD [OF wf]
  have "inv_clients (set_client p c' s)" "inv_channels (set_client p c' s)" "inv_alloc (set_client p c' s)"
    using i(1,2,6) p same by (auto simp: inv_defs split: if_splits)
  moreover have "inv_joined (set_client p c' s)" "inv_invited (set_client p c' s)"
    using i(4,5) p same by (auto simp: inv_joined_def inv_invited_def)
  ultimately show ?thesis using i(3) by (simp add: wf_def inv_lists_set_client)
qed

lemma wf_set_channel:
  assumes wf: "wf s" and q: "hp_channel s q = Some ch"
    and same: "ch_name ch' = ch_name ch" "ch_members ch' = ch_members ch"
      "ch_invitedUsers ch' = ch_invitedUsers ch"
    and ops: "distinct (ch_operators ch')" "set (ch_operators ch') \<subseteq> set (ch_members ch)"
  shows "wf (set_channel q ch' s)"
proof -
  note i = wfD [OF wf]
  have "inv_clients (set_channel q ch' s)" "inv_channels (set_channel q ch' s)" "inv_alloc (set_channel q ch' s)"
    using i(1,2,6) q same by (auto simp: inv_defs split: if_splits)
  moreover have "in_channel (set_channel q ch' s) = in_channel s" "invited_in (set_channel q ch' s) = invited_in s"
    using q same by (auto simp: fun_eq_iff in_channel_set_channel in_channel_iff
        invited_in_set_channel invited_in_iff)
  moreover have "inv_lists (set_channel q ch' s)"
    using inv_listsD [OF i(3) q] same ops by (intro inv_lists_set_channel i(3)) (auto simp: lists_ok_def)
  ultimately show ?thesis using i(4,5) by (simp add: wf_def inv_joined_def inv_invited_def)
qed

section \<open>Channels come and go\<close>

definition with_new_channel :: "channel \<Rightarrow> server \<Rightarrow> server" where
  "with_new_channel ch s = s\<lparr>hp_channel := (hp_channel s)(ChPtr (hp_next s) \<mapsto> ch),
     hp_next := Suc (hp_next s), sv_channels := omap_put (toLower (ch_name ch)) (ChPtr (hp_next s)) (sv_channels s)\<rparr>"

lemma wf_new_channel:
  assumes wf: "wf s" and new: "map_of (sv_channels s) (toLower n) = None"
  shows "wf (with_new_channel (new_Channel n) s)" (is "wf ?t")
proof -
  note i = wfD [OF wf]
  have fresh: "hp_channel s (ChPtr (hp_next s)) = None"
    using i(6) unfolding inv_alloc_def by (metis chptr.sel less_irrefl)
  then have links: "in_channel ?t = in_channel s" "invited_in ?t = invited_in s" "live_clients ?t = live_clients s"
    by (auto simp: fun_eq_iff in_channel_def invited_in_def live_clients_def with_new_channel_def new_Channel_def)
  have "inv_clients ?t" using i(1) by (simp add: inv_clients_def with_new_channel_def)
  moreover have "inv_channels ?t"
  proof -
    have "toLower (ch_name ch) \<noteq> toLower n" if "hp_channel s q = Some ch" for q ch
      using channel_key [OF i(2), of "toLower n" q] new that by auto
    then show ?thesis
      using i(2) fresh by (auto simp: inv_channels_def with_new_channel_def new_Channel_def split: if_splits)
  qed
  moreover have "inv_lists ?t"
    using i(3) by (simp add: inv_lists_def links) (simp add: with_new_channel_def new_Channel_def lists_ok_def)
  moreover have "inv_joined ?t" "inv_invited ?t"
    using i(4,5) by (simp_all add: inv_joined_def inv_invited_def links) (simp_all add: with_new_channel_def)
  moreover have "inv_alloc ?t"
    using i(6) by (auto simp: inv_alloc_def with_new_channel_def less_Suc_eq)
  ultimately show ?thesis by (simp add: wf_def)
qed

definition without_channel :: "string \<Rightarrow> chptr \<Rightarrow> server \<Rightarrow> server" where
  "without_channel k q s = s\<lparr>hp_channel := (hp_channel s)(q := None), sv_channels := omap_erase k (sv_channels s),
     hp_client := (\<lambda>p. map_option (removeInvitedChannel q) (hp_client s p))\<rparr>"

lemma wf_delete_channel:
  assumes wf: "wf s" and q: "hp_channel s q = Some ch" and empty: "ch_members ch = []"
  shows "wf (without_channel (toLower (ch_name ch)) q s)" (is "wf ?t")
proof -
  note i = wfD [OF wf]
  have live: "live_clients ?t = live_clients s"
    by (auto simp: live_clients_def without_channel_def)
  have link: "in_channel ?t = in_channel s"
    using q empty by (auto simp: fun_eq_iff in_channel_def without_channel_def)
  have invited: "invited_in ?t p q' \<longleftrightarrow> invited_in s p q' \<and> q' \<noteq> q" for p q'
    by (auto simp: invited_in_def without_channel_def)
  have "inv_clients ?t"
    using i(1) by (auto simp: inv_clients_def without_channel_def removeInvitedChannel_def)
  moreover have "inv_channels ?t"
  proof -
    have "toLower (ch_name ch') = toLower (ch_name ch) \<longleftrightarrow> q' = q" if "hp_channel s q' = Some ch'" for q' ch'
      using channel_unique [OF i(2) that q] that q by auto
    then show ?thesis
      using i(2) by (auto simp: inv_channels_def without_channel_def split: if_splits)
  qed
  moreover have "inv_lists ?t"
  proof -
    have "hp_channel ?t q' = Some ch' \<Longrightarrow> hp_channel s q' = Some ch'" for q' ch'
      by (simp add: without_channel_def split: if_splits)
    then show ?thesis unfolding inv_lists_def live using inv_listsD [OF i(3)] by blast
  qed
  moreover have "inv_joined ?t"
    using i(4) by (auto simp: inv_joined_def link) (auto simp: without_channel_def removeInvitedChannel_def)
  moreover have "inv_invited ?t"
    using i(5) by (auto simp: inv_invited_def invited) (auto simp: without_channel_def removeInvitedChannel_def)
  moreover have "inv_alloc ?t"
    using i(6) by (auto simp: inv_alloc_def without_channel_def)
  ultimately show ?thesis by (simp add: wf_def)
qed

section \<open>Clients come and go\<close>

definition with_new_client :: "client \<Rightarrow> server \<Rightarrow> server" where
  "with_new_client c s = s\<lparr>hp_client := (hp_client s)(CPtr (hp_next s) \<mapsto> c), hp_next := Suc (hp_next s),
     sv_clients := omap_put (cl_fd c) (CPtr (hp_next s)) (sv_clients s),
     sv_poll_fds := sv_poll_fds s @ [\<lparr>pf_fd = cl_fd c, pf_events = {POLLIN}\<rparr>]\<rparr>"

lemma wf_new_client:
  assumes wf: "wf s" and new: "cl_fd c \<notin> fst ` set (sv_clients s)"
    and fresh: "cl_joinedChannels c = []" "cl_invitedChannels c = []"
  shows "wf (with_new_client c s)" (is "wf ?t")
proof -
  note i = wfD [OF wf]
  let ?p = "CPtr (hp_next s)"
  have none: "hp_client s ?p = None"
    using i(6) unfolding inv_alloc_def by (metis cptr.sel less_irrefl)
  have links: "in_channel ?t = in_channel s" "invited_in ?t = invited_in s"
    by (auto simp: fun_eq_iff in_channel_def invited_in_def with_new_client_def)
  have out: "?p \<notin> set (ch_members ch)" "?p \<notin> set (ch_invitedUsers ch)" if "hp_channel s q = Some ch" for q ch
    using inv_listsD(2,3) [OF i(3) that] none by (auto simp: live_clients_def)
  have "inv_clients ?t"
  proof -
    have "cl_fd d \<noteq> cl_fd c" if "hp_client s p = Some d" for p d
    proof -
      have "map_of (sv_clients s) (cl_fd d) = Some p" using i(1) that by (auto simp: inv_clients_def)
      then show ?thesis using new by (metis domI dom_map_of_conv_image_fst)
    qed
    then show ?thesis
      using i(1) none by (auto simp: inv_clients_def with_new_client_def split: if_splits)
  qed
  moreover have "inv_channels ?t" using i(2) by (simp add: inv_channels_def with_new_client_def)
  moreover have "inv_lists ?t"
  proof -
    have "live_clients s \<subseteq> live_clients ?t" by (auto simp: live_clients_def with_new_client_def)
    then show ?thesis using inv_listsD [OF i(3)] by (fastforce simp: inv_lists_def with_new_client_def)
  qed
  moreover have "inv_joined ?t"
    using i(4) fresh out unfolding inv_joined_def links
    by (auto simp: with_new_client_def in_channel_def)
  moreover have "inv_invited ?t"
    using i(5) fresh out unfolding inv_invited_def links
    by (auto simp: with_new_client_def invited_in_def)
  moreover have "inv_alloc ?t"
    using i(6) by (auto simp: inv_alloc_def with_new_client_def less_Suc_eq)
  ultimately show ?thesis by (simp add: wf_def)
qed

definition without_client :: "cptr \<Rightarrow> int \<Rightarrow> server \<Rightarrow> server" where
  "without_client p fd s = s\<lparr>hp_client := (hp_client s)(p := None), sv_clients := omap_erase fd (sv_clients s),
     hp_channel := (\<lambda>q. map_option (removeMemberfromInvitedUsers p) (hp_channel s q))\<rparr>"

lemma wf_delete_client:
  assumes wf: "wf s" and p: "hp_client s p = Some c"
    and out: "\<And>q ch. hp_channel s q = Some ch \<Longrightarrow> p \<notin> set (ch_members ch)"
  shows "wf (without_client p (cl_fd c) s)" (is "wf ?t")
proof -
  note i = wfD [OF wf]
  have link: "in_channel ?t = in_channel s"
    by (auto simp: fun_eq_iff in_channel_def without_client_def removeMemberfromInvitedUsers_def)
  have invited: "invited_in ?t p' q \<longleftrightarrow> invited_in s p' q \<and> p' \<noteq> p" for p' q
    by (auto simp: invited_in_def without_client_def removeMemberfromInvitedUsers_def)
  have live: "live_clients ?t = live_clients s - {p}"
    by (auto simp: live_clients_def without_client_def)
  have "inv_clients ?t"
  proof -
    have "cl_fd d = cl_fd c \<longleftrightarrow> p' = p" if "hp_client s p' = Some d" for p' d
      using client_unique [OF i(1) that p] that p by auto
    then show ?thesis
      using i(1) by (auto simp: inv_clients_def without_client_def split: if_splits)
  qed
  moreover have "inv_channels ?t"
    using i(2) by (auto simp: inv_channels_def without_client_def removeMemberfromInvitedUsers_def)
  moreover have "inv_lists ?t"
    unfolding inv_lists_def live
  proof (intro allI impI)
    fix q ch' assume "hp_channel ?t q = Some ch'"
    then obtain ch where q: "hp_channel s q = Some ch" and ch': "ch' = removeMemberfromInvitedUsers p ch"
      by (auto simp: without_client_def)
    show "lists_ok ch' \<and> set (ch_members ch') \<subseteq> live_clients s - {p} \<and> set (ch_invitedUsers ch') \<subseteq> live_clients s - {p}"
      using inv_listsD [OF i(3) q] out [OF q] by (auto simp: ch' lists_ok_def removeMemberfromInvitedUsers_def)
  qed
  moreover have "inv_joined ?t"
    using i(4) by (auto simp: inv_joined_def link) (auto simp: without_client_def split: if_splits)
  moreover have "inv_invited ?t"
    using i(5) by (auto simp: inv_invited_def invited) (auto simp: without_client_def split: if_splits)
  moreover have "inv_alloc ?t"
    using i(6) by (auto simp: inv_alloc_def without_client_def)
  ultimately show ?thesis by (simp add: wf_def)
qed

section \<open>Values, nicknames, registration, scheduling\<close>

text \<open>What the syntax checks of the commands guarantee about one client and one channel.\<close>

definition ok_client :: "client \<Rightarrow> bool" where
  "ok_client c \<longleftrightarrow> (cl_nickname c = [] \<or> isValidNickname (cl_nickname c)) \<and>
     (cl_is_registered c \<longrightarrow> cl_is_password_verified c \<and> cl_nickname c \<noteq> [] \<and> cl_username c \<noteq> [])"

definition ok_channel :: "channel \<Rightarrow> bool" where
  "ok_channel ch \<longleftrightarrow> isValidChannelName (ch_name ch) \<and> length (ch_topic ch) \<le> 300 \<and>
     (ch_key ch = [] \<or> isValidKey (ch_key ch)) \<and> 0 \<le> ch_userLimit ch \<and> ch_userLimit ch < 10 ^ 9"

definition inv_values :: "server \<Rightarrow> bool" where [inv_defs]:
  "inv_values s \<longleftrightarrow> (\<forall>p c. hp_client s p = Some c \<longrightarrow> ok_client c) \<and> (\<forall>q ch. hp_channel s q = Some ch \<longrightarrow> ok_channel ch)"

text \<open>Nicknames are unique up to case.\<close>

definition inv_nicks :: "server \<Rightarrow> bool" where [inv_defs]:
  "inv_nicks s \<longleftrightarrow> (\<forall>p c p' c'. hp_client s p = Some c \<and> hp_client s p' = Some c' \<and> cl_nickname c \<noteq> [] \<and>
     toLower (cl_nickname c) = toLower (cl_nickname c') \<longrightarrow> p = p')"

text \<open>Only registered clients are members of channels.\<close>

definition inv_registered :: "server \<Rightarrow> bool" where [inv_defs]:
  "inv_registered s \<longleftrightarrow> (\<forall>q ch p c. hp_channel s q = Some ch \<and> p \<in> set (ch_members ch) \<and> hp_client s p = Some c \<longrightarrow>
     cl_is_registered c)"

text \<open>Only connected clients are scheduled for closing or removal.\<close>

definition inv_sched :: "server \<Rightarrow> bool" where [inv_defs]:
  "inv_sched s \<longleftrightarrow> omap_ok (sv_to_disconnected s) \<and> omap_ok (sv_closing s) \<and>
     fst ` set (sv_to_disconnected s) \<subseteq> fst ` set (sv_clients s) \<and> fst ` set (sv_closing s) \<subseteq> fst ` set (sv_clients s)"

text \<open>The poll set is the listening socket, first, and the sockets of the clients.\<close>

definition inv_poll :: "server \<Rightarrow> bool" where [inv_defs]:
  "inv_poll s \<longleftrightarrow> sv_poll_fds s \<noteq> [] \<and> pf_fd (hd (sv_poll_fds s)) = sv_server_fd s \<and>
     distinct (map pf_fd (sv_poll_fds s)) \<and> pf_fd ` set (tl (sv_poll_fds s)) = fst ` set (sv_clients s)"

definition vals :: "server \<Rightarrow> bool" where
  "vals s \<longleftrightarrow> inv_values s \<and> inv_nicks s \<and> inv_registered s \<and> inv_sched s \<and> inv_poll s"

definition good :: "server \<Rightarrow> bool" where
  "good s \<longleftrightarrow> wf s \<and> vals s"

text \<open>Every channel has a member, except possibly those in \<open>Q\<close>.\<close>

definition populated_but :: "chptr set \<Rightarrow> server \<Rightarrow> bool" where
  "populated_but Q s \<longleftrightarrow> (\<forall>q ch. hp_channel s q = Some ch \<and> q \<notin> Q \<longrightarrow> ch_members ch \<noteq> [])"

abbreviation populated :: "server \<Rightarrow> bool" where
  "populated s \<equiv> populated_but {} s"

lemma vals_post [simp]: "vals (post out s) \<longleftrightarrow> vals s"
proof -
  have "inv_values (post out s) \<longleftrightarrow> inv_values s"
    by (auto simp: inv_values_def ok_client_def map_option_case split: option.splits)
  moreover have "inv_nicks (post out s) \<longleftrightarrow> inv_nicks s"
    by (simp add: inv_nicks_def) (fastforce simp: map_option_case split: option.splits)
  moreover have "inv_registered (post out s) \<longleftrightarrow> inv_registered s"
    by (simp add: inv_registered_def) (fastforce simp: map_option_case split: option.splits)
  ultimately show ?thesis by (simp add: vals_def inv_sched_def inv_poll_def)
qed

lemma good_post [simp]: "good (post out s) \<longleftrightarrow> good s"
  by (simp add: good_def)

lemma populated_post [simp]: "populated_but Q (post out s) \<longleftrightarrow> populated_but Q s"
  by (simp add: populated_but_def)

lemma goodD:
  assumes "good s"
  shows "wf s" "vals s" "inv_values s" "inv_nicks s" "inv_registered s" "inv_sched s" "inv_poll s"
  using assms by (auto simp: good_def vals_def)

text \<open>Changing the state of one client\<close>

lemma vals_set_client:
  assumes v: "vals s" and p: "hp_client s p = Some c"
    and ok: "ok_client c'" and reg: "cl_is_registered c \<Longrightarrow> cl_is_registered c'"
    and nick: "\<And>p' d. p' \<noteq> p \<Longrightarrow> hp_client s p' = Some d \<Longrightarrow> cl_nickname c' \<noteq> [] \<Longrightarrow>
      toLower (cl_nickname d) \<noteq> toLower (cl_nickname c')"
  shows "vals (set_client p c' s)"
proof -
  have "inv_values (set_client p c' s)" using v ok by (auto simp: vals_def inv_values_def)
  moreover have "inv_nicks (set_client p c' s)"
    unfolding inv_nicks_def
  proof (intro allI impI; elim conjE)
    fix p1 c1 p2 c2
    assume a: "hp_client (set_client p c' s) p1 = Some c1" "hp_client (set_client p c' s) p2 = Some c2"
      "cl_nickname c1 \<noteq> []" "toLower (cl_nickname c1) = toLower (cl_nickname c2)"
    have ne: "cl_nickname c2 \<noteq> []" using a(3,4) by (metis toLower_Nil_iff(1))
    show "p1 = p2"
    proof (cases "p1 = p \<or> p2 = p")
      case True
      then show ?thesis using a ne nick by (auto split: if_splits)
    next
      case False
      then show ?thesis using v a unfolding vals_def inv_nicks_def by auto
    qed
  qed
  moreover have "inv_registered (set_client p c' s)"
    using v p reg unfolding vals_def inv_registered_def by auto
  ultimately show ?thesis using v by (simp add: vals_def inv_sched_def inv_poll_def)
qed

lemma vals_set_client_links:
  assumes v: "vals s" and p: "hp_client s p = Some c"
    and same: "cl_nickname c' = cl_nickname c" "cl_username c' = cl_username c"
      "cl_is_registered c' = cl_is_registered c" "cl_is_password_verified c' = cl_is_password_verified c"
  shows "vals (set_client p c' s)"
proof (rule vals_set_client [OF v p])
  show "ok_client c'" using v p same by (auto simp: vals_def inv_values_def ok_client_def)
  show "toLower (cl_nickname d) \<noteq> toLower (cl_nickname c')"
    if "p' \<noteq> p" "hp_client s p' = Some d" "cl_nickname c' \<noteq> []" for p' d
    using v p that same unfolding vals_def inv_nicks_def by metis
qed (use same in simp)

lemma vals_set_channel:
  assumes v: "vals s" and ok: "ok_channel ch'"
    and mem: "\<And>p c. p \<in> set (ch_members ch') \<Longrightarrow> hp_client s p = Some c \<Longrightarrow> cl_is_registered c"
  shows "vals (set_channel q ch' s)"
  using v ok mem unfolding vals_def inv_values_def inv_nicks_def inv_registered_def inv_sched_def inv_poll_def
  by (auto split: if_splits)

text \<open>Removing clients, channels and members keeps the values.\<close>

lemma inv_nicksD:
  "inv_nicks s \<Longrightarrow> hp_client s p = Some c \<Longrightarrow> hp_client s p' = Some c' \<Longrightarrow> cl_nickname c \<noteq> [] \<Longrightarrow>
     toLower (cl_nickname c) = toLower (cl_nickname c') \<Longrightarrow> p = p'"
  unfolding inv_nicks_def by blast

lemma vals_shrink:
  assumes v: "vals s"
    and clients: "\<And>p c'. hp_client t p = Some c' \<Longrightarrow> \<exists>c. hp_client s p = Some c \<and> cl_nickname c' = cl_nickname c \<and>
      cl_username c' = cl_username c \<and> cl_is_registered c' = cl_is_registered c \<and>
      cl_is_password_verified c' = cl_is_password_verified c"
    and channels: "\<And>q ch'. hp_channel t q = Some ch' \<Longrightarrow> ok_channel ch' \<and>
      (\<exists>ch. hp_channel s q = Some ch \<and> set (ch_members ch') \<subseteq> set (ch_members ch))"
    and "inv_sched t" "inv_poll t"
  shows "vals t"
proof -
  have "inv_values t"
    unfolding inv_values_def
  proof (intro conjI allI impI)
    fix p c' assume "hp_client t p = Some c'"
    from clients [OF this] obtain c where "hp_client s p = Some c" "ok_client c' = ok_client c"
      by (auto simp: ok_client_def)
    with v show "ok_client c'" by (auto simp: vals_def inv_values_def)
  qed (use channels in blast)
  moreover have "inv_nicks t"
    unfolding inv_nicks_def
  proof (intro allI impI; elim conjE)
    fix p1 c1 p2 c2
    assume a: "hp_client t p1 = Some c1" "hp_client t p2 = Some c2" "cl_nickname c1 \<noteq> []"
      "toLower (cl_nickname c1) = toLower (cl_nickname c2)"
    obtain d1 d2 where "hp_client s p1 = Some d1" "cl_nickname d1 = cl_nickname c1"
      "hp_client s p2 = Some d2" "cl_nickname d2 = cl_nickname c2"
      using clients [OF a(1)] clients [OF a(2)] by auto
    then show "p1 = p2" using inv_nicksD [of s p1 d1 p2 d2] v a(3,4) by (simp add: vals_def)
  qed
  moreover have "inv_registered t"
    unfolding inv_registered_def
  proof (intro allI impI; elim conjE)
    fix q ch' p c' assume a: "hp_channel t q = Some ch'" "p \<in> set (ch_members ch')" "hp_client t p = Some c'"
    obtain c ch where "hp_client s p = Some c" "cl_is_registered c' = cl_is_registered c"
      "hp_channel s q = Some ch" "p \<in> set (ch_members ch)"
      using clients [OF a(3)] channels [OF a(1)] a(2) by auto
    then show "cl_is_registered c'" using v unfolding vals_def inv_registered_def by auto
  qed
  ultimately show ?thesis using assms(4,5) by (simp add: vals_def)
qed

lemma inv_sched_poll_cong:
  assumes "sv_to_disconnected t = sv_to_disconnected s" "sv_closing t = sv_closing s"
    "sv_clients t = sv_clients s" "sv_poll_fds t = sv_poll_fds s" "sv_server_fd t = sv_server_fd s"
  shows "inv_sched t \<longleftrightarrow> inv_sched s" "inv_poll t \<longleftrightarrow> inv_poll s"
  using assms by (auto simp: inv_sched_def inv_poll_def)

lemma good_new_channel:
  assumes g: "good s" and new: "map_of (sv_channels s) (toLower n) = None" and valid: "isValidChannelName n"
  shows "good (with_new_channel (new_Channel n) s)"
proof -
  have "ok_channel (new_Channel n)" "ch_members (new_Channel n) = []"
    using valid by (simp_all add: ok_channel_def new_Channel_def)
  then have "vals (set_channel (ChPtr (hp_next s)) (new_Channel n) s)"
    by (intro vals_set_channel [OF goodD(2) [OF g]]) simp_all
  moreover have "vals (with_new_channel (new_Channel n) s) \<longleftrightarrow> vals (set_channel (ChPtr (hp_next s)) (new_Channel n) s)"
    by (simp add: vals_def inv_defs with_new_channel_def set_channel_def)
  ultimately have "vals (with_new_channel (new_Channel n) s)" by blast
  with wf_new_channel [OF goodD(1) [OF g] new] show ?thesis by (simp add: good_def)
qed

lemma good_delete_channel:
  assumes g: "good s" and q: "hp_channel s q = Some ch" and empty: "ch_members ch = []"
  shows "good (without_channel (toLower (ch_name ch)) q s)"
proof -
  have "vals (without_channel (toLower (ch_name ch)) q s)"
    using goodD [OF g]
    by (intro vals_shrink [OF goodD(2) [OF g]])
      (auto simp: without_channel_def removeInvitedChannel_def inv_values_def inv_sched_def inv_poll_def split: if_splits)
  with wf_delete_channel [OF goodD(1) [OF g] q empty] show ?thesis by (simp add: good_def)
qed

text \<open>The scheduling tables and the poll set are independent of the heap.\<close>

lemma wf_cong:
  assumes "hp_client t = hp_client s" "hp_channel t = hp_channel s" "hp_next t = hp_next s"
    "sv_clients t = sv_clients s" "sv_channels t = sv_channels s"
  shows "wf t \<longleftrightarrow> wf s"
proof -
  have "in_channel t = in_channel s" "invited_in t = invited_in s" "live_clients t = live_clients s"
    using assms by (auto simp: fun_eq_iff in_channel_def invited_in_def live_clients_def)
  then show ?thesis using assms by (simp add: wf_def inv_defs)
qed

lemma good_reschedule:
  assumes g: "good s"
    and same: "hp_client t = hp_client s" "hp_channel t = hp_channel s" "hp_next t = hp_next s"
      "sv_clients t = sv_clients s" "sv_channels t = sv_channels s"
    and new: "inv_sched t" "inv_poll t"
  shows "good t"
  using goodD [OF g] wf_cong [OF same] new same
  by (simp add: good_def vals_def inv_values_def inv_nicks_def inv_registered_def)

end
