(* ===== verification/Irc_Channel.thy ===== *)
theory Irc_Channel
  imports Irc_Invariant
begin

text \<open>
  The handlers of \<open>channel/Channel.cpp\<close>, over the heap. For each of them: it does not fault on a well-formed
  state, what it sends to whom on every branch, and what it changes.
\<close>

section \<open>Membership and sending\<close>

definition addMember :: "chptr \<Rightarrow> cptr \<Rightarrow> server \<Rightarrow> server option" where
  "addMember this client s = do {
     ch \<leftarrow> hp_channel s this;
     if \<not> isMember ch client then do {
       s \<leftarrow> on_channel this (\<lambda>ch. ch\<lparr>ch_members := ch_members ch @ [client]\<rparr>) s;
       on_client client (addJoinedChannels (ch_name ch) this) s }
     else Some s }"

definition removeMember :: "chptr \<Rightarrow> cptr \<Rightarrow> server \<Rightarrow> server option" where
  "removeMember this client s = do {
     s \<leftarrow> on_channel this (\<lambda>ch. ch\<lparr>ch_members := erase_remove client (ch_members ch)\<rparr>) s;
     s \<leftarrow> on_channel this (removeOperator client) s;
     ch \<leftarrow> hp_channel s this;
     on_client client (removeJoinedChannels (ch_name ch)) s }"

definition sendToOne :: "cptr \<Rightarrow> string \<Rightarrow> server \<Rightarrow> server option" where
  "sendToOne targetUser message s = on_client targetUser (sendReply message) s"

definition sendToAll :: "chptr \<Rightarrow> string \<Rightarrow> server \<Rightarrow> server option" where
  "sendToAll this message s = do {
     ch \<leftarrow> hp_channel s this;
     each (\<lambda>p. on_client p (sendReply message)) (ch_members ch) s }"

definition sendToAllExcept :: "chptr \<Rightarrow> cptr \<Rightarrow> string \<Rightarrow> server \<Rightarrow> server option" where
  "sendToAllExcept this except message s = do {
     ch \<leftarrow> hp_channel s this;
     each (\<lambda>p s. if p \<noteq> except then on_client p (sendReply message) s else Some s) (ch_members ch) s }"

section \<open>JOIN\<close>

text \<open>The loop that packs the member list into \<open>RPL_NAMREPLY\<close> lines.\<close>

fun names_loop :: "channel \<Rightarrow> cptr \<Rightarrow> string \<Rightarrow> nat \<Rightarrow> cptr list \<Rightarrow> string \<Rightarrow> server \<Rightarrow> (string \<times> server) option" where
  "names_loop ch user prefix limit [] users s = Some (users, s)"
| "names_loop ch user prefix limit (p # members) users s = do {
     m \<leftarrow> hp_client s p;
     let entry = (if isOperator ch p then ''@'' else []) @ cl_nickname m;
     (users, s) \<leftarrow> (if users \<noteq> [] \<and> length users + 1 + length entry > limit
                    then do { s \<leftarrow> sendToOne user (prefix @ users) s; Some ([], s) }
                    else Some (users, s));
     let users = (if users \<noteq> [] then users @ '' '' else users);
     names_loop ch user prefix limit members (users @ entry) s }"

definition handleJoin :: "chptr \<Rightarrow> cptr \<Rightarrow> string \<Rightarrow> server \<Rightarrow> server option" where
  "handleJoin this user key s = do {
     ch \<leftarrow> hp_channel s this;
     u \<leftarrow> hp_client s user;
     if isMember ch user then Some s
     else if ch_key ch \<noteq> [] \<and> \<not> checkKey ch key then
       sendToOne user (makeReply ERR_BADCHANNELKEY (cl_nickname u) (ch_name ch @ '' :Cannot join channel (+k)'')) s
     else if ch_inviteOnly ch \<and> \<not> isInvited ch user then
       sendToOne user (makeReply ERR_INVITEONLYCHAN (cl_nickname u) (ch_name ch @ '' :Cannot join channel (+i)'')) s
     else if isFull ch then
       sendToOne user (makeReply ERR_CHANNELISFULL (cl_nickname u) (ch_name ch @ '' :Cannot join channel (+l)'')) s
     else do {
       s \<leftarrow> on_channel this (removeMemberfromInvitedUsers user) s;
       s \<leftarrow> on_client user (removeInvitedChannel this) s;
       let isFirst = (ch_members ch = []);
       s \<leftarrow> addMember this user s;
       s \<leftarrow> (if isFirst then on_channel this (addOperator user) s else Some s);
       s \<leftarrow> sendToAll this (makeCommand u ''JOIN'' (ch_name ch)) s;
       s \<leftarrow> (if length (ch_topic ch) = 0
             then sendToOne user (makeReply RPL_NOTOPIC (cl_nickname u) (ch_name ch @ '' :No topic is set'')) s
             else sendToOne user (makeReply RPL_TOPIC (cl_nickname u) (ch_name ch @ '' :'' @ ch_topic ch)) s);
       let prefix = makeReply RPL_NAMREPLY (cl_nickname u) (''= '' @ ch_name ch @ '' :'');
       let limit = size_sub 510 (length prefix);
       ch \<leftarrow> hp_channel s this;
       (users, s) \<leftarrow> names_loop ch user prefix limit (ch_members ch) [] s;
       s \<leftarrow> (if users \<noteq> [] then sendToOne user (prefix @ users) s else Some s);
       sendToOne user (makeReply RPL_ENDOFNAMES (cl_nickname u) (ch_name ch @ '' :End of /NAMES list'')) s } }"

section \<open>PART, KICK, TOPIC, INVITE\<close>

definition handlePart :: "chptr \<Rightarrow> cptr \<Rightarrow> string \<Rightarrow> server \<Rightarrow> server option" where
  "handlePart this user message s = do {
     ch \<leftarrow> hp_channel s this;
     u \<leftarrow> hp_client s user;
     if \<not> isMember ch user then
       sendToOne user (makeReply ERR_NOTONCHANNEL (cl_nickname u) (ch_name ch @ '' :You're not on that channel'')) s
     else do {
       let reason = (if length message > 0 then message else cl_nickname u);
       s \<leftarrow> sendToAll this (makeCommand u ''PART'' (ch_name ch @ '' :'' @ reason)) s;
       removeMember this user s } }"

definition handleKick :: "chptr \<Rightarrow> cptr \<Rightarrow> cptr \<Rightarrow> string \<Rightarrow> server \<Rightarrow> server option" where
  "handleKick this kickingUser kickedUser comment s = do {
     ch \<leftarrow> hp_channel s this;
     u \<leftarrow> hp_client s kickingUser;
     k \<leftarrow> hp_client s kickedUser;
     if \<not> isMember ch kickingUser then
       sendToOne kickingUser (makeReply ERR_NOTONCHANNEL (cl_nickname u) (ch_name ch @ '' :You're not on that channel'')) s
     else if \<not> isOperator ch kickingUser then
       sendToOne kickingUser (makeReply ERR_CHANOPRIVSNEEDED (cl_nickname u) (ch_name ch @ '' :You're not channel operator'')) s
     else if \<not> isMember ch kickedUser then
       sendToOne kickingUser (makeReply ERR_USERNOTINCHANNEL (cl_nickname u)
         (cl_nickname k @ '' '' @ ch_name ch @ '' :They aren't on that channel'')) s
     else do {
       let reason = (if comment \<noteq> [] then comment else cl_nickname u);
       s \<leftarrow> sendToAll this (makeCommand u ''KICK'' (ch_name ch @ '' '' @ cl_nickname k) @ '' :'' @ reason) s;
       removeMember this kickedUser s } }"

definition handleTopic :: "chptr \<Rightarrow> cptr \<Rightarrow> string \<Rightarrow> bool \<Rightarrow> server \<Rightarrow> server option" where
  "handleTopic this user topic hasTopicParam s = do {
     ch \<leftarrow> hp_channel s this;
     u \<leftarrow> hp_client s user;
     if \<not> isMember ch user then
       sendToOne user (makeReply ERR_NOTONCHANNEL (cl_nickname u) (ch_name ch @ '' :You're not on that channel'')) s
     else if \<not> hasTopicParam then
       (if ch_topic ch = []
        then sendToOne user (makeReply RPL_NOTOPIC (cl_nickname u) (ch_name ch @ '' :No topic is set'')) s
        else sendToOne user (makeReply RPL_TOPIC (cl_nickname u) (ch_name ch @ '' :'' @ ch_topic ch)) s)
     else if ch_topicByOpOnly ch \<and> \<not> isOperator ch user then
       sendToOne user (makeReply ERR_CHANOPRIVSNEEDED (cl_nickname u) (ch_name ch @ '' :You're not channel operator'')) s
     else do {
       s \<leftarrow> on_channel this (\<lambda>ch. ch\<lparr>ch_topic := truncateUtf8 topic 300\<rparr>) s;
       ch \<leftarrow> hp_channel s this;
       sendToAll this (makeCommand u ''TOPIC'' (ch_name ch @ '' :'' @ ch_topic ch)) s } }"

definition handleInvite :: "chptr \<Rightarrow> cptr \<Rightarrow> cptr \<Rightarrow> server \<Rightarrow> server option" where
  "handleInvite this invitingUser invitedUser s = do {
     ch \<leftarrow> hp_channel s this;
     u \<leftarrow> hp_client s invitingUser;
     v \<leftarrow> hp_client s invitedUser;
     if \<not> isMember ch invitingUser then
       sendToOne invitingUser (makeReply ERR_NOTONCHANNEL (cl_nickname u) (ch_name ch @ '' :You're not on that channel'')) s
     else if ch_inviteOnly ch \<and> \<not> isOperator ch invitingUser then
       sendToOne invitingUser (makeReply ERR_CHANOPRIVSNEEDED (cl_nickname u) (ch_name ch @ '' :You're not channel operator'')) s
     else if isInvited ch invitedUser then Some s
     else if isMember ch invitedUser then
       sendToOne invitingUser (makeReply ERR_USERONCHANNEL (cl_nickname u)
         (cl_nickname v @ '' '' @ ch_name ch @ '' :is already on channel'')) s
     else do {
       s \<leftarrow> on_channel this (\<lambda>ch. ch\<lparr>ch_invitedUsers := ch_invitedUsers ch @ [invitedUser]\<rparr>) s;
       s \<leftarrow> on_client invitedUser (addInvitedChannel this) s;
       s \<leftarrow> sendToOne invitingUser (makeReply RPL_INVITING (cl_nickname u) (ch_name ch @ '' '' @ cl_nickname v)) s;
       sendToOne invitedUser (makeCommand u ''INVITE'' (cl_nickname v @ '' '' @ ch_name ch)) s } }"

definition removeQuitUser :: "chptr \<Rightarrow> cptr \<Rightarrow> server \<Rightarrow> server option" where
  "removeQuitUser this user s = do {
     ch \<leftarrow> hp_channel s this;
     if isMember ch user then removeMember this user s else Some s }"

section \<open>MODE\<close>

text \<open>The local variables of the loop of \<open>handleMode\<close>\<close>

record mode_loop =
  ml_enable :: bool
  ml_paramIndex :: nat
  ml_applied :: string
  ml_appliedArgs :: string
  ml_lastSign :: char

definition mode_loop0 :: mode_loop where
  "mode_loop0 = \<lparr>ml_enable = True, ml_paramIndex = 0, ml_applied = [], ml_appliedArgs = [], ml_lastSign = NUL\<rparr>"

definition ml_append :: "bool \<Rightarrow> char \<Rightarrow> mode_loop \<Rightarrow> mode_loop" where
  "ml_append enable flag l =
     (let (applied, lastSign) = appendApplied (ml_applied l) (ml_lastSign l) enable flag
      in l\<lparr>ml_applied := applied, ml_lastSign := lastSign\<rparr>)"

text \<open>One iteration\<close>

definition mode_step :: "chptr \<Rightarrow> cptr \<Rightarrow> string list \<Rightarrow> char \<Rightarrow> mode_loop \<times> server \<Rightarrow> (mode_loop \<times> server) option" where
  "mode_step this user modeParams mode st = (case st of (l, s) \<Rightarrow>
     if mode = CHR ''+'' then Some (l\<lparr>ml_enable := True\<rparr>, s)
     else if mode = CHR ''-'' then Some (l\<lparr>ml_enable := False\<rparr>, s)
     else do {
       ch \<leftarrow> hp_channel s this;
       u \<leftarrow> hp_client s user;
       let enable = ml_enable l;
       if mode = CHR ''i'' then
         (if ch_inviteOnly ch \<noteq> enable then do {
            s \<leftarrow> on_channel this (setModeInviteOnly enable) s;
            Some (ml_append enable (CHR ''i'') l, s) }
          else Some (l, s))
       else if mode = CHR ''t'' then
         (if ch_topicByOpOnly ch \<noteq> enable then do {
            s \<leftarrow> on_channel this (setModeTopicRestriction enable) s;
            Some (ml_append enable (CHR ''t'') l, s) }
          else Some (l, s))
       else if mode = CHR ''k'' then
         (if enable then
            (if ml_paramIndex l \<ge> length modeParams then Some (l, s)
             else do {
               let newKey = modeParams ! ml_paramIndex l;
               let l = l\<lparr>ml_paramIndex := ml_paramIndex l + 1\<rparr>;
               if \<not> isValidKey newKey then do {
                 s \<leftarrow> sendToOne user (makeReply ERR_INVALIDKEY (cl_nickname u) (ch_name ch @ '' :Key is not well-formed'')) s;
                 Some (l, s) }
               else if ch_key ch \<noteq> [] then do {
                 s \<leftarrow> sendToOne user (makeReply ERR_KEYSET (cl_nickname u) (ch_name ch @ '' :Channel key already set'')) s;
                 Some (l, s) }
               else do {
                 s \<leftarrow> on_channel this (setModeKey True newKey) s;
                 Some ((ml_append True (CHR ''k'') l)\<lparr>ml_appliedArgs := ml_appliedArgs l @ '' '' @ newKey\<rparr>, s) } })
          else
            (if ch_key ch \<noteq> [] then do {
               s \<leftarrow> on_channel this (setModeKey False []) s;
               Some (ml_append False (CHR ''k'') l, s) }
             else Some (l, s)))
       else if mode = CHR ''l'' then
         (if enable then
            (if ml_paramIndex l \<ge> length modeParams then Some (l, s)
             else do {
               let raw = modeParams ! ml_paramIndex l;
               let l = l\<lparr>ml_paramIndex := ml_paramIndex l + 1\<rparr>;
               (case parseLimit raw of
                  None \<Rightarrow> do {
                    s \<leftarrow> sendToOne user (makeReply ERR_INVALIDMODEPARAM (cl_nickname u)
                          (ch_name ch @ '' l '' @ raw @ '' :Invalid limit value'')) s;
                    Some (l, s) }
                | Some limit \<Rightarrow> do {
                    s \<leftarrow> on_channel this (setModeUserLimit True limit) s;
                    Some ((ml_append True (CHR ''l'') l)\<lparr>ml_appliedArgs := ml_appliedArgs l @ '' '' @ raw\<rparr>, s) }) })
          else if ch_userLimit ch > 0 then do {
            s \<leftarrow> on_channel this (setModeUserLimit False 0) s;
            Some (ml_append False (CHR ''l'') l, s) }
          else Some (l, s))
       else do {
         s \<leftarrow> sendToOne user (makeReply ERR_UNKNOWNMODE (cl_nickname u)
               ([mode] @ '' :is unknown mode char to me for '' @ ch_name ch)) s;
         Some (l, s) } })"

definition handleMode :: "chptr \<Rightarrow> cptr \<Rightarrow> string \<Rightarrow> string list \<Rightarrow> server \<Rightarrow> server option" where
  "handleMode this user modes modeParams s = do {
     ch \<leftarrow> hp_channel s this;
     u \<leftarrow> hp_client s user;
     if modes = [] then
       (if \<not> isMember ch user then
          sendToOne user (makeReply ERR_NOTONCHANNEL (cl_nickname u) (ch_name ch @ '' :You're not on that channel'')) s
        else sendToOne user (makeReply RPL_CHANNELMODEIS (cl_nickname u) (ch_name ch @ '' '' @ buildModeString ch)) s)
     else if \<not> isOperator ch user then
       sendToOne user (makeReply ERR_CHANOPRIVSNEEDED (cl_nickname u) (ch_name ch @ '' :You're not channel operator'')) s
     else do {
       (l, s) \<leftarrow> each (mode_step this user modeParams) modes (mode_loop0, s);
       if ml_applied l \<noteq> [] then
         sendToAll this (makeCommand u ''MODE'' (ch_name ch @ '' '' @ ml_applied l @ ml_appliedArgs l)) s
       else Some s } }"

definition handleModeOperator :: "chptr \<Rightarrow> bool \<Rightarrow> cptr \<Rightarrow> cptr \<Rightarrow> server \<Rightarrow> server option" where
  "handleModeOperator this enable target user s = do {
     ch \<leftarrow> hp_channel s this;
     t \<leftarrow> hp_client s target;
     u \<leftarrow> hp_client s user;
     if \<not> isMember ch target then
       sendToOne user (makeReply ERR_USERNOTINCHANNEL (cl_nickname u)
         (cl_nickname t @ '' '' @ ch_name ch @ '' :They aren't on that channel'')) s
     else if \<not> isOperator ch user then
       sendToOne user (makeReply ERR_CHANOPRIVSNEEDED (cl_nickname u) (ch_name ch @ '' :You're not channel operator'')) s
     else if isOperator ch target = enable then Some s
     else do {
       s \<leftarrow> on_channel this (setModeOperator enable target) s;
       let modeStr = (if enable then ''+o'' else ''-o'');
       sendToAll this (makeCommand u ''MODE'' (ch_name ch @ '' '' @ modeStr @ '' '' @ cl_nickname t)) s } }"

section \<open>PRIVMSG to a channel\<close>

definition handleChannelPrivmsg :: "chptr \<Rightarrow> cptr \<Rightarrow> string \<Rightarrow> server \<Rightarrow> server option" where
  "handleChannelPrivmsg this sender message s = do {
     ch \<leftarrow> hp_channel s this;
     u \<leftarrow> hp_client s sender;
     if \<not> isMember ch sender then
       sendToOne sender (makeReply ERR_CANNOTSENDTOCHAN (cl_nickname u) (ch_name ch @ '' :Cannot send to channel'')) s
     else sendToAllExcept this sender (makeCommand u ''PRIVMSG'' (ch_name ch @ '' :'' @ message)) s }"

section \<open>Closed forms of the primitives\<close>

lemma sendToOne_live [heap_simps]:
  "hp_client s p = Some c \<Longrightarrow> sendToOne p m s = Some (post (to_one p [m]) s)"
  by (simp add: sendToOne_def heap_simps)

lemma sendToAll_live [heap_simps]:
  "hp_channel s q = Some ch \<Longrightarrow> set (ch_members ch) \<subseteq> live_clients s \<Longrightarrow>
     sendToAll q m s = Some (post (to_all (ch_members ch) m) s)"
  by (simp add: sendToAll_def heap_simps)

lemma each_filter: "each (\<lambda>p s. if P p then f p s else Some s) ps s = each f (filter P ps) s"
  by (induction ps arbitrary: s) (auto split: Option.bind_splits)

lemma sendToAllExcept_live [heap_simps]:
  "hp_channel s q = Some ch \<Longrightarrow> set (ch_members ch) \<subseteq> live_clients s \<Longrightarrow>
     sendToAllExcept q ex m s = Some (post (to_all (erase_remove ex (ch_members ch)) m) s)"
  unfolding sendToAllExcept_def each_filter
  by (auto simp: erase_remove_def intro!: each_send)

lemma removeMember_live [heap_simps]:
  "hp_channel s q = Some ch \<Longrightarrow> hp_client s p = Some c \<Longrightarrow>
     removeMember q p s = Some (set_client p (removeJoinedChannels (ch_name ch) c) (set_channel q (left_channel p ch) s))"
  by (simp add: removeMember_def heap_simps left_channel_def removeOperator_def)

section \<open>The member list of a JOIN\<close>

text \<open>The lines, as a function of the entries\<close>

fun pack :: "nat \<Rightarrow> string \<Rightarrow> string list \<Rightarrow> string list" where
  "pack limit users [] = (if users \<noteq> [] then [users] else [])"
| "pack limit users (entry # entries) =
     (if users \<noteq> [] \<and> limit < length users + 1 + length entry then users # pack limit entry entries
      else pack limit ((if users \<noteq> [] then users @ '' '' else users) @ entry) entries)"

definition names_entry :: "server \<Rightarrow> channel \<Rightarrow> cptr \<Rightarrow> string" where
  "names_entry s ch p = (if isOperator ch p then ''@'' else []) @
     (case hp_client s p of None \<Rightarrow> [] | Some m \<Rightarrow> cl_nickname m)"

lemma names_entry_post [simp]: "names_entry (post out s) = names_entry s"
  by (auto simp: fun_eq_iff names_entry_def split: option.splits)

lemma names_loop_eq:
  assumes "set ms \<subseteq> live_clients s" and "user \<in> live_clients s"
  shows "\<exists>rest lines. names_loop ch user prefix limit ms users s =
      Some (rest, post (to_one user (map ((@) prefix) lines)) s) \<and>
      pack limit users (map (names_entry s ch) ms) = lines @ (if rest \<noteq> [] then [rest] else [])"
  using assms
proof (induction ms arbitrary: users s)
  case Nil
  have "to_one user [] = (\<lambda>_. [])" by (simp add: to_one_def fun_eq_iff)
  then show ?case by (intro exI [of _ users] exI [of _ "[]"]) (simp add: post_none)
next
  case (Cons p ms)
  obtain m where m: "hp_client s p = Some m" using Cons.prems by (auto simp: live_clients_def)
  obtain u where u: "hp_client s user = Some u" using Cons.prems(2) by (rule liveE)
  let ?e = "names_entry s ch p"
  have e: "?e = (if isOperator ch p then ''@'' else []) @ cl_nickname m"
    using m by (simp add: names_entry_def)
  show ?case
  proof (cases "users \<noteq> [] \<and> limit < length users + 1 + length ?e")
    case True
    define s' where "s' = post (to_one user [prefix @ users]) s"
    obtain rest lines where r: "names_loop ch user prefix limit ms ?e s' =
        Some (rest, post (to_one user (map ((@) prefix) lines)) s')"
      "pack limit ?e (map (names_entry s ch) ms) = lines @ (if rest \<noteq> [] then [rest] else [])"
      using Cons.IH [of s' ?e] Cons.prems by (auto simp: s'_def)
    have "names_loop ch user prefix limit (p # ms) users s = names_loop ch user prefix limit ms ?e s'"
      using True m u e by (simp add: s'_def heap_simps)
    moreover have "then_out (to_one user [prefix @ users]) (to_one user (map ((@) prefix) lines)) =
        to_one user (map ((@) prefix) (users # lines))"
      by (auto simp: then_out_def to_one_def fun_eq_iff)
    ultimately show ?thesis
      using r True by (intro exI [of _ rest] exI [of _ "users # lines"]) (simp add: s'_def post_post)
  next
    case False
    let ?u = "(if users \<noteq> [] then users @ '' '' else users) @ ?e"
    obtain rest lines where r: "names_loop ch user prefix limit ms ?u s =
        Some (rest, post (to_one user (map ((@) prefix) lines)) s)"
      "pack limit ?u (map (names_entry s ch) ms) = lines @ (if rest \<noteq> [] then [rest] else [])"
      using Cons.IH [of s ?u] Cons.prems by auto
    have "names_loop ch user prefix limit (p # ms) users s = names_loop ch user prefix limit ms ?u s"
      using False m e by auto
    moreover have "pack limit users (map (names_entry s ch) (p # ms)) = pack limit ?u (map (names_entry s ch) ms)"
      using False by auto
    ultimately show ?thesis
      using r by (intro exI [of _ rest] exI [of _ lines]) simp
  qed
qed

text \<open>Nothing is lost: the lines, split at blanks, are the entries in order.\<close>

fun join_sp :: "string list \<Rightarrow> string" where
  "join_sp [] = []"
| "join_sp [e] = e"
| "join_sp (e # es) = e @ '' '' @ join_sp es"

lemma join_sp_snoc: "es \<noteq> [] \<Longrightarrow> join_sp (es @ [e]) = join_sp es @ '' '' @ e"
  by (induction es rule: join_sp.induct) auto

lemma join_sp_Nil_iff: "\<forall>e \<in> set es. e \<noteq> [] \<Longrightarrow> join_sp es = [] \<longleftrightarrow> es = []"
  by (cases es rule: join_sp.cases) auto

lemma pack_complete:
  assumes "\<forall>e \<in> set (done @ entries). e \<noteq> []"
  shows "\<exists>groups. pack limit (join_sp done) entries = map join_sp groups \<and>
     concat groups = done @ entries \<and> [] \<notin> set groups"
  using assms
proof (induction entries arbitrary: "done")
  case Nil
  then show ?case
    by (cases "done = []") (auto simp: join_sp_Nil_iff intro: exI [of _ "[]"] exI [of _ "[done]"])
next
  case (Cons e es)
  show ?case
  proof (cases "join_sp done \<noteq> [] \<and> limit < length (join_sp done) + 1 + length e")
    case True
    then have "done \<noteq> []" by auto
    obtain groups where "pack limit (join_sp [e]) es = map join_sp groups" "concat groups = [e] @ es" "[] \<notin> set groups"
      using Cons.IH [of "[e]"] Cons.prems by auto
    then show ?thesis using True \<open>done \<noteq> []\<close> by (intro exI [of _ "done # groups"]) auto
  next
    case False
    have "(if join_sp done \<noteq> [] then join_sp done @ '' '' else join_sp done) @ e = join_sp (done @ [e])"
      using Cons.prems join_sp_Nil_iff [of "done"] by (auto simp: join_sp_snoc)
    then have "pack limit (join_sp done) (e # es) = pack limit (join_sp (done @ [e])) es"
      using False by auto
    moreover have "\<forall>e' \<in> set ((done @ [e]) @ es). e' \<noteq> []" using Cons.prems by simp
    ultimately show ?thesis using Cons.IH [of "done @ [e]"] by simp
  qed
qed

lemma pack_bounded:
  "length users \<le> limit \<Longrightarrow> \<forall>e \<in> set entries. length e \<le> limit \<Longrightarrow>
     \<forall>line \<in> set (pack limit users entries). length line \<le> limit"
  by (induction limit users entries rule: pack.induct) auto

section \<open>Closed forms of the handlers\<close>

definition join_refusal :: "channel \<Rightarrow> cptr \<Rightarrow> client \<Rightarrow> string \<Rightarrow> string option" where
  "join_refusal ch p c key =
     (if ch_key ch \<noteq> [] \<and> ch_key ch \<noteq> key then
        Some (makeReply ERR_BADCHANNELKEY (cl_nickname c) (ch_name ch @ '' :Cannot join channel (+k)''))
      else if ch_inviteOnly ch \<and> p \<notin> set (ch_invitedUsers ch) then
        Some (makeReply ERR_INVITEONLYCHAN (cl_nickname c) (ch_name ch @ '' :Cannot join channel (+i)''))
      else if isFull ch then
        Some (makeReply ERR_CHANNELISFULL (cl_nickname c) (ch_name ch @ '' :Cannot join channel (+l)''))
      else None)"

definition join_state :: "chptr \<Rightarrow> channel \<Rightarrow> cptr \<Rightarrow> client \<Rightarrow> server \<Rightarrow> server" where
  "join_state q ch p c s = set_client p (joined_client q (ch_name ch) c) (set_channel q (joined_channel p ch) s)"

definition names_prefix :: "channel \<Rightarrow> client \<Rightarrow> string" where
  "names_prefix ch c = makeReply RPL_NAMREPLY (cl_nickname c) (''= '' @ ch_name ch @ '' :'')"

definition names_lines :: "server \<Rightarrow> channel \<Rightarrow> client \<Rightarrow> string list" where
  "names_lines s ch c = map ((@) (names_prefix ch c))
     (pack (size_sub 510 (length (names_prefix ch c))) [] (map (names_entry s ch) (ch_members ch)))"

definition join_welcome :: "server \<Rightarrow> channel \<Rightarrow> client \<Rightarrow> string list" where
  "join_welcome s ch c =
     [if ch_topic ch = [] then makeReply RPL_NOTOPIC (cl_nickname c) (ch_name ch @ '' :No topic is set'')
      else makeReply RPL_TOPIC (cl_nickname c) (ch_name ch @ '' :'' @ ch_topic ch)] @
     names_lines s ch c @
     [makeReply RPL_ENDOFNAMES (cl_nickname c) (ch_name ch @ '' :End of /NAMES list'')]"

lemma joined_channel_fields [simp]:
  "ch_name (joined_channel p ch) = ch_name ch" "ch_topic (joined_channel p ch) = ch_topic ch"
  "ch_key (joined_channel p ch) = ch_key ch" "ch_userLimit (joined_channel p ch) = ch_userLimit ch"
  "ch_members (joined_channel p ch) = ch_members ch @ [p]"
  by (simp_all add: joined_channel_def)

lemma to_one_then_out [simp]: "then_out (to_one p a) (to_one p b) = to_one p (a @ b)"
  by (auto simp: then_out_def to_one_def fun_eq_iff)

lemma then_out_assoc: "then_out (then_out a b) c = then_out a (then_out b c)"
  by (simp add: then_out_def fun_eq_iff)

lemma join_structure:
  assumes q: "hp_channel s q = Some ch" and p: "hp_client s p = Some c" and out: "p \<notin> set (ch_members ch)"
  shows "do { s \<leftarrow> on_channel q (removeMemberfromInvitedUsers p) s;
       s \<leftarrow> on_client p (removeInvitedChannel q) s;
       s \<leftarrow> addMember q p s;
       if ch_members ch = [] then on_channel q (addOperator p) s else Some s } =
     Some (join_state q ch p c s)"
  using assms
  by (simp add: heap_simps addMember_def join_state_def joined_channel_def joined_client_def
      removeMemberfromInvitedUsers_def removeInvitedChannel_def addJoinedChannels_def addOperator_def
      set_channel_client)

definition topic_reply :: "channel \<Rightarrow> client \<Rightarrow> string" where
  "topic_reply ch c = (if ch_topic ch = [] then makeReply RPL_NOTOPIC (cl_nickname c) (ch_name ch @ '' :No topic is set'')
     else makeReply RPL_TOPIC (cl_nickname c) (ch_name ch @ '' :'' @ ch_topic ch))"

text \<open>An admitted client, from the change of the lists on\<close>

lemma handleJoin_admitted:
  assumes q: "hp_channel s q = Some ch" and p: "hp_client s p = Some c" and out: "p \<notin> set (ch_members ch)"
    and ok: "join_refusal ch p c key = None"
  shows "handleJoin q p key s = do {
     s \<leftarrow> Some (join_state q ch p c s);
     s \<leftarrow> sendToAll q (makeCommand c ''JOIN'' (ch_name ch)) s;
     s \<leftarrow> sendToOne p (topic_reply ch c) s;
     ch' \<leftarrow> hp_channel s q;
     (users, s) \<leftarrow> names_loop ch' p (names_prefix ch c) (size_sub 510 (length (names_prefix ch c))) (ch_members ch') [] s;
     s \<leftarrow> (if users \<noteq> [] then sendToOne p (names_prefix ch c @ users) s else Some s);
     sendToOne p (makeReply RPL_ENDOFNAMES (cl_nickname c) (ch_name ch' @ '' :End of /NAMES list'')) s }"
proof -
  have guards: "\<not> (ch_key ch \<noteq> [] \<and> ch_key ch \<noteq> key)"
    "\<not> (ch_inviteOnly ch \<and> p \<notin> set (ch_invitedUsers ch))" "\<not> isFull ch"
    using ok by (auto simp: join_refusal_def split: if_splits)
  show ?thesis
    unfolding join_structure [OF q p out, symmetric] names_prefix_def topic_reply_def handleJoin_def Let_def
    using q p out
    by (cases "ch_topic ch = []") (simp_all add: guards checkKey_def Option.bind_assoc)
qed

lemma handleJoin_eq:
  assumes wf: "wf s" and q: "hp_channel s q = Some ch" and p: "hp_client s p = Some c"
  shows "handleJoin q p key s =
     Some (if p \<in> set (ch_members ch) then s
           else case join_refusal ch p c key of
             Some reply \<Rightarrow> post (to_one p [reply]) s
           | None \<Rightarrow> post (then_out (to_all (ch_members ch @ [p]) (makeCommand c ''JOIN'' (ch_name ch)))
               (to_one p (join_welcome (join_state q ch p c s) (joined_channel p ch) c)))
               (join_state q ch p c s))"
proof (cases "p \<in> set (ch_members ch) \<or> join_refusal ch p c key \<noteq> None")
  case True
  then show ?thesis
    using q p by (auto simp: handleJoin_def join_refusal_def checkKey_def heap_simps)
next
  case False
  then have out: "p \<notin> set (ch_members ch)" and ok: "join_refusal ch p c key = None" by auto
  define t where "t = join_state q ch p c s"
  let ?ch = "joined_channel p ch" and ?join = "makeCommand c ''JOIN'' (ch_name ch)"
  let ?topic = "topic_reply ch c"
  let ?limit = "size_sub 510 (length (names_prefix ch c))"
  have tq: "hp_channel t q = Some ?ch" and tp: "hp_client t p = Some (joined_client q (ch_name ch) c)"
    by (simp_all add: t_def join_state_def)
  have live: "set (ch_members ?ch) \<subseteq> live_clients t"
    using member_live [OF wf q] by (auto simp: t_def join_state_def)
  define t' where "t' = post (then_out (to_all (ch_members ch @ [p]) ?join) (to_one p [?topic])) t"
  obtain rest lines where names:
    "names_loop ?ch p (names_prefix ch c) ?limit (ch_members ?ch) [] t' =
      Some (rest, post (to_one p (map ((@) (names_prefix ch c)) lines)) t')"
    "pack ?limit [] (map (names_entry t ?ch) (ch_members ?ch)) = lines @ (if rest \<noteq> [] then [rest] else [])"
    using names_loop_eq [of "ch_members ?ch" t' p ?ch "names_prefix ch c" ?limit "[]"] live tp
    by (auto simp: t'_def live_clients_def)
  note step = handleJoin_admitted [OF q p out ok, folded t_def]
  have "names_lines t ?ch c = map ((@) (names_prefix ch c)) (lines @ (if rest \<noteq> [] then [rest] else []))"
    using names(2) by (simp add: names_lines_def names_prefix_def)
  then have greeting: "join_welcome t ?ch c = [?topic] @ map ((@) (names_prefix ch c)) (lines @ (if rest \<noteq> [] then [rest] else [])) @
      [makeReply RPL_ENDOFNAMES (cl_nickname c) (ch_name ch @ '' :End of /NAMES list'')]"
    by (simp add: join_welcome_def topic_reply_def)
  have "handleJoin q p key s =
      Some (post (then_out (to_all (ch_members ch @ [p]) ?join) (to_one p (join_welcome t ?ch c))) t)"
    using tq tp live names(1) unfolding greeting step
    by (simp add: heap_simps post_post t'_def then_out_assoc)
  then show ?thesis using out ok by (simp add: t_def)
qed

definition leave_state :: "chptr \<Rightarrow> channel \<Rightarrow> cptr \<Rightarrow> client \<Rightarrow> server \<Rightarrow> server" where
  "leave_state q ch p c s = set_client p (removeJoinedChannels (ch_name ch) c) (set_channel q (left_channel p ch) s)"

lemma handlePart_eq:
  assumes wf: "wf s" and q: "hp_channel s q = Some ch" and p: "hp_client s p = Some c"
  shows "handlePart q p message s = Some (if p \<notin> set (ch_members ch)
     then post (to_one p [makeReply ERR_NOTONCHANNEL (cl_nickname c) (ch_name ch @ '' :You're not on that channel'')]) s
     else post (to_all (ch_members ch) (makeCommand c ''PART''
         (ch_name ch @ '' :'' @ (if message \<noteq> [] then message else cl_nickname c)))) (leave_state q ch p c s))"
  using q p member_live [OF wf q] by (simp add: handlePart_def heap_simps post_simps leave_state_def Let_def)

lemma handleKick_eq:
  assumes wf: "wf s" and q: "hp_channel s q = Some ch" and p: "hp_client s p = Some c" and k: "hp_client s k = Some d"
  shows "handleKick q p k comment s = Some (
     if p \<notin> set (ch_members ch) then
       post (to_one p [makeReply ERR_NOTONCHANNEL (cl_nickname c) (ch_name ch @ '' :You're not on that channel'')]) s
     else if p \<notin> set (ch_operators ch) then
       post (to_one p [makeReply ERR_CHANOPRIVSNEEDED (cl_nickname c) (ch_name ch @ '' :You're not channel operator'')]) s
     else if k \<notin> set (ch_members ch) then
       post (to_one p [makeReply ERR_USERNOTINCHANNEL (cl_nickname c)
         (cl_nickname d @ '' '' @ ch_name ch @ '' :They aren't on that channel'')]) s
     else post (to_all (ch_members ch) (makeCommand c ''KICK'' (ch_name ch @ '' '' @ cl_nickname d) @ '' :'' @
           (if comment \<noteq> [] then comment else cl_nickname c))) (leave_state q ch k d s))"
  using q p k member_live [OF wf q] by (simp add: handleKick_def heap_simps post_simps leave_state_def Let_def)

lemma handleTopic_eq:
  assumes wf: "wf s" and q: "hp_channel s q = Some ch" and p: "hp_client s p = Some c"
  shows "handleTopic q p topic given s = Some (
     if p \<notin> set (ch_members ch) then
       post (to_one p [makeReply ERR_NOTONCHANNEL (cl_nickname c) (ch_name ch @ '' :You're not on that channel'')]) s
     else if \<not> given then
       post (to_one p [if ch_topic ch = [] then makeReply RPL_NOTOPIC (cl_nickname c) (ch_name ch @ '' :No topic is set'')
         else makeReply RPL_TOPIC (cl_nickname c) (ch_name ch @ '' :'' @ ch_topic ch)]) s
     else if ch_topicByOpOnly ch \<and> p \<notin> set (ch_operators ch) then
       post (to_one p [makeReply ERR_CHANOPRIVSNEEDED (cl_nickname c) (ch_name ch @ '' :You're not channel operator'')]) s
     else post (to_all (ch_members ch) (makeCommand c ''TOPIC'' (ch_name ch @ '' :'' @ truncateUtf8 topic 300)))
       (set_channel q (ch\<lparr>ch_topic := truncateUtf8 topic 300\<rparr>) s))"
  using q p member_live [OF wf q] by (simp add: handleTopic_def heap_simps)

definition invite_state :: "chptr \<Rightarrow> channel \<Rightarrow> cptr \<Rightarrow> client \<Rightarrow> server \<Rightarrow> server" where
  "invite_state q ch p c s = set_client p (addInvitedChannel q c)
     (set_channel q (ch\<lparr>ch_invitedUsers := ch_invitedUsers ch @ [p]\<rparr>) s)"

lemma handleInvite_eq:
  assumes q: "hp_channel s q = Some ch" and p: "hp_client s p = Some c" and v: "hp_client s v = Some d"
  shows "handleInvite q p v s = Some (
     if p \<notin> set (ch_members ch) then
       post (to_one p [makeReply ERR_NOTONCHANNEL (cl_nickname c) (ch_name ch @ '' :You're not on that channel'')]) s
     else if ch_inviteOnly ch \<and> p \<notin> set (ch_operators ch) then
       post (to_one p [makeReply ERR_CHANOPRIVSNEEDED (cl_nickname c) (ch_name ch @ '' :You're not channel operator'')]) s
     else if v \<in> set (ch_invitedUsers ch) then s
     else if v \<in> set (ch_members ch) then
       post (to_one p [makeReply ERR_USERONCHANNEL (cl_nickname c)
         (cl_nickname d @ '' '' @ ch_name ch @ '' :is already on channel'')]) s
     else post (then_out (to_one p [makeReply RPL_INVITING (cl_nickname c) (ch_name ch @ '' '' @ cl_nickname d)])
         (to_one v [makeCommand c ''INVITE'' (cl_nickname d @ '' '' @ ch_name ch)])) (invite_state q ch v d s))"
proof (cases "p = v")
  case True
  then show ?thesis
    using q p v by (simp add: handleInvite_def heap_simps post_post invite_state_def set_channel_client)
next
  case False
  then show ?thesis
    using q p v by (simp add: handleInvite_def heap_simps post_post invite_state_def set_channel_client)
qed

lemma handleModeOperator_eq:
  assumes wf: "wf s" and q: "hp_channel s q = Some ch" and t: "hp_client s t = Some d" and p: "hp_client s p = Some c"
  shows "handleModeOperator q enable t p s = Some (
     if t \<notin> set (ch_members ch) then
       post (to_one p [makeReply ERR_USERNOTINCHANNEL (cl_nickname c)
         (cl_nickname d @ '' '' @ ch_name ch @ '' :They aren't on that channel'')]) s
     else if p \<notin> set (ch_operators ch) then
       post (to_one p [makeReply ERR_CHANOPRIVSNEEDED (cl_nickname c) (ch_name ch @ '' :You're not channel operator'')]) s
     else if (t \<in> set (ch_operators ch)) = enable then s
     else post (to_all (ch_members ch) (makeCommand c ''MODE''
         (ch_name ch @ '' '' @ (if enable then ''+o'' else ''-o'') @ '' '' @ cl_nickname d)))
       (set_channel q (setModeOperator enable t ch) s))"
proof -
  have "ch_members (setModeOperator enable t ch) = ch_members ch" by (simp add: setModeOperator_def)
  then show ?thesis
    using q t p member_live [OF wf q] by (simp add: handleModeOperator_def heap_simps Let_def)
qed

lemma handleChannelPrivmsg_eq:
  assumes wf: "wf s" and q: "hp_channel s q = Some ch" and p: "hp_client s p = Some c"
  shows "handleChannelPrivmsg q p message s = Some (
     if p \<notin> set (ch_members ch) then
       post (to_one p [makeReply ERR_CANNOTSENDTOCHAN (cl_nickname c) (ch_name ch @ '' :Cannot send to channel'')]) s
     else post (to_all (erase_remove p (ch_members ch)) (makeCommand c ''PRIVMSG'' (ch_name ch @ '' :'' @ message))) s)"
  using q p member_live [OF wf q] by (simp add: handleChannelPrivmsg_def heap_simps)

lemma removeQuitUser_eq:
  assumes q: "hp_channel s q = Some ch" and p: "hp_client s p = Some c"
  shows "removeQuitUser q p s = Some (if p \<in> set (ch_members ch) then leave_state q ch p c s else s)"
  using q p by (simp add: removeQuitUser_def heap_simps leave_state_def)

section \<open>MODE as a function of the channel\<close>

text \<open>
  What one iteration of the mode loop does to the loop variables and to the channel, and the replies it sends to
  the user: the heap operations of \<open>mode_step\<close> refine this function.
\<close>

definition chan_mode_step :: "string \<Rightarrow> string list \<Rightarrow> char \<Rightarrow> mode_loop \<times> channel \<times> string list \<Rightarrow> mode_loop \<times> channel \<times> string list" where
  "chan_mode_step nick modeParams mode st = (case st of (l, ch, out) \<Rightarrow>
     let enable = ml_enable l; arg = modeParams ! ml_paramIndex l; l' = l\<lparr>ml_paramIndex := ml_paramIndex l + 1\<rparr> in
     if mode = CHR ''+'' then (l\<lparr>ml_enable := True\<rparr>, ch, out)
     else if mode = CHR ''-'' then (l\<lparr>ml_enable := False\<rparr>, ch, out)
     else if mode = CHR ''i'' then
       (if ch_inviteOnly ch \<noteq> enable then (ml_append enable (CHR ''i'') l, setModeInviteOnly enable ch, out) else (l, ch, out))
     else if mode = CHR ''t'' then
       (if ch_topicByOpOnly ch \<noteq> enable then (ml_append enable (CHR ''t'') l, setModeTopicRestriction enable ch, out)
        else (l, ch, out))
     else if mode = CHR ''k'' then
       (if enable then
          (if ml_paramIndex l \<ge> length modeParams then (l, ch, out)
           else if \<not> isValidKey arg then
             (l', ch, out @ [makeReply ERR_INVALIDKEY nick (ch_name ch @ '' :Key is not well-formed'')])
           else if ch_key ch \<noteq> [] then
             (l', ch, out @ [makeReply ERR_KEYSET nick (ch_name ch @ '' :Channel key already set'')])
           else ((ml_append True (CHR ''k'') l')\<lparr>ml_appliedArgs := ml_appliedArgs l @ '' '' @ arg\<rparr>, setModeKey True arg ch, out))
        else if ch_key ch \<noteq> [] then (ml_append False (CHR ''k'') l, setModeKey False [] ch, out)
        else (l, ch, out))
     else if mode = CHR ''l'' then
       (if enable then
          (if ml_paramIndex l \<ge> length modeParams then (l, ch, out)
           else case parseLimit arg of
               None \<Rightarrow> (l', ch, out @ [makeReply ERR_INVALIDMODEPARAM nick (ch_name ch @ '' l '' @ arg @ '' :Invalid limit value'')])
             | Some n \<Rightarrow> ((ml_append True (CHR ''l'') l')\<lparr>ml_appliedArgs := ml_appliedArgs l @ '' '' @ arg\<rparr>,
                 setModeUserLimit True n ch, out))
        else if ch_userLimit ch > 0 then (ml_append False (CHR ''l'') l, setModeUserLimit False 0 ch, out)
        else (l, ch, out))
     else (l, ch, out @ [makeReply ERR_UNKNOWNMODE nick ([mode] @ '' :is unknown mode char to me for '' @ ch_name ch)]))"

definition chan_mode :: "string \<Rightarrow> string list \<Rightarrow> string \<Rightarrow> channel \<Rightarrow> mode_loop \<times> channel \<times> string list" where
  "chan_mode nick modeParams modes ch = fold (chan_mode_step nick modeParams) modes (mode_loop0, ch, [])"

definition mode_state :: "chptr \<Rightarrow> cptr \<Rightarrow> server \<Rightarrow> mode_loop \<times> channel \<times> string list \<Rightarrow> mode_loop \<times> server" where
  "mode_state q p s st = (case st of (l, ch, out) \<Rightarrow> (l, post (to_one p out) (set_channel q ch s)))"

lemma mode_step_refines:
  assumes p: "hp_client s p = Some c"
  shows "mode_step q p modeParams mode (mode_state q p s (l, ch, out)) =
     Some (mode_state q p s (chan_mode_step (cl_nickname c) modeParams mode (l, ch, out)))"
  using p unfolding mode_step_def chan_mode_step_def mode_state_def
  by (auto simp: heap_simps post_simps Let_def split: option.split)

lemma mode_loop_refines:
  assumes p: "hp_client s p = Some c"
  shows "each (mode_step q p modeParams) modes (mode_state q p s st) =
     Some (mode_state q p s (fold (chan_mode_step (cl_nickname c) modeParams) modes st))"
proof (induction modes arbitrary: st)
  case (Cons m modes)
  obtain l ch out where "st = (l, ch, out)" by (cases st) auto
  then show ?case using Cons mode_step_refines [OF p] by simp
qed simp

text \<open>The loop never touches the name and the lists of the channel.\<close>

lemma chan_mode_step_frame:
  "chan_mode_step nick ps m (l, ch, out) = (l', ch', out') \<Longrightarrow>
     ch_name ch' = ch_name ch \<and> ch_topic ch' = ch_topic ch \<and> ch_members ch' = ch_members ch \<and>
     ch_operators ch' = ch_operators ch \<and> ch_invitedUsers ch' = ch_invitedUsers ch"
  by (auto simp: chan_mode_step_def setModeInviteOnly_def setModeTopicRestriction_def setModeKey_def
      setModeUserLimit_def Let_def split: if_splits option.splits)

lemma chan_mode_fold_frame:
  "fold (chan_mode_step nick ps) modes (l, ch, out) = (l', ch', out') \<Longrightarrow>
     ch_name ch' = ch_name ch \<and> ch_topic ch' = ch_topic ch \<and> ch_members ch' = ch_members ch \<and>
     ch_operators ch' = ch_operators ch \<and> ch_invitedUsers ch' = ch_invitedUsers ch"
proof (induction modes arbitrary: l ch out)
  case (Cons m modes)
  obtain l1 ch1 out1 where st: "chan_mode_step nick ps m (l, ch, out) = (l1, ch1, out1)"
    using prod_cases3 by blast
  from Cons.prems st have "fold (chan_mode_step nick ps) modes (l1, ch1, out1) = (l', ch', out')" by simp
  from Cons.IH [OF this] chan_mode_step_frame [OF st] show ?case by simp
qed simp

lemma handleMode_eq:
  assumes wf: "wf s" and q: "hp_channel s q = Some ch" and p: "hp_client s p = Some c"
  shows "handleMode q p modes modeParams s = Some (
     if modes = [] then
       (if p \<notin> set (ch_members ch) then
          post (to_one p [makeReply ERR_NOTONCHANNEL (cl_nickname c) (ch_name ch @ '' :You're not on that channel'')]) s
        else post (to_one p [makeReply RPL_CHANNELMODEIS (cl_nickname c) (ch_name ch @ '' '' @ buildModeString ch)]) s)
     else if p \<notin> set (ch_operators ch) then
       post (to_one p [makeReply ERR_CHANOPRIVSNEEDED (cl_nickname c) (ch_name ch @ '' :You're not channel operator'')]) s
     else (case chan_mode (cl_nickname c) modeParams modes ch of (l, ch', out) \<Rightarrow>
       post (if ml_applied l \<noteq> [] then then_out (to_one p out) (to_all (ch_members ch)
               (makeCommand c ''MODE'' (ch_name ch @ '' '' @ ml_applied l @ ml_appliedArgs l)))
             else to_one p out) (set_channel q ch' s)))"
proof (cases "modes = [] \<or> p \<notin> set (ch_operators ch)")
  case True
  then show ?thesis using q p by (auto simp: handleMode_def heap_simps)
next
  case False
  obtain l ch' out where cm: "chan_mode (cl_nickname c) modeParams modes ch = (l, ch', out)"
    using prod_cases3 by blast
  have "mode_state q p s (mode_loop0, ch, []) = (mode_loop0, s)"
    using q by (simp add: mode_state_def to_one_def post_none)
  then have "each (mode_step q p modeParams) modes (mode_loop0, s) =
      Some (l, post (to_one p out) (set_channel q ch' s))"
    using mode_loop_refines [OF p, of q modeParams modes "(mode_loop0, ch, [])"] cm
    by (simp add: chan_mode_def mode_state_def)
  moreover have "ch_members ch' = ch_members ch"
    using cm chan_mode_fold_frame unfolding chan_mode_def by blast
  ultimately show ?thesis
    using False q p member_live [OF wf q] by (auto simp: handleMode_def heap_simps post_post cm)
qed

section \<open>The handlers keep the invariant\<close>

lemma good_channelD:
  assumes "good s" "hp_channel s q = Some ch"
  shows "ok_channel ch" "lists_ok ch" "set (ch_members ch) \<subseteq> live_clients s"
    "\<And>p c. p \<in> set (ch_members ch) \<Longrightarrow> hp_client s p = Some c \<Longrightarrow> cl_is_registered c"
  using assms member_live [OF goodD(1) [OF assms(1)] assms(2)] inv_listsD(1) [OF wfD(3) [OF goodD(1) [OF assms(1)]] assms(2)]
  by (auto simp: good_def vals_def inv_values_def inv_registered_def)

lemma good_join_state:
  assumes g: "good s" and q: "hp_channel s q = Some ch" and p: "hp_client s p = Some c"
    and out: "p \<notin> set (ch_members ch)" and reg: "cl_is_registered c"
  shows "good (join_state q ch p c s)"
proof -
  have "vals (set_channel q (joined_channel p ch) s)"
    using good_channelD [OF g q] p reg
    by (intro vals_set_channel goodD(2) [OF g]) (auto simp: ok_channel_def)
  then have "vals (join_state q ch p c s)"
    unfolding join_state_def by (rule vals_set_client_links [where c = c]) (simp_all add: p joined_client_def)
  with wf_join [OF goodD(1) [OF g] q p out] show ?thesis by (simp add: good_def join_state_def)
qed

lemma good_leave_state:
  assumes g: "good s" and q: "hp_channel s q = Some ch" and p: "hp_client s p = Some c"
  shows "good (leave_state q ch p c s)"
proof -
  have "vals (set_channel q (left_channel p ch) s)"
    using good_channelD [OF g q]
    by (intro vals_set_channel goodD(2) [OF g]) (auto simp: ok_channel_def left_channel_def)
  then have "vals (leave_state q ch p c s)"
    unfolding leave_state_def by (rule vals_set_client_links [where c = c]) (simp_all add: p removeJoinedChannels_def)
  with wf_leave [OF goodD(1) [OF g] q p] show ?thesis by (simp add: good_def leave_state_def)
qed

lemma good_invite_state:
  assumes g: "good s" and q: "hp_channel s q = Some ch" and p: "hp_client s p = Some c"
    and new: "p \<notin> set (ch_invitedUsers ch)" and out: "p \<notin> set (ch_members ch)"
  shows "good (invite_state q ch p c s)"
proof -
  have "vals (set_channel q (ch\<lparr>ch_invitedUsers := ch_invitedUsers ch @ [p]\<rparr>) s)"
    using good_channelD [OF g q]
    by (intro vals_set_channel goodD(2) [OF g]) (auto simp: ok_channel_def)
  then have "vals (invite_state q ch p c s)"
    unfolding invite_state_def by (rule vals_set_client_links [where c = c]) (simp_all add: p addInvitedChannel_def)
  with wf_invite [OF goodD(1) [OF g] q p new out] show ?thesis by (simp add: good_def invite_state_def)
qed

lemma good_set_channel:
  assumes g: "good s" and q: "hp_channel s q = Some ch"
    and same: "ch_name ch' = ch_name ch" "ch_members ch' = ch_members ch" "ch_invitedUsers ch' = ch_invitedUsers ch"
    and ops: "distinct (ch_operators ch')" "set (ch_operators ch') \<subseteq> set (ch_members ch)" and ok: "ok_channel ch'"
  shows "good (set_channel q ch' s)"
  using wf_set_channel [OF goodD(1) [OF g] q same ops] vals_set_channel [OF goodD(2) [OF g] ok]
    good_channelD(4) [OF g q] same by (simp add: good_def)

text \<open>Mode changes keep the values in range.\<close>

lemma chan_mode_step_ok:
  "chan_mode_step nick ps m (l, ch, out) = (l', ch', out') \<Longrightarrow> ok_channel ch \<Longrightarrow> ok_channel ch'"
  by (auto simp: chan_mode_step_def ok_channel_def setModeInviteOnly_def setModeTopicRestriction_def setModeKey_def
      setModeUserLimit_def Let_def dest: parseLimit_range split: if_splits option.splits)

lemma chan_mode_fold_ok:
  "fold (chan_mode_step nick ps) modes (l, ch, out) = (l', ch', out') \<Longrightarrow> ok_channel ch \<Longrightarrow> ok_channel ch'"
proof (induction modes arbitrary: l ch out)
  case (Cons m modes)
  obtain l1 ch1 out1 where st: "chan_mode_step nick ps m (l, ch, out) = (l1, ch1, out1)"
    using prod_cases3 by blast
  with Cons chan_mode_step_ok [OF st] show ?case by simp
qed simp

section \<open>The member list fits\<close>

lemma length_names_prefix: "length (names_prefix ch c) = 18 + length (cl_nickname c) + length (ch_name ch)"
proof -
  have "show_int RPL_NAMREPLY = ''353''" "\<not> RPL_NAMREPLY < 100" "\<not> RPL_NAMREPLY < 10" by code_simp+
  then show ?thesis by (simp add: names_prefix_def makeReply_def)
qed

lemma valid_lengths: "isValidNickname n \<Longrightarrow> length n \<le> 9" "isValidChannelName m \<Longrightarrow> length m \<le> 50"
  by (auto simp: isValidNickname_def isValidChannelName_def split: if_splits)

text \<open>On a good state no entry is empty, and every line fits into a frame.\<close>

lemma names_entry_ok:
  assumes g: "good s" and q: "hp_channel s q = Some ch" and p: "p \<in> set (ch_members ch)"
  shows "names_entry s ch p \<noteq> []" "length (names_entry s ch p) \<le> 10"
proof -
  obtain c where c: "hp_client s p = Some c" using good_channelD(3) [OF g q] p by (blast elim: liveE)
  have "cl_is_registered c" using good_channelD(4) [OF g q p c] .
  then have "cl_nickname c \<noteq> []" "isValidNickname (cl_nickname c)"
    using goodD(3) [OF g] c by (auto simp: inv_values_def ok_client_def)
  then show "names_entry s ch p \<noteq> []" "length (names_entry s ch p) \<le> 10"
    using c valid_lengths(1) [of "cl_nickname c"] by (simp_all add: names_entry_def)
qed

lemma names_lines_ok:
  assumes g: "good s" and q: "hp_channel s q = Some ch" and nick: "isValidNickname (cl_nickname c)"
  shows "\<exists>groups. names_lines s ch c = map (\<lambda>es. names_prefix ch c @ join_sp es) groups \<and>
      concat groups = map (names_entry s ch) (ch_members ch) \<and> [] \<notin> set groups"
    and "\<forall>line \<in> set (names_lines s ch c). length line \<le> 510"
proof -
  let ?es = "map (names_entry s ch) (ch_members ch)" and ?pre = "names_prefix ch c"
  have "ok_channel ch" using good_channelD(1) [OF g q] .
  then have len: "length ?pre \<le> 77"
    using valid_lengths(1) [OF nick] valid_lengths(2) [of "ch_name ch"] by (simp add: length_names_prefix ok_channel_def)
  then have limit: "size_sub 510 (length ?pre) = 510 - length ?pre" by (intro size_sub_no_wrap) auto
  have entries: "\<forall>e \<in> set ([] @ ?es). e \<noteq> []" "\<forall>e \<in> set ?es. length e \<le> 510 - length ?pre"
    using names_entry_ok [OF g q] len by fastforce+
  obtain groups where "pack (size_sub 510 (length ?pre)) (join_sp []) ?es = map join_sp groups" "concat groups = [] @ ?es" "[] \<notin> set groups"
    using pack_complete [OF entries(1)] by blast
  then show "\<exists>groups. names_lines s ch c = map (\<lambda>es. ?pre @ join_sp es) groups \<and> concat groups = ?es \<and> [] \<notin> set groups"
    by (intro exI [of _ groups]) (simp add: names_lines_def)
  have "\<forall>line \<in> set (pack (510 - length ?pre) [] ?es). length line \<le> 510 - length ?pre"
    using entries(2) by (intro pack_bounded) auto
  then show "\<forall>line \<in> set (names_lines s ch c). length line \<le> 510" using len by (auto simp: names_lines_def limit)
qed

end
