(* ===== verification/Irc_Server.thy ===== *)
theory Irc_Server
  imports Irc_Channel
begin

text \<open>
  The server object: the lookups of \<open>network/ServerUtils.cpp\<close>, the channel table of
  \<open>network/ChannelHandler.cpp\<close> and the removal of clients of \<open>network/ServerDisconnect.cpp\<close>, with what the
  lookups find, what a removal leaves behind and that none of them breaks the invariant.
\<close>

section \<open>Lookups\<close>

definition getName :: string where
  "getName = ''ircserv''"

fun taken_loop :: "string \<Rightarrow> cptr \<Rightarrow> (int, cptr) omap \<Rightarrow> server \<Rightarrow> bool option" where
  "taken_loop nick self [] s = Some False"
| "taken_loop nick self (it # clients) s =
     (if snd it = self then taken_loop nick self clients s
      else do {
        c \<leftarrow> hp_client s (snd it);
        if toLower (cl_nickname c) = nick then Some True else taken_loop nick self clients s })"

definition isNicknameTaken :: "string \<Rightarrow> cptr \<Rightarrow> server \<Rightarrow> bool option" where
  "isNicknameTaken nickname self s = taken_loop (toLower nickname) self (sv_clients s) s"

definition checkPassword :: "string \<Rightarrow> server \<Rightarrow> bool" where
  "checkPassword password s \<longleftrightarrow> sv_password s = password"

text \<open>The inner \<open>None\<close> of the result is the null pointer.\<close>

fun find_loop :: "string \<Rightarrow> (int, cptr) omap \<Rightarrow> server \<Rightarrow> cptr option option" where
  "find_loop nickname [] s = Some None"
| "find_loop nickname (it # clients) s = do {
     c \<leftarrow> hp_client s (snd it);
     if cl_is_registered c \<and> toLower (cl_nickname c) = toLower nickname then Some (Some (snd it))
     else find_loop nickname clients s }"

definition findClientByNickname :: "string \<Rightarrow> server \<Rightarrow> cptr option option" where
  "findClientByNickname nickname s = find_loop nickname (sv_clients s) s"

section \<open>The channel table\<close>

definition findChannel :: "string \<Rightarrow> server \<Rightarrow> chptr option" where
  "findChannel name s = map_of (sv_channels s) (toLower name)"

definition findOrCreateChannel :: "string \<Rightarrow> server \<Rightarrow> chptr \<times> server" where
  "findOrCreateChannel name s =
     (let key = toLower name
      in case findChannel key s of
           Some channel \<Rightarrow> (channel, s)
         | None \<Rightarrow>
             (let (new_channel, s) = new_channel (new_Channel name) s
              in (new_channel, s\<lparr>sv_channels := omap_put key new_channel (sv_channels s)\<rparr>)))"

definition clearInvitedUsers :: "chptr \<Rightarrow> server \<Rightarrow> server option" where
  "clearInvitedUsers channel s = each (\<lambda>it. on_client (snd it) (removeInvitedChannel channel)) (sv_clients s) s"

definition deleteChannel :: "string \<Rightarrow> server \<Rightarrow> server option" where
  "deleteChannel name s =
     (case map_of (sv_channels s) (toLower name) of
        None \<Rightarrow> Some s
      | Some channel \<Rightarrow> do {
          let s = s\<lparr>sv_channels := omap_erase (toLower name) (sv_channels s)\<rparr>;
          s \<leftarrow> clearInvitedUsers channel s;
          delete_channel channel s })"

section \<open>Closing connections\<close>

definition isMarked :: "int \<Rightarrow> server \<Rightarrow> bool" where
  "isMarked client_fd s \<longleftrightarrow> map_of (sv_to_disconnected s) client_fd \<noteq> None"

definition markForDisconnection :: "int \<Rightarrow> string \<Rightarrow> server \<Rightarrow> server" where
  "markForDisconnection client_fd reason s =
     (if map_of (sv_to_disconnected s) client_fd = None
      then s\<lparr>sv_to_disconnected := omap_put client_fd reason (sv_to_disconnected s)\<rparr> else s)"

definition disconnectAfterFlush :: "int \<Rightarrow> cptr \<Rightarrow> string \<Rightarrow> server \<Rightarrow> server option" where
  "disconnectAfterFlush now p reason s = do {
     s \<leftarrow> on_client p (\<lambda>c. sendReply (''ERROR :Closing Link: '' @ cl_ip c @ '' ('' @ reason @ '')'') c) s;
     c \<leftarrow> hp_client s p;
     let s = s\<lparr>sv_closing := omap_put (cl_fd c) reason (sv_closing s)\<rparr>;
     on_client p (markClosing now) s }"

definition disconnectClient :: "int \<Rightarrow> cptr \<Rightarrow> string \<Rightarrow> server \<Rightarrow> server option" where
  "disconnectClient now client reason s = disconnectAfterFlush now client reason s"

text \<open>The loop over \<open>_channels\<close>; it collects the keys of the channels it empties.\<close>

fun quit_loop :: "cptr \<Rightarrow> (string, chptr) omap \<Rightarrow> string list \<Rightarrow> server \<Rightarrow> (string list \<times> server) option" where
  "quit_loop client [] emptied s = Some (emptied, s)"
| "quit_loop client (it # channels) emptied s = do {
     ch \<leftarrow> hp_channel s (snd it);
     if \<not> isMember ch client then quit_loop client channels emptied s
     else do {
       s \<leftarrow> removeQuitUser (snd it) client s;
       ch \<leftarrow> hp_channel s (snd it);
       quit_loop client channels (if isEmpty ch then emptied @ [fst it] else emptied) s } }"

definition removeClientFromAllChannels :: "cptr \<Rightarrow> string \<Rightarrow> server \<Rightarrow> server option" where
  "removeClientFromAllChannels client reason s = do {
     c \<leftarrow> hp_client s client;
     s \<leftarrow> (if cl_is_registered c then broadcastQuit client (makeCommand c ''QUIT'' ('':'' @ reason)) s else Some s);
     (emptied, s) \<leftarrow> quit_loop client (sv_channels s) [] s;
     s \<leftarrow> each deleteChannel emptied s;
     c \<leftarrow> hp_client s client;
     each (\<lambda>q. on_channel q (removeMemberfromInvitedUsers client)) (cl_invitedChannels c) s }"

text \<open>The loop over \<open>_poll_fds\<close>: the first entry with this descriptor is erased.\<close>

fun poll_erase :: "int \<Rightarrow> pollfd list \<Rightarrow> pollfd list" where
  "poll_erase fd [] = []"
| "poll_erase fd (e # es) = (if pf_fd e = fd then es else e # poll_erase fd es)"

text \<open>\<open>_poll_fds[0].events = events\<close>, undefined when the vector is empty\<close>

definition listen_events :: "pollflag set \<Rightarrow> server \<Rightarrow> server option" where
  "listen_events events s =
     (case sv_poll_fds s of
        [] \<Rightarrow> None
      | e # es \<Rightarrow> Some (s\<lparr>sv_poll_fds := e\<lparr>pf_events := events\<rparr> # es\<rparr>))"

definition disconnect :: "int \<Rightarrow> string \<Rightarrow> server \<Rightarrow> server option" where
  "disconnect client_fd reason s = do {
     let (cause, s) = (case map_of (sv_closing s) client_fd of
           None \<Rightarrow> (reason, s)
         | Some r \<Rightarrow> (r, s\<lparr>sv_closing := omap_erase client_fd (sv_closing s)\<rparr>));
     s \<leftarrow> (case map_of (sv_clients s) client_fd of
           None \<Rightarrow> Some s
         | Some p \<Rightarrow> do {
             s \<leftarrow> removeClientFromAllChannels p cause s;
             s \<leftarrow> delete_client p s;
             Some (s\<lparr>sv_clients := omap_erase client_fd (sv_clients s)\<rparr>) });
     let s = s\<lparr>sv_poll_fds := poll_erase client_fd (sv_poll_fds s)\<rparr>;
     listen_events {POLLIN} s }"

definition cleanupDisconnected :: "server \<Rightarrow> server option" where
  "cleanupDisconnected s =
     (let targets = sv_to_disconnected s
      in each (\<lambda>it. disconnect (fst it) (snd it)) targets (s\<lparr>sv_to_disconnected := []\<rparr>))"

section \<open>What the lookups find\<close>

lemma client_entry:
  assumes "wf s" "it \<in> set (sv_clients s)"
  obtains c where "hp_client s (snd it) = Some c" "cl_fd c = fst it"
  using assms wfD(1) [OF assms(1)] by (cases it) (auto simp: inv_clients_def omap_ok_find)

lemma client_listed:
  assumes "wf s" "hp_client s p = Some c"
  shows "(cl_fd c, p) \<in> set (sv_clients s)"
  using assms wfD(1) [OF assms(1)] by (auto simp: inv_clients_def omap_ok_find)

lemma taken_loop_spec:
  assumes "\<forall>it \<in> set clients. hp_client s (snd it) \<noteq> None"
  shows "taken_loop nick self clients s = Some (\<exists>it \<in> set clients. snd it \<noteq> self \<and>
     (\<exists>c. hp_client s (snd it) = Some c \<and> toLower (cl_nickname c) = nick))"
  using assms by (induction clients) auto

lemma isNicknameTaken_spec:
  assumes wf: "wf s"
  shows "isNicknameTaken nickname self s =
     Some (\<exists>p c. p \<noteq> self \<and> hp_client s p = Some c \<and> toLower (cl_nickname c) = toLower nickname)"
proof -
  have live: "\<forall>it \<in> set (sv_clients s). hp_client s (snd it) \<noteq> None"
    using client_entry [OF wf] by (metis option.distinct(1))
  have "(\<exists>it \<in> set (sv_clients s). snd it \<noteq> self \<and>
      (\<exists>c. hp_client s (snd it) = Some c \<and> toLower (cl_nickname c) = toLower nickname)) \<longleftrightarrow>
    (\<exists>p c. p \<noteq> self \<and> hp_client s p = Some c \<and> toLower (cl_nickname c) = toLower nickname)"
    using client_listed [OF wf] by (metis snd_conv)
  then show ?thesis unfolding isNicknameTaken_def taken_loop_spec [OF live] by simp
qed

definition bears :: "string \<Rightarrow> server \<Rightarrow> cptr \<Rightarrow> bool" where
  "bears nickname s p \<longleftrightarrow> (\<exists>c. hp_client s p = Some c \<and> cl_is_registered c \<and> toLower (cl_nickname c) = toLower nickname)"

lemma find_loop_spec:
  assumes "\<forall>it \<in> set clients. hp_client s (snd it) \<noteq> None"
  shows "\<exists>r. find_loop nickname clients s = Some r \<and>
     (case r of None \<Rightarrow> \<forall>it \<in> set clients. \<not> bears nickname s (snd it)
      | Some p \<Rightarrow> p \<in> snd ` set clients \<and> bears nickname s p)"
  using assms
proof (induction clients)
  case (Cons it clients)
  then obtain c where c: "hp_client s (snd it) = Some c" by auto
  show ?case
  proof (cases "bears nickname s (snd it)")
    case True
    then show ?thesis using c by (auto simp: bears_def)
  next
    case False
    then have "find_loop nickname (it # clients) s = find_loop nickname clients s"
      using c by (auto simp: bears_def)
    with Cons False show ?thesis by (auto split: option.splits)
  qed
qed simp

lemma bears_unique:
  assumes "good s" "bears nickname s p" "bears nickname s p'"
  shows "p = p'"
proof -
  obtain c c' where c: "hp_client s p = Some c" "cl_is_registered c" "toLower (cl_nickname c) = toLower nickname"
    and c': "hp_client s p' = Some c'" "toLower (cl_nickname c') = toLower nickname"
    using assms by (auto simp: bears_def)
  have "cl_nickname c \<noteq> []" using goodD(3) [OF assms(1)] c by (auto simp: inv_values_def ok_client_def)
  then show ?thesis using goodD(4) [OF assms(1)] c c' unfolding inv_nicks_def by metis
qed

lemma findClientByNickname_spec:
  assumes g: "good s"
  shows "\<exists>r. findClientByNickname nickname s = Some r \<and> (\<forall>p. r = Some p \<longleftrightarrow> bears nickname s p)"
proof -
  note wf = goodD(1) [OF g]
  have "\<forall>it \<in> set (sv_clients s). hp_client s (snd it) \<noteq> None"
    using client_entry [OF wf] by (metis option.distinct(1))
  from find_loop_spec [OF this, of nickname] obtain r where r: "find_loop nickname (sv_clients s) s = Some r"
    "case r of None \<Rightarrow> \<forall>it \<in> set (sv_clients s). \<not> bears nickname s (snd it)
      | Some p \<Rightarrow> p \<in> snd ` set (sv_clients s) \<and> bears nickname s p" by blast
  have "r = Some p \<longleftrightarrow> bears nickname s p" for p
  proof (cases r)
    case None
    have "\<not> bears nickname s p"
    proof
      assume b: "bears nickname s p"
      then obtain c where "hp_client s p = Some c" by (auto simp: bears_def)
      from client_listed [OF wf this] r(2) b show False using None by fastforce
    qed
    then show ?thesis using None by simp
  next
    case (Some p')
    then show ?thesis using r(2) bears_unique [OF g] by auto
  qed
  then show ?thesis using r(1) by (auto simp: findClientByNickname_def)
qed

lemma findChannel_spec:
  assumes "wf s"
  shows "findChannel name s = Some q \<longleftrightarrow> (\<exists>ch. hp_channel s q = Some ch \<and> toLower (ch_name ch) = toLower name)"
  using channel_key [OF wfD(2) [OF assms]] by (simp add: findChannel_def)

lemma findOrCreateChannel_eq:
  "findOrCreateChannel name s = (case findChannel name s of Some q \<Rightarrow> (q, s)
     | None \<Rightarrow> (ChPtr (hp_next s), with_new_channel (new_Channel name) s))"
  by (simp add: findOrCreateChannel_def findChannel_def toLower_idem new_channel_def with_new_channel_def
      set_channel_def new_Channel_def split: option.split)

section \<open>Deleting a channel\<close>

lemma map_live:
  assumes "\<And>x. h x \<noteq> None \<longleftrightarrow> x \<in> L"
  shows "(\<lambda>x. if x \<in> L then map_option f (h x) else h x) = (\<lambda>x. map_option f (h x))"
proof
  fix x show "(if x \<in> L then map_option f (h x) else h x) = map_option f (h x)"
    using assms [of x] by (cases "h x") auto
qed

lemma each_on_client:
  assumes "\<forall>it \<in> set es. hp_client s (snd it) \<noteq> None" and "\<And>c. f (f c) = f c"
  shows "each (\<lambda>it. on_client (snd it) f) es s =
     Some (s\<lparr>hp_client := (\<lambda>p. if p \<in> snd ` set es then map_option f (hp_client s p) else hp_client s p)\<rparr>)"
  using assms(1)
proof (induction es arbitrary: s)
  case (Cons it es)
  then obtain c where c: "hp_client s (snd it) = Some c" by auto
  have "each (\<lambda>it. on_client (snd it) f) (it # es) s = each (\<lambda>it. on_client (snd it) f) es (set_client (snd it) (f c) s)"
    using c by (simp add: heap_simps)
  also have "\<dots> = Some ((set_client (snd it) (f c) s)\<lparr>hp_client := (\<lambda>p. if p \<in> snd ` set es
      then map_option f (hp_client (set_client (snd it) (f c) s) p) else hp_client (set_client (snd it) (f c) s) p)\<rparr>)"
    using Cons.prems by (intro Cons.IH) auto
  finally show ?case using c assms(2) by (auto simp: set_client_def fun_eq_iff intro!: server.fold_congs(9))
qed simp

lemma each_on_channel:
  assumes "\<forall>q \<in> set qs. hp_channel s q \<noteq> None" and "\<And>ch. f (f ch) = f ch"
  shows "each (\<lambda>q. on_channel q f) qs s =
     Some (s\<lparr>hp_channel := (\<lambda>q. if q \<in> set qs then map_option f (hp_channel s q) else hp_channel s q)\<rparr>)"
  using assms(1)
proof (induction qs arbitrary: s)
  case (Cons q qs)
  then obtain ch where ch: "hp_channel s q = Some ch" by auto
  have "each (\<lambda>q. on_channel q f) (q # qs) s = each (\<lambda>q. on_channel q f) qs (set_channel q (f ch) s)"
    using ch by (simp add: heap_simps)
  also have "\<dots> = Some ((set_channel q (f ch) s)\<lparr>hp_channel := (\<lambda>q'. if q' \<in> set qs
      then map_option f (hp_channel (set_channel q (f ch) s) q') else hp_channel (set_channel q (f ch) s) q')\<rparr>)"
    using Cons.prems by (intro Cons.IH) auto
  finally show ?case using ch assms(2) by (auto simp: set_channel_def fun_eq_iff intro!: server.fold_congs(10))
qed simp

lemma live_listed: "wf s \<Longrightarrow> hp_client s p \<noteq> None \<longleftrightarrow> p \<in> snd ` set (sv_clients s)"
  using client_listed [of s p] client_entry [of s] by (cases "hp_client s p") force+

lemma deleteChannel_eq:
  assumes wf: "wf s" and q: "hp_channel s q = Some ch" and name: "toLower name = toLower (ch_name ch)"
  shows "deleteChannel name s = Some (without_channel (toLower (ch_name ch)) q s)"
proof -
  let ?s = "s\<lparr>sv_channels := omap_erase (toLower name) (sv_channels s)\<rparr>"
  have found: "map_of (sv_channels s) (toLower name) = Some q"
    using channel_key [OF wfD(2) [OF wf]] q name by auto
  have "clearInvitedUsers q ?s = Some (?s\<lparr>hp_client := (\<lambda>p. if p \<in> snd ` set (sv_clients s)
      then map_option (removeInvitedChannel q) (hp_client s p) else hp_client s p)\<rparr>)"
    unfolding clearInvitedUsers_def
    by (subst each_on_client)
      (use live_listed [OF wf] in \<open>simp_all add: removeInvitedChannel_def erase_remove_def cong: if_cong\<close>)
  moreover note map_live [of "hp_client s", OF live_listed [OF wf]]
  ultimately show ?thesis
    using q found name by (simp add: deleteChannel_def delete_channel_def without_channel_def)
qed

lemma deleteChannel_absent:
  "findChannel name s = None \<Longrightarrow> deleteChannel name s = Some s"
  by (simp add: deleteChannel_def findChannel_def)

section \<open>Broadcasts to the peers\<close>

definition peers :: "server \<Rightarrow> cptr \<Rightarrow> cptr set" where
  "peers s p = {p'. p' \<noteq> p \<and> (\<exists>q ch. hp_channel s q = Some ch \<and> p \<in> set (ch_members ch) \<and> p' \<in> set (ch_members ch))}"

lemma joined_live:
  assumes wf: "wf s" and p: "hp_client s p = Some c"
  shows "\<forall>q \<in> snd ` set (cl_joinedChannels c). hp_channel s q \<noteq> None"
    and "members_of s (cl_joinedChannels c) \<subseteq> live_clients s"
    and "members_of s (cl_joinedChannels c) - {p} = peers s p"
proof -
  note j = inv_joinedD [OF wfD(4) [OF wf] p]
  have joined: "q \<in> snd ` set (cl_joinedChannels c) \<longleftrightarrow> (\<exists>ch. hp_channel s q = Some ch \<and> p \<in> set (ch_members ch))" for q
  proof
    assume "q \<in> snd ` set (cl_joinedChannels c)"
    then obtain n where "map_of (cl_joinedChannels c) n = Some q"
      using omap_ok_find [OF j(1)] by auto
    then show "\<exists>ch. hp_channel s q = Some ch \<and> p \<in> set (ch_members ch)"
      unfolding j(2) by (auto simp: in_channel_def)
  next
    assume "\<exists>ch. hp_channel s q = Some ch \<and> p \<in> set (ch_members ch)"
    then obtain n where "in_channel s p n q" by (auto simp: in_channel_def)
    then have "(n, q) \<in> set (cl_joinedChannels c)" unfolding omap_ok_find [OF j(1)] j(2) .
    then show "q \<in> snd ` set (cl_joinedChannels c)" by force
  qed
  then show "\<forall>q \<in> snd ` set (cl_joinedChannels c). hp_channel s q \<noteq> None" by auto
  show "members_of s (cl_joinedChannels c) \<subseteq> live_clients s"
    using member_live [OF wf] by (auto simp: members_of_def)
  show "members_of s (cl_joinedChannels c) - {p} = peers s p"
    unfolding members_of_def peers_def Bex_def joined by fastforce
qed

lemma broadcastQuit_eq:
  assumes wf: "wf s" and p: "hp_client s p = Some c"
  shows "broadcastQuit p m s = Some (post (\<lambda>p'. if p' \<in> peers s p then [m] else []) s)"
proof -
  obtain n where "notify_channels m (cl_joinedChannels c) [(p, ())] s =
      Some (n, post (\<lambda>p'. if p' \<in> members_of s (cl_joinedChannels c) - fst ` set [(p, ())] then [m] else []) s)"
    using notify_channels_eq [OF joined_live(1,2) [OF wf p], of m "[(p, ())]"] by blast
  moreover have "members_of s (cl_joinedChannels c) - fst ` set [(p, ())] = peers s p"
    using joined_live(3) [OF wf p] by simp
  ultimately show ?thesis using p by (simp only: broadcastQuit_def oset_insert_def) simp
qed

lemma broadcastNickChange_eq:
  assumes wf: "wf s" and p: "hp_client s p = Some c"
  shows "broadcastNickChange p m s = Some (post (\<lambda>p'. if p' \<in> insert p (peers s p) then [m] else []) s)"
proof -
  let ?s = "post (to_one p [m]) s"
  have "peers ?s p = peers s p" by (simp add: peers_def)
  moreover have "then_out (to_one p [m]) (\<lambda>p'. if p' \<in> peers s p then [m] else []) =
      (\<lambda>p'. if p' \<in> insert p (peers s p) then [m] else [])"
    by (auto simp: then_out_def to_one_def fun_eq_iff peers_def)
  moreover have "broadcastNickChange p m s = broadcastQuit p m ?s"
    using p by (simp add: broadcastNickChange_def broadcastQuit_def heap_simps)
  ultimately show ?thesis
    using broadcastQuit_eq [of ?s p "emit [m] c" m] wf p by (simp add: post_post)
qed

section \<open>Leaving every channel\<close>

lemma left_channel_notin: "lists_ok ch \<Longrightarrow> p \<notin> set (ch_members ch) \<Longrightarrow> left_channel p ch = ch"
  by (subgoal_tac "p \<notin> set (ch_operators ch)") (auto simp: left_channel_def lists_ok_def)

definition quits :: "cptr \<Rightarrow> chptr set \<Rightarrow> server \<Rightarrow> chptr \<Rightarrow> channel option" where
  "quits p Q s = (\<lambda>q. if q \<in> Q then map_option (left_channel p) (hp_channel s q) else hp_channel s q)"

definition emptied_by :: "cptr \<Rightarrow> server \<Rightarrow> string \<times> chptr \<Rightarrow> bool" where
  "emptied_by p s it \<longleftrightarrow> (\<exists>ch. hp_channel s (snd it) = Some ch \<and> ch_members ch = [p])"

text \<open>One iteration for a channel the client is in; the other channels are not affected.\<close>

lemma quit_loop_step:
  assumes g: "good s" and p: "hp_client s p = Some c" and ch: "hp_channel s (snd it) = Some ch" "p \<in> set (ch_members ch)"
  shows "quit_loop p (it # chs) emptied s =
     quit_loop p chs (if emptied_by p s it then emptied @ [fst it] else emptied) (leave_state (snd it) ch p c s)"
proof -
  have "hp_channel (leave_state (snd it) ch p c s) (snd it) = Some (left_channel p ch)" by (simp add: leave_state_def)
  then show ?thesis
    using ch p good_channelD(2) [OF g ch(1)] removeQuitUser_eq [OF ch(1) p]
    by (auto simp: isEmpty_def left_channel_def emptied_by_def lists_ok_def erase_remove_Nil_iff)
qed

lemma emptied_by_others:
  assumes "q \<notin> snd ` set chs"
  shows "filter (emptied_by p (leave_state q ch p c s)) chs = filter (emptied_by p s) chs"
proof (rule filter_cong)
  fix x assume "x \<in> set chs"
  then have "snd x \<noteq> q" using assms by (metis imageI)
  then show "emptied_by p (leave_state q ch p c s) x = emptied_by p s x" by (simp add: emptied_by_def leave_state_def)
qed simp

lemma quit_loop_eq:
  assumes "good s" "hp_client s p = Some c" "\<forall>it \<in> set chs. hp_channel s (snd it) \<noteq> None" "distinct (map snd chs)"
  shows "\<exists>t j. quit_loop p chs emptied s = Some (emptied @ map fst (filter (emptied_by p s) chs), t) \<and> good t \<and>
     t = s\<lparr>hp_client := (hp_client s)(p \<mapsto> c\<lparr>cl_joinedChannels := j\<rparr>), hp_channel := quits p (snd ` set chs) s\<rparr>"
  using assms
proof (induction chs arbitrary: emptied s c)
  case Nil
  then have "s = s\<lparr>hp_client := (hp_client s)(p \<mapsto> c\<lparr>cl_joinedChannels := cl_joinedChannels c\<rparr>),
      hp_channel := quits p (snd ` set []) s\<rparr>" by (simp add: quits_def map_upd_triv)
  with Nil.prems(1) show ?case
    by (simp only: quit_loop.simps filter.simps list.map append_Nil2) blast
next
  case (Cons it chs)
  obtain ch where ch: "hp_channel s (snd it) = Some ch" using Cons.prems by auto
  note lists = good_channelD(2) [OF Cons.prems(1) ch]
  define u where "u = leave_state (snd it) ch p c s"
  show ?case
  proof (cases "p \<in> set (ch_members ch)")
    case False
    have "\<not> emptied_by p s it" using False ch by (auto simp: emptied_by_def)
    moreover have "quits p (snd ` set (it # chs)) s = quits p (snd ` set chs) s"
      using ch left_channel_notin [OF lists False] by (auto simp: quits_def fun_eq_iff)
    ultimately show ?thesis using Cons.IH [OF Cons.prems(1,2)] Cons.prems(3,4) False ch by simp
  next
    case True
    let ?c = "removeJoinedChannels (ch_name ch) c"
    have good: "good u" unfolding u_def by (rule good_leave_state [OF Cons.prems(1) ch Cons.prems(2)])
    have u: "hp_client u = (hp_client s)(p \<mapsto> ?c)" "hp_channel u = (hp_channel s)(snd it \<mapsto> left_channel p ch)"
      by (simp_all add: u_def leave_state_def)
    have fresh: "snd it \<notin> snd ` set chs" using Cons.prems(4) by simp
    have same: "filter (emptied_by p u) chs = filter (emptied_by p s) chs"
      unfolding u_def by (rule emptied_by_others [OF fresh])
    have step: "quit_loop p (it # chs) emptied s =
        quit_loop p chs (if emptied_by p s it then emptied @ [fst it] else emptied) u"
      unfolding u_def by (rule quit_loop_step [OF Cons.prems(1,2) ch True])
    obtain t j where loop: "quit_loop p chs (if emptied_by p s it then emptied @ [fst it] else emptied) u =
        Some ((if emptied_by p s it then emptied @ [fst it] else emptied) @ map fst (filter (emptied_by p u) chs), t)"
      "good t" and t: "t = u\<lparr>hp_client := (hp_client u)(p \<mapsto> ?c\<lparr>cl_joinedChannels := j\<rparr>), hp_channel := quits p (snd ` set chs) u\<rparr>"
    proof -
      have "\<forall>it \<in> set chs. hp_channel u (snd it) \<noteq> None" "hp_client u p = Some ?c" "distinct (map snd chs)"
        using Cons.prems(3,4) u by auto
      from Cons.IH [OF good this(2,1,3)] that show thesis by blast
    qed
    have "quits p (snd ` set chs) u = quits p (snd ` set (it # chs)) s"
      using u ch fresh by (auto simp: quits_def fun_eq_iff)
    then have "t = s\<lparr>hp_client := (hp_client s)(p \<mapsto> c\<lparr>cl_joinedChannels := j\<rparr>),
        hp_channel := quits p (snd ` set (it # chs)) s\<rparr>"
      unfolding t u by (simp add: u_def leave_state_def set_client_def set_channel_def removeJoinedChannels_def)
    moreover have "quit_loop p (it # chs) emptied s = Some (emptied @ map fst (filter (emptied_by p s) (it # chs)), t)"
      unfolding step loop(1) same by simp
    ultimately show ?thesis using loop(2) by blast
  qed
qed

text \<open>Deleting a list of empty channels\<close>

definition dies :: "string list \<Rightarrow> server \<Rightarrow> chptr \<Rightarrow> bool" where
  "dies ks s q \<longleftrightarrow> (\<exists>ch. hp_channel s q = Some ch \<and> toLower (ch_name ch) \<in> set ks)"

definition without_channels :: "string list \<Rightarrow> server \<Rightarrow> server" where
  "without_channels ks s = s\<lparr>hp_channel := (\<lambda>q. if dies ks s q then None else hp_channel s q),
     sv_channels := filter (\<lambda>e. fst e \<notin> set ks) (sv_channels s),
     hp_client := (\<lambda>p. map_option (\<lambda>c. c\<lparr>cl_invitedChannels := filter (\<lambda>q. \<not> dies ks s q) (cl_invitedChannels c)\<rparr>) (hp_client s p))\<rparr>"

lemma without_channels_Nil: "without_channels [] s = s"
proof -
  have "map_option (\<lambda>c. c\<lparr>cl_invitedChannels := cl_invitedChannels c\<rparr>) = (\<lambda>x. x :: client option)"
    by (simp add: fun_eq_iff option.map_ident)
  then show ?thesis by (simp add: without_channels_def dies_def)
qed

lemma without_channels_Cons:
  assumes wf: "wf s" and q: "hp_channel s q = Some ch"
  shows "without_channels ks (without_channel (toLower (ch_name ch)) q s) = without_channels (toLower (ch_name ch) # ks) s"
    (is "without_channels ks ?u = _")
proof -
  have uniq: "q' = q" if "hp_channel s q' = Some ch'" "toLower (ch_name ch') = toLower (ch_name ch)" for q' ch'
    using channel_unique [OF wfD(2) [OF wf] that(1) q that(2)] .
  have dies: "dies (toLower (ch_name ch) # ks) s q' \<longleftrightarrow> q' = q \<or> dies ks ?u q'" for q'
    using q by (auto simp: dies_def without_channel_def dest: uniq)
  have "filter (\<lambda>q'. \<not> dies ks ?u q') (erase_remove q qs) = filter (\<lambda>q'. \<not> (q' = q \<or> dies ks ?u q')) qs" for qs
    by (auto simp: erase_remove_def intro: filter_cong)
  then show ?thesis
    unfolding without_channels_def dies
    by (auto simp: without_channel_def removeInvitedChannel_def omap_erase_def fun_eq_iff option.map_comp o_def
        intro!: server.equality filter_cong)
qed

lemma each_deleteChannel:
  assumes "good s" and "\<forall>k \<in> set ks. \<exists>q ch. hp_channel s q = Some ch \<and> toLower (ch_name ch) = k \<and> ch_members ch = []"
    and "distinct ks"
  shows "each deleteChannel ks s = Some (without_channels ks s) \<and> good (without_channels ks s)"
  using assms
proof (induction ks arbitrary: s)
  case Nil
  then show ?case by (simp add: without_channels_Nil)
next
  case (Cons k ks)
  obtain q ch where q: "hp_channel s q = Some ch" "toLower (ch_name ch) = k" "ch_members ch = []"
    using Cons.prems(2) by auto
  let ?u = "without_channel (toLower (ch_name ch)) q s"
  note wf = goodD(1) [OF Cons.prems(1)]
  have "toLower k = toLower (ch_name ch)" using q(2) by auto
  then have del: "deleteChannel k s = Some ?u" by (rule deleteChannel_eq [OF wf q(1)])
  have good: "good ?u" by (rule good_delete_channel [OF Cons.prems(1) q(1,3)])
  have "\<forall>k' \<in> set ks. \<exists>q' ch'. hp_channel ?u q' = Some ch' \<and> toLower (ch_name ch') = k' \<and> ch_members ch' = []"
  proof
    fix k' assume k': "k' \<in> set ks"
    then obtain q' ch' where q': "hp_channel s q' = Some ch'" "toLower (ch_name ch') = k'" "ch_members ch' = []"
      using Cons.prems(2) by auto
    then have "q' \<noteq> q" using q Cons.prems(3) k' by auto
    then show "\<exists>q' ch'. hp_channel ?u q' = Some ch' \<and> toLower (ch_name ch') = k' \<and> ch_members ch' = []"
      using q' by (auto simp: without_channel_def)
  qed
  from Cons.IH [OF good this] Cons.prems(3) show ?case
    using del without_channels_Cons [OF wf q(1)] q(2) by simp
qed

section \<open>Removing a client\<close>

definition lonely :: "cptr \<Rightarrow> server \<Rightarrow> chptr \<Rightarrow> bool" where
  "lonely p s q \<longleftrightarrow> (\<exists>ch. hp_channel s q = Some ch \<and> ch_members ch = [p])"

text \<open>What the others keep: the quit notice for the peers, and only the invitations to surviving channels.\<close>

definition survivor :: "cptr \<Rightarrow> string list \<Rightarrow> server \<Rightarrow> cptr \<Rightarrow> client \<Rightarrow> client" where
  "survivor p notice s p' c = emit (if p' \<in> peers s p then notice else [])
     (c\<lparr>cl_invitedChannels := filter (\<lambda>q. \<not> lonely p s q) (cl_invitedChannels c)\<rparr>)"

definition surviving_channels :: "cptr \<Rightarrow> server \<Rightarrow> chptr \<Rightarrow> channel option" where
  "surviving_channels p s q = (if lonely p s q then None
     else map_option (\<lambda>ch. removeMemberfromInvitedUsers p (left_channel p ch)) (hp_channel s q))"

definition quit_notice :: "client \<Rightarrow> string \<Rightarrow> string list" where
  "quit_notice c reason = (if cl_is_registered c then [makeCommand c ''QUIT'' ('':'' @ reason)] else [])"

lemma channel_listed:
  assumes "wf s"
  shows "hp_channel s q \<noteq> None \<longleftrightarrow> q \<in> snd ` set (sv_channels s)"
    and "distinct (map snd (sv_channels s))"
proof -
  note i = wfD(2) [OF assms]
  have ok: "omap_ok (sv_channels s)" using i by (simp add: inv_channels_def)
  have entry: "(k, q) \<in> set (sv_channels s) \<longleftrightarrow> (\<exists>ch. hp_channel s q = Some ch \<and> toLower (ch_name ch) = k)" for k q
    using channel_key [OF i] omap_ok_find [OF ok] by simp
  then show "hp_channel s q \<noteq> None \<longleftrightarrow> q \<in> snd ` set (sv_channels s)" by (force simp: image_iff)
  have "inj_on snd (set (sv_channels s))"
  proof (rule inj_onI)
    fix x y assume "x \<in> set (sv_channels s)" "y \<in> set (sv_channels s)" "snd x = snd y"
    then show "x = y" by (metis entry option.sel prod.collapse)
  qed
  then show "distinct (map snd (sv_channels s))"
    using omap_ok_distinct [OF ok] by (simp add: distinct_map)
qed

lemma leave_invitations:
  assumes wf: "wf u" and p: "hp_client u p = Some c"
  shows "each (\<lambda>q. on_channel q (removeMemberfromInvitedUsers p)) (cl_invitedChannels c) u =
     Some (u\<lparr>hp_channel := (\<lambda>q. map_option (removeMemberfromInvitedUsers p) (hp_channel u q))\<rparr>)"
proof -
  note i = inv_invitedD(2) [OF wfD(5) [OF wf] p]
  have "(\<lambda>q. if q \<in> set (cl_invitedChannels c) then map_option (removeMemberfromInvitedUsers p) (hp_channel u q)
      else hp_channel u q) = (\<lambda>q. map_option (removeMemberfromInvitedUsers p) (hp_channel u q))"
  proof
    fix q show "(if q \<in> set (cl_invitedChannels c) then map_option (removeMemberfromInvitedUsers p) (hp_channel u q)
        else hp_channel u q) = map_option (removeMemberfromInvitedUsers p) (hp_channel u q)"
      using i [of q] by (cases "hp_channel u q") (auto simp: invited_in_def removeMemberfromInvitedUsers_def)
  qed
  moreover have "\<forall>q \<in> set (cl_invitedChannels c). hp_channel u q \<noteq> None"
    using i by (auto simp: invited_in_def)
  ultimately show ?thesis
    by (subst each_on_channel) (simp_all add: removeMemberfromInvitedUsers_def erase_remove_def)
qed

text \<open>The loop over all channels and the deletion of those it empties\<close>

lemma quit_loop_all:
  assumes g: "good s" and p: "hp_client s p = Some c"
  shows "\<exists>ks t j. quit_loop p (sv_channels s) [] s = Some (ks, t) \<and> good t \<and> distinct ks \<and>
     t = s\<lparr>hp_client := (hp_client s)(p \<mapsto> c\<lparr>cl_joinedChannels := j\<rparr>),
           hp_channel := (\<lambda>q. map_option (left_channel p) (hp_channel s q))\<rparr> \<and>
     (\<forall>k. k \<in> set ks \<longleftrightarrow> (\<exists>q ch. hp_channel s q = Some ch \<and> toLower (ch_name ch) = k \<and> ch_members ch = [p]))"
proof -
  note wf = goodD(1) [OF g]
  note listed = channel_listed(1) [OF wf]
  define ks where "ks = map fst (filter (emptied_by p s) (sv_channels s))"
  have ok: "omap_ok (sv_channels s)" using wfD(2) [OF wf] by (simp add: inv_channels_def)
  obtain t j where loop: "quit_loop p (sv_channels s) [] s = Some (ks, t)" "good t"
    and t: "t = s\<lparr>hp_client := (hp_client s)(p \<mapsto> c\<lparr>cl_joinedChannels := j\<rparr>), hp_channel := quits p (snd ` set (sv_channels s)) s\<rparr>"
    using quit_loop_eq [OF g p, of "sv_channels s" "[]"] channel_listed [OF wf] unfolding ks_def by auto
  have "quits p (snd ` set (sv_channels s)) s = (\<lambda>q. map_option (left_channel p) (hp_channel s q))"
    using map_live [of "hp_channel s", OF listed] by (simp add: quits_def)
  note t [unfolded this]
  moreover have "k \<in> set ks \<longleftrightarrow> (\<exists>q ch. hp_channel s q = Some ch \<and> toLower (ch_name ch) = k \<and> ch_members ch = [p])" for k
  proof -
    have "k \<in> set ks \<longleftrightarrow> (\<exists>q. (k, q) \<in> set (sv_channels s) \<and> emptied_by p s (k, q))"
      by (force simp: ks_def)
    then show ?thesis
      unfolding omap_ok_find [OF ok] channel_key [OF wfD(2) [OF wf]] emptied_by_def snd_conv by (metis option.inject)
  qed
  moreover have "distinct ks"
    using omap_ok_distinct [OF ok] by (simp add: ks_def distinct_map_filter)
  ultimately show ?thesis using loop by blast
qed

lemma quit_and_delete:
  assumes g: "good s" and p: "hp_client s p = Some c"
  shows "\<exists>ks t u j. quit_loop p (sv_channels s) [] s = Some (ks, t) \<and> each deleteChannel ks t = Some u \<and> good u \<and>
     hp_channel u = (\<lambda>q. if lonely p s q then None else map_option (left_channel p) (hp_channel s q)) \<and>
     hp_client u = (\<lambda>p'. map_option (\<lambda>d. d\<lparr>cl_invitedChannels := filter (\<lambda>q. \<not> lonely p s q) (cl_invitedChannels d)\<rparr>)
       (((hp_client s)(p \<mapsto> c\<lparr>cl_joinedChannels := j\<rparr>)) p')) \<and>
     u = s\<lparr>hp_channel := hp_channel u, hp_client := hp_client u, sv_channels := sv_channels u\<rparr>"
proof -
  obtain ks t j where loop: "quit_loop p (sv_channels s) [] s = Some (ks, t)" "good t" "distinct ks"
    and t: "t = s\<lparr>hp_client := (hp_client s)(p \<mapsto> c\<lparr>cl_joinedChannels := j\<rparr>),
           hp_channel := (\<lambda>q. map_option (left_channel p) (hp_channel s q))\<rparr>"
    and ks: "\<And>k. k \<in> set ks \<longleftrightarrow> (\<exists>q ch. hp_channel s q = Some ch \<and> toLower (ch_name ch) = k \<and> ch_members ch = [p])"
    using quit_loop_all [OF g p] by blast
  have dies: "dies ks t q \<longleftrightarrow> lonely p s q" for q
  proof -
    have "dies ks t q \<longleftrightarrow> (\<exists>ch. hp_channel s q = Some ch \<and> toLower (ch_name ch) \<in> set ks)"
      by (auto simp: dies_def t left_channel_def)
    also have "\<dots> \<longleftrightarrow> lonely p s q"
      unfolding ks lonely_def by (metis channel_unique [OF wfD(2) [OF goodD(1) [OF g]]] option.sel)
    finally show ?thesis .
  qed
  have "\<forall>k \<in> set ks. \<exists>q ch. hp_channel t q = Some ch \<and> toLower (ch_name ch) = k \<and> ch_members ch = []"
  proof
    fix k assume "k \<in> set ks"
    then obtain q ch where "hp_channel s q = Some ch" "toLower (ch_name ch) = k" "ch_members ch = [p]" unfolding ks by blast
    then show "\<exists>q ch. hp_channel t q = Some ch \<and> toLower (ch_name ch) = k \<and> ch_members ch = []"
      by (intro exI [of _ q] exI [of _ "left_channel p ch"]) (simp add: t left_channel_def erase_remove_def)
  qed
  from each_deleteChannel [OF loop(2) this loop(3)]
  have "each deleteChannel ks t = Some (without_channels ks t)" "good (without_channels ks t)" by auto
  moreover have "hp_channel (without_channels ks t) = (\<lambda>q. if lonely p s q then None else map_option (left_channel p) (hp_channel s q))"
    unfolding without_channels_def dies by (simp add: t cong: if_cong)
  moreover have "hp_client (without_channels ks t) = (\<lambda>p'. map_option (\<lambda>d. d\<lparr>cl_invitedChannels :=
      filter (\<lambda>q. \<not> lonely p s q) (cl_invitedChannels d)\<rparr>) (((hp_client s)(p \<mapsto> c\<lparr>cl_joinedChannels := j\<rparr>)) p'))"
    unfolding without_channels_def dies by (simp add: t)
  moreover have "without_channels ks t = s\<lparr>hp_channel := hp_channel (without_channels ks t),
      hp_client := hp_client (without_channels ks t), sv_channels := sv_channels (without_channels ks t)\<rparr>"
    by (simp add: without_channels_def t)
  ultimately show ?thesis using loop(1) by blast
qed

lemma removeClientFromAllChannels_eq:
  assumes g: "good s" and p: "hp_client s p = Some c"
  shows "\<exists>u c'. removeClientFromAllChannels p reason s =
       Some (u\<lparr>hp_channel := (\<lambda>q. map_option (removeMemberfromInvitedUsers p) (hp_channel u q))\<rparr>) \<and> good u \<and>
     hp_client u = (\<lambda>p'. if p' = p then Some c' else map_option (survivor p (quit_notice c reason) s p') (hp_client s p')) \<and>
     cl_fd c' = cl_fd c \<and>
     hp_channel u = (\<lambda>q. if lonely p s q then None else map_option (left_channel p) (hp_channel s q)) \<and>
     u = s\<lparr>hp_channel := hp_channel u, hp_client := hp_client u, sv_channels := sv_channels u\<rparr>"
proof -
  define out where "out = (\<lambda>p'. if p' \<in> peers s p then quit_notice c reason else [])"
  define s1 where "s1 = post out s"
  let ?c = "emit (out p) c"
  have s1: "(if cl_is_registered c then broadcastQuit p (makeCommand c ''QUIT'' ('':'' @ reason)) s else Some s) = Some s1"
    using broadcastQuit_eq [OF goodD(1) [OF g] p] by (simp add: s1_def out_def quit_notice_def post_none cong: if_cong)
  have g1: "good s1" and p1: "hp_client s1 p = Some ?c" using g p by (simp_all add: s1_def)
  have lonely: "lonely p s1 = lonely p s" by (simp add: fun_eq_iff lonely_def s1_def)
  obtain ks t u j where loop: "quit_loop p (sv_channels s1) [] s1 = Some (ks, t)" "each deleteChannel ks t = Some u"
    and gu: "good u" and u: "hp_channel u = (\<lambda>q. if lonely p s q then None else map_option (left_channel p) (hp_channel s1 q))"
      "hp_client u = (\<lambda>p'. map_option (\<lambda>d. d\<lparr>cl_invitedChannels := filter (\<lambda>q. \<not> lonely p s q) (cl_invitedChannels d)\<rparr>)
        (((hp_client s1)(p \<mapsto> ?c\<lparr>cl_joinedChannels := j\<rparr>)) p'))"
      "u = s1\<lparr>hp_channel := hp_channel u, hp_client := hp_client u, sv_channels := sv_channels u\<rparr>"
    using quit_and_delete [OF g1 p1] unfolding lonely by blast
  define c' where "c' = ?c\<lparr>cl_joinedChannels := j, cl_invitedChannels := filter (\<lambda>q. \<not> lonely p s q) (cl_invitedChannels c)\<rparr>"
  have clu: "hp_client u = (\<lambda>p'. if p' = p then Some c' else map_option (survivor p (quit_notice c reason) s p') (hp_client s p'))"
    unfolding u(2)
    by (auto simp: s1_def out_def c'_def survivor_def fun_eq_iff option.map_comp o_def emit_def intro: option.map_cong)
  have "each (\<lambda>q. on_channel q (removeMemberfromInvitedUsers p)) (cl_invitedChannels c') u =
      Some (u\<lparr>hp_channel := (\<lambda>q. map_option (removeMemberfromInvitedUsers p) (hp_channel u q))\<rparr>)"
    by (rule leave_invitations [OF goodD(1) [OF gu]]) (simp add: clu)
  then have "removeClientFromAllChannels p reason s =
      Some (u\<lparr>hp_channel := (\<lambda>q. map_option (removeMemberfromInvitedUsers p) (hp_channel u q))\<rparr>)"
    using p clu by (simp add: removeClientFromAllChannels_def s1 loop)
  moreover have "cl_fd c' = cl_fd c" by (simp add: c'_def)
  moreover have "u = s\<lparr>hp_channel := hp_channel u, hp_client := hp_client u, sv_channels := sv_channels u\<rparr>"
    using u(3) by (simp add: s1_def post_def)
  moreover have "hp_channel u = (\<lambda>q. if lonely p s q then None else map_option (left_channel p) (hp_channel s q))"
    using u(1) by (simp only: s1_def post_fields)
  ultimately show ?thesis using gu clu by blast
qed

section \<open>Disconnection\<close>

lemma set_poll_erase: "distinct (map pf_fd es) \<Longrightarrow> pf_fd ` set (poll_erase fd es) = pf_fd ` set es - {fd}"
proof (induction es)
  case (Cons e es)
  then show ?case by (cases "pf_fd e = fd") (simp_all add: insert_Diff_if)
qed simp

lemma distinct_poll_erase: "distinct (map pf_fd es) \<Longrightarrow> distinct (map pf_fd (poll_erase fd es))"
proof (induction es)
  case (Cons e es)
  then show ?case by (cases "pf_fd e = fd") (simp_all add: set_poll_erase)
qed simp

lemma listen_eq: "listen_events ev s = (if sv_poll_fds s = [] then None
     else Some (s\<lparr>sv_poll_fds := (hd (sv_poll_fds s))\<lparr>pf_events := ev\<rparr> # tl (sv_poll_fds s)\<rparr>))"
  by (simp add: listen_events_def split: list.split)

lemma inv_poll_listen:
  "inv_poll s \<Longrightarrow> inv_poll (s\<lparr>sv_poll_fds := (hd (sv_poll_fds s))\<lparr>pf_events := ev\<rparr> # tl (sv_poll_fds s)\<rparr>)"
  by (cases "sv_poll_fds s") (simp_all add: inv_poll_def, metis)

lemma keys_omap_erase: "fst ` set (omap_erase k m) = fst ` set m - {k}"
  by auto

lemma inv_poll_erase:
  assumes "inv_poll s" "fd \<in> fst ` set (sv_clients s)" "sv_clients t = omap_erase fd (sv_clients s)"
    "sv_poll_fds t = poll_erase fd (sv_poll_fds s)" "sv_server_fd t = sv_server_fd s"
  shows "inv_poll t"
proof (cases "sv_poll_fds s")
  case (Cons e es)
  then have "pf_fd e \<notin> pf_fd ` set es" "pf_fd ` set es = fst ` set (sv_clients s)"
    using assms(1) by (simp_all add: inv_poll_def) metis
  then have "pf_fd e \<noteq> fd" using assms(2) by metis
  then have "sv_poll_fds t = e # poll_erase fd es" using Cons assms(4) by simp
  then show ?thesis
    using Cons assms by (simp add: inv_poll_def set_poll_erase distinct_poll_erase keys_omap_erase del: set_omap_erase) metis
qed (use assms in \<open>simp add: inv_poll_def\<close>)

lemma good_listen_events:
  assumes "good s"
  shows "returns (listen_events ev s) (\<lambda>t. good t \<and> hp_client t = hp_client s \<and> hp_channel t = hp_channel s)"
proof -
  have ne: "sv_poll_fds s \<noteq> []" using goodD(7) [OF assms] by (simp add: inv_poll_def)
  have "good (s\<lparr>sv_poll_fds := (hd (sv_poll_fds s))\<lparr>pf_events := ev\<rparr> # tl (sv_poll_fds s)\<rparr>)"
    by (rule good_reschedule [OF assms])
      (use goodD(6) [OF assms] inv_poll_listen [OF goodD(7) [OF assms]] in \<open>simp_all add: inv_sched_def\<close>)
  then show ?thesis using ne by (simp add: listen_eq)
qed

text \<open>The state after the client at \<open>p\<close> with descriptor \<open>fd\<close> is gone\<close>

definition gone :: "cptr \<Rightarrow> int \<Rightarrow> string list \<Rightarrow> server \<Rightarrow> server \<Rightarrow> bool" where
  "gone p fd notice s t \<longleftrightarrow>
     hp_client t = (\<lambda>p'. if p' = p then None else map_option (survivor p notice s p') (hp_client s p')) \<and>
     hp_channel t = surviving_channels p s \<and>
     sv_clients t = omap_erase fd (sv_clients s) \<and>
     sv_closing t = omap_erase fd (sv_closing s) \<and>
     sv_to_disconnected t = sv_to_disconnected s \<and> hp_next t = hp_next s"

lemma omap_erase_absent: "map_of m k = None \<Longrightarrow> omap_erase k m = m"
  by (auto simp: omap_erase_def map_of_eq_None_iff intro!: filter_True)

lemma invitation_fields [simp]:
  "ok_channel (removeMemberfromInvitedUsers p ch) \<longleftrightarrow> ok_channel ch"
  "ch_members (removeMemberfromInvitedUsers p ch) = ch_members ch"
  by (simp_all add: removeMemberfromInvitedUsers_def ok_channel_def)

text \<open>Deleting a client that is in no channel and not scheduled, and taking its socket out of the poll set\<close>

definition unpolled :: "cptr \<Rightarrow> int \<Rightarrow> server \<Rightarrow> server" where
  "unpolled p fd u = (without_client p fd u)\<lparr>sv_poll_fds := poll_erase fd (sv_poll_fds u)\<rparr>"

lemma good_unpolled:
  assumes g: "good u" and p: "hp_client u p = Some c" "cl_fd c = fd" and fd: "fd \<in> fst ` set (sv_clients u)"
    and out: "\<And>q ch. hp_channel u q = Some ch \<Longrightarrow> p \<notin> set (ch_members ch)"
    and unscheduled: "fd \<notin> fst ` set (sv_to_disconnected u)" "fd \<notin> fst ` set (sv_closing u)"
  shows "good (unpolled p fd u)"
proof -
  have "wf (without_client p fd u)" using wf_delete_client [OF goodD(1) [OF g] p(1) out] p(2) by simp
  then have "wf (unpolled p fd u)" by (subst wf_cong [where s = "without_client p fd u"]) (simp_all add: unpolled_def)
  moreover have "vals (unpolled p fd u)"
  proof (rule vals_shrink [OF goodD(2) [OF g]])
    show "inv_sched (unpolled p fd u)"
      using goodD(6) [OF g] unscheduled
      by (simp add: inv_sched_def unpolled_def without_client_def keys_omap_erase del: set_omap_erase) blast
    show "inv_poll (unpolled p fd u)"
      by (rule inv_poll_erase [OF goodD(7) [OF g] fd]) (simp_all add: unpolled_def without_client_def)
    show "ok_channel ch' \<and> (\<exists>ch. hp_channel u q = Some ch \<and> set (ch_members ch') \<subseteq> set (ch_members ch))"
      if ch': "hp_channel (unpolled p fd u) q = Some ch'" for q ch'
    proof -
      obtain ch where "hp_channel u q = Some ch" "ch' = removeMemberfromInvitedUsers p ch"
        using ch' by (auto simp: unpolled_def without_client_def)
      then show ?thesis using goodD(3) [OF g] by (auto simp: inv_values_def)
    qed
  qed (auto simp: unpolled_def without_client_def split: if_splits)
  ultimately show ?thesis by (simp add: good_def)
qed

lemma disconnect_gone:
  assumes g: "good s" and fd: "map_of (sv_clients s) fd = Some p" and p: "hp_client s p = Some c"
    and unmarked: "fd \<notin> fst ` set (sv_to_disconnected s)"
  shows "\<exists>t. disconnect fd reason s = Some t \<and> good t \<and>
     gone p fd (quit_notice c (case map_of (sv_closing s) fd of Some r \<Rightarrow> r | None \<Rightarrow> reason)) s t"
proof -
  define cause where "cause = (case map_of (sv_closing s) fd of Some r \<Rightarrow> r | None \<Rightarrow> reason)"
  define s0 where "s0 = s\<lparr>sv_closing := omap_erase fd (sv_closing s)\<rparr>"
  have "inv_sched s0" using goodD(6) [OF g] by (auto simp: s0_def inv_sched_def)
  then have g0: "good s0"
    by (intro good_reschedule [OF g]) (use goodD(7) [OF g] in \<open>simp_all add: s0_def inv_poll_def\<close>)
  have p0: "hp_client s0 p = Some c" and cfd: "cl_fd c = fd"
    using p fd wfD(1) [OF goodD(1) [OF g]] by (auto simp: s0_def inv_clients_def)
  have same: "lonely p s0 = lonely p s" "peers s0 p = peers s p"
    by (auto simp: s0_def lonely_def peers_def fun_eq_iff)
  then have kept: "survivor p n s0 = survivor p n s" for n
    by (simp add: fun_eq_iff survivor_def)
  obtain u c' where rm: "removeClientFromAllChannels p cause s0 =
       Some (u\<lparr>hp_channel := (\<lambda>q. map_option (removeMemberfromInvitedUsers p) (hp_channel u q))\<rparr>)" and gu: "good u"
    and u: "hp_client u = (\<lambda>p'. if p' = p then Some c' else map_option (survivor p (quit_notice c cause) s0 p') (hp_client s0 p'))"
      "cl_fd c' = cl_fd c" "hp_channel u = (\<lambda>q. if lonely p s0 q then None else map_option (left_channel p) (hp_channel s0 q))"
      "u = s0\<lparr>hp_channel := hp_channel u, hp_client := hp_client u, sv_channels := sv_channels u\<rparr>"
    using removeClientFromAllChannels_eq [OF g0 p0] by blast
  define w where "w = unpolled p fd u"
  have flds: "sv_clients u = sv_clients s" "sv_to_disconnected u = sv_to_disconnected s" "sv_poll_fds u = sv_poll_fds s"
    "sv_server_fd u = sv_server_fd s" "sv_closing u = omap_erase fd (sv_closing s)" "hp_next u = hp_next s"
    by (subst u(4), simp add: s0_def)+
  have hp: "hp_client u p = Some c'" by (simp add: u(1))
  have gw: "good w" unfolding w_def
  proof (rule good_unpolled [OF gu hp])
    show "fd \<in> fst ` set (sv_clients u)" using fd flds(1) map_of_SomeD by force
    show "p \<notin> set (ch_members ch)" if "hp_channel u q = Some ch" for q ch
      using that by (auto simp: u(3) left_channel_def split: if_splits)
    show "fd \<notin> fst ` set (sv_closing u)" unfolding flds(5) by auto
  qed (use u(2) cfd unmarked flds(2) in simp_all)
  have "w = u\<lparr>hp_channel := (\<lambda>q. map_option (removeMemberfromInvitedUsers p) (hp_channel u q)), hp_client := (hp_client u)(p := None),
      sv_clients := omap_erase fd (sv_clients s), sv_poll_fds := poll_erase fd (sv_poll_fds u)\<rparr>"
    by (rule server.equality) (simp_all add: w_def unpolled_def without_client_def flds)
  then have "disconnect fd reason s = listen_events {POLLIN} w"
    using rm hp fd flds(1) omap_erase_absent [of "sv_closing s" fd]
    by (cases "map_of (sv_closing s) fd") (simp_all add: disconnect_def cause_def s0_def delete_client_def)
  moreover have "gone p fd (quit_notice c cause) s w"
    using u(1,3) flds unfolding same kept
    by (auto simp: gone_def w_def unpolled_def without_client_def s0_def surviving_channels_def fun_eq_iff option.map_comp o_def)
  ultimately show ?thesis
    using good_listen_events [OF gw, of "{POLLIN}"] by (auto simp: listen_eq gone_def cause_def split: if_splits)
qed

text \<open>No channel is left empty, and nothing points to the client any more.\<close>

lemma gone_populated:
  assumes g: "good s" and t: "gone p fd notice s t" and pop: "populated s"
  shows "populated t"
  unfolding populated_but_def
proof (intro allI impI; elim conjE)
  fix q ch' assume "hp_channel t q = Some ch'"
  then obtain ch where ch: "hp_channel s q = Some ch" "ch_members ch \<noteq> [p]" "ch' = removeMemberfromInvitedUsers p (left_channel p ch)"
    using t by (auto simp: gone_def surviving_channels_def lonely_def split: if_splits)
  moreover have "ch_members ch \<noteq> []" using pop ch by (auto simp: populated_but_def)
  moreover have "distinct (ch_members ch)" using good_channelD(2) [OF g ch(1)] by (simp add: lists_ok_def)
  ultimately show "ch_members ch' \<noteq> []" by (simp add: left_channel_def erase_remove_Nil_iff)
qed

lemma gone_clients: "gone p fd notice s t \<Longrightarrow> fst ` set (sv_clients t) = fst ` set (sv_clients s) - {fd}"
  by (simp add: gone_def keys_omap_erase del: set_omap_erase)

lemma connected_client:
  assumes "wf s" "fd \<in> fst ` set (sv_clients s)"
  obtains p c where "map_of (sv_clients s) fd = Some p" "hp_client s p = Some c" "cl_fd c = fd"
proof -
  obtain p where "map_of (sv_clients s) fd = Some p"
    using assms(2) by (metis dom_map_of_conv_image_fst domD)
  moreover from this obtain c where "hp_client s p = Some c" "cl_fd c = fd"
    using wfD(1) [OF assms(1)] by (auto simp: inv_clients_def)
  ultimately show thesis by (rule that)
qed

lemma each_disconnect:
  assumes "good s" "sv_to_disconnected s = []" "distinct (map fst targets)" "fst ` set targets \<subseteq> fst ` set (sv_clients s)"
  shows "returns (each (\<lambda>it. disconnect (fst it) (snd it)) targets s)
     (\<lambda>t. good t \<and> sv_to_disconnected t = [] \<and> fst ` set (sv_clients t) = fst ` set (sv_clients s) - fst ` set targets \<and>
        (populated s \<longrightarrow> populated t))"
  using assms
proof (induction targets arbitrary: s)
  case (Cons it targets)
  have "fst it \<in> fst ` set (sv_clients s)" using Cons.prems(4) by simp
  then obtain p c where p: "map_of (sv_clients s) (fst it) = Some p" "hp_client s p = Some c"
    by (rule connected_client [OF goodD(1) [OF Cons.prems(1)]])
  then obtain u notice where u: "disconnect (fst it) (snd it) s = Some u" "good u" "gone p (fst it) notice s u"
    using disconnect_gone [OF Cons.prems(1)] Cons.prems(2) by fastforce
  have clients: "fst ` set (sv_clients u) = fst ` set (sv_clients s) - {fst it}" using gone_clients [OF u(3)] .
  have "sv_to_disconnected u = []" using u(3) Cons.prems(2) by (simp add: gone_def)
  moreover have "fst ` set targets \<subseteq> fst ` set (sv_clients u)"
    unfolding clients using Cons.prems(3,4) by (simp add: subset_Diff_insert)
  ultimately have "returns (each (\<lambda>it. disconnect (fst it) (snd it)) targets u)
     (\<lambda>t. good t \<and> sv_to_disconnected t = [] \<and> fst ` set (sv_clients t) = fst ` set (sv_clients u) - fst ` set targets \<and>
        (populated u \<longrightarrow> populated t))"
    using Cons.IH [OF u(2)] Cons.prems(3) by simp
  then have "returns (each (\<lambda>it. disconnect (fst it) (snd it)) targets u)
     (\<lambda>t. good t \<and> sv_to_disconnected t = [] \<and> fst ` set (sv_clients t) = fst ` set (sv_clients s) - fst ` set (it # targets) \<and>
        (populated s \<longrightarrow> populated t))"
    by (rule returns_mono) (use clients gone_populated [OF Cons.prems(1) u(3)] in \<open>auto simp: Diff_insert2 [symmetric]\<close>)
  then show ?case using u(1) by simp
qed simp

lemma cleanupDisconnected_removes:
  assumes g: "good s"
  shows "returns (cleanupDisconnected s) (\<lambda>t. good t \<and> sv_to_disconnected t = [] \<and>
     fst ` set (sv_clients t) = fst ` set (sv_clients s) - fst ` set (sv_to_disconnected s) \<and> (populated s \<longrightarrow> populated t))"
proof -
  let ?s = "s\<lparr>sv_to_disconnected := []\<rparr>"
  note sched = goodD(6) [OF g, unfolded inv_sched_def]
  have "good ?s"
    by (rule good_reschedule [OF g]) (use sched goodD(7) [OF g] in \<open>simp_all add: inv_sched_def inv_poll_def\<close>)
  moreover have "distinct (map fst (sv_to_disconnected s))" using sched omap_ok_distinct by auto
  moreover have "populated ?s \<longleftrightarrow> populated s" by (simp add: populated_but_def)
  ultimately show ?thesis using each_disconnect [of ?s "sv_to_disconnected s"] sched by (simp add: cleanupDisconnected_def)
qed

section \<open>Scheduling\<close>

lemma markForDisconnection_good:
  assumes g: "good s" and fd: "fd \<in> fst ` set (sv_clients s)"
  shows "good (markForDisconnection fd reason s)"
proof -
  have "inv_sched (markForDisconnection fd reason s)" "inv_poll (markForDisconnection fd reason s)"
    using goodD(6,7) [OF g] fd by (auto simp: inv_sched_def inv_poll_def markForDisconnection_def)
  then show ?thesis by (intro good_reschedule [OF g]) (simp_all add: markForDisconnection_def)
qed

lemma mark_fields [simp]:
  "hp_client (markForDisconnection fd r s) = hp_client s" "hp_channel (markForDisconnection fd r s) = hp_channel s"
  "sv_clients (markForDisconnection fd r s) = sv_clients s" "sv_closing (markForDisconnection fd r s) = sv_closing s"
  "sv_poll_fds (markForDisconnection fd r s) = sv_poll_fds s" "sv_server_fd (markForDisconnection fd r s) = sv_server_fd s"
  "sv_password (markForDisconnection fd r s) = sv_password s"
  by (simp_all add: markForDisconnection_def)

lemma disconnectAfterFlush_eq:
  assumes p: "hp_client s p = Some c"
  shows "disconnectAfterFlush now p reason s =
     Some ((set_client p (markClosing now (emit [''ERROR :Closing Link: '' @ cl_ip c @ '' ('' @ reason @ '')''] c)) s)
        \<lparr>sv_closing := omap_put (cl_fd c) reason (sv_closing s)\<rparr>)"
  using p by (simp add: disconnectAfterFlush_def on_client_def sendReply_emit set_client_def)

lemma disconnectAfterFlush_good:
  assumes g: "good s" and p: "hp_client s p = Some c"
  shows "returns (disconnectAfterFlush now p reason s) (\<lambda>t. good t \<and> (populated s \<longrightarrow> populated t))"
proof -
  let ?c = "markClosing now (emit [''ERROR :Closing Link: '' @ cl_ip c @ '' ('' @ reason @ '')''] c)"
  let ?u = "set_client p ?c s" and ?t = "(set_client p ?c s)\<lparr>sv_closing := omap_put (cl_fd c) reason (sv_closing s)\<rparr>"
  have same: "cl_fd ?c = cl_fd c" "cl_joinedChannels ?c = cl_joinedChannels c" "cl_invitedChannels ?c = cl_invitedChannels c"
    "cl_nickname ?c = cl_nickname c" "cl_username ?c = cl_username c"
    "cl_is_registered ?c = cl_is_registered c" "cl_is_password_verified ?c = cl_is_password_verified c"
    by (simp_all add: markClosing_def)
  have gu: "good ?u"
    using wf_set_client [OF goodD(1) [OF g] p same(1-3)] vals_set_client_links [OF goodD(2) [OF g] p same(4-7)]
    by (simp add: good_def)
  have "(cl_fd c, p) \<in> set (sv_clients s)" by (rule client_listed [OF goodD(1) [OF g] p])
  then have "cl_fd c \<in> fst ` set (sv_clients s)" by force
  then have "inv_sched ?t" "inv_poll ?t"
    using goodD(6,7) [OF gu] by (simp_all add: inv_sched_def inv_poll_def)
  then have "good ?t" by (intro good_reschedule [OF gu]) simp_all
  moreover have "populated s \<longrightarrow> populated ?t" by (simp add: populated_but_def)
  ultimately show ?thesis unfolding disconnectAfterFlush_eq [OF p] by simp
qed

end
