(* ===== verification/Irc_Commands.thy ===== *)
theory Irc_Commands
  imports Irc_Server
begin

text \<open>
  The commands of \<open>common/commandlist/\<close>: one definition for the \<open>execute\<close> method of each class, and the
  virtual methods of \<open>ICommand\<close> as functions on the classes. What they keep is in \<open>Irc_Contract\<close>.
\<close>

section \<open>Helpers\<close>

text \<open>A call of \<open>client.sendReply\<close>\<close>

definition reply :: "cptr \<Rightarrow> string \<Rightarrow> server \<Rightarrow> server option" where
  "reply p m s = on_client p (sendReply m) s"

definition handlePersonalPrivmsg :: "cptr \<Rightarrow> cptr \<Rightarrow> string \<Rightarrow> server \<Rightarrow> server option" where
  "handlePersonalPrivmsg sender recipient message s = do {
     c \<leftarrow> hp_client s sender;
     r \<leftarrow> hp_client s recipient;
     reply recipient (makeCommand c ''PRIVMSG'' (cl_nickname r @ '' :'' @ message)) s }"

definition nickNotice :: "string \<Rightarrow> string \<Rightarrow> string \<Rightarrow> string \<Rightarrow> string" where
  "nickNotice old newer user host = '':'' @ old @ ''!'' @ user @ ''@'' @ host @ '' NICK :'' @ newer"

section \<open>Registration: NICK, PASS, USER, PING, PONG, QUIT\<close>

definition Nick_execute :: "int \<Rightarrow> cptr \<Rightarrow> message \<Rightarrow> server \<Rightarrow> server option" where
  "Nick_execute now client msg s = do {
     let params = m_parameter msg;
     c \<leftarrow> hp_client s client;
     if params = [] \<or> params ! 0 = [] then
       reply client (formatReply ERR_NONICKNAMEGIVEN (targetname c) ''No nickname given'') s
     else do {
       let wasRegistered = cl_is_registered c;
       let oldNickname = cl_nickname c;
       let newNickname = params ! 0;
       if \<not> isValidNickname newNickname then
         reply client (formatReplyWithParameter ERR_ERRONEUSNICKNAME (targetname c) newNickname ''Erroneous nickname'') s
       else do {
         taken \<leftarrow> isNicknameTaken newNickname client s;
         if taken then
           reply client (formatReplyWithParameter ERR_NICKNAMEINUSE (targetname c) newNickname ''Nickname is already in use'') s
         else do {
           s \<leftarrow> on_client client (setNickname newNickname) s;
           if wasRegistered then
             (if oldNickname = newNickname then Some s
              else broadcastNickChange client (nickNotice oldNickname newNickname (cl_username c) (cl_ip c)) s)
           else do {
             s \<leftarrow> on_client client tryCompleteRegistration s;
             c \<leftarrow> hp_client s client;
             if isMissingPassword c then do {
               s \<leftarrow> reply client (formatReply ERR_PASSWDMISMATCH ''*'' ''Password incorrect'') s;
               disconnectClient now client ''Bad Password'' s }
             else Some s } } } } }"

definition Pass_execute :: "int \<Rightarrow> cptr \<Rightarrow> message \<Rightarrow> server \<Rightarrow> server option" where
  "Pass_execute now client msg s = do {
     let params = m_parameter msg;
     c \<leftarrow> hp_client s client;
     if params = [] \<or> params ! 0 = [] then
       reply client (formatReplyWithParameter ERR_NEEDMOREPARAMS_s (targetname c) ''PASS'' ''Not enough parameters'') s
     else if cl_is_registered c then
       reply client (formatReply ERR_ALREADYREGISTERED (targetname c) ''You may not reregister'') s
     else do {
       s \<leftarrow> on_client client (setPasswordVerified (checkPassword (params ! 0) s)) s;
       on_client client tryCompleteRegistration s } }"

definition User_execute :: "int \<Rightarrow> cptr \<Rightarrow> message \<Rightarrow> server \<Rightarrow> server option" where
  "User_execute now client msg s = do {
     let params = m_parameter msg;
     c \<leftarrow> hp_client s client;
     if length params < 4 \<or> params ! 0 = [] then
       reply client (formatReplyWithParameter ERR_NEEDMOREPARAMS_s (targetname c) ''USER'' ''Not enough parameters'') s
     else if cl_is_registered c then
       reply client (formatReply ERR_ALREADYREGISTERED (targetname c) ''You may not reregister'') s
     else if str_find (params ! 0) CHR ''@'' 0 \<noteq> None then
       reply client (formatReplyWithParameter ERR_NEEDMOREPARAMS_s (targetname c) ''USER'' ''Not enough parameters'') s
     else do {
       s \<leftarrow> on_client client (setUsername (params ! 0)) s;
       s \<leftarrow> on_client client (setRealname (params ! 3)) s;
       s \<leftarrow> on_client client tryCompleteRegistration s;
       c \<leftarrow> hp_client s client;
       if isMissingPassword c then do {
         s \<leftarrow> reply client (formatReply ERR_PASSWDMISMATCH ''*'' ''Password incorrect'') s;
         disconnectClient now client ''Bad Password'' s }
       else Some s } }"

definition Ping_execute :: "int \<Rightarrow> cptr \<Rightarrow> message \<Rightarrow> server \<Rightarrow> server option" where
  "Ping_execute now client msg s = do {
     let params = m_parameter msg;
     c \<leftarrow> hp_client s client;
     if params = [] \<or> params ! 0 = [] then
       reply client (formatReply ERR_NOORIGIN (targetname c) ''No origin specified'') s
     else reply client ('':ircserv PONG ircserv :'' @ params ! 0) s }"

definition Pong_execute :: "int \<Rightarrow> cptr \<Rightarrow> message \<Rightarrow> server \<Rightarrow> server option" where
  "Pong_execute now client msg s = on_client client (updateLastActivity now) s"

definition Quit_execute :: "int \<Rightarrow> cptr \<Rightarrow> message \<Rightarrow> server \<Rightarrow> server option" where
  "Quit_execute now client msg s =
     (let params = m_parameter msg;
          reason = (if params \<noteq> [] \<and> params ! 0 \<noteq> [] then params ! 0 else ''Client Quit'')
      in disconnectClient now client reason s)"

section \<open>Channels: INVITE, JOIN, KICK, PART, PRIVMSG, TOPIC\<close>

definition Invite_execute :: "int \<Rightarrow> cptr \<Rightarrow> message \<Rightarrow> server \<Rightarrow> server option" where
  "Invite_execute now client msg s = do {
     let params = m_parameter msg;
     c \<leftarrow> hp_client s client;
     let target = (if cl_is_registered c then cl_nickname c else ''*'');
     if length params < 2 then
       reply client (makeReply ERR_NEEDMOREPARAMS target ''INVITE :Not enough parameters'') s
     else do {
       targetClient \<leftarrow> findClientByNickname (params ! 0) s;
       case targetClient of
         None \<Rightarrow> reply client (makeReply ERR_NOSUCHNICK target (params ! 0 @ '' :No such nick/channel'')) s
       | Some t \<Rightarrow>
           (case findChannel (params ! 1) s of
              None \<Rightarrow> reply client (makeReply ERR_NOSUCHCHANNEL target (params ! 1 @ '' :No such channel'')) s
            | Some channel \<Rightarrow> handleInvite channel client t s) } }"

text \<open>The loop of \<open>JOIN 0\<close> runs over a copy of the joined channels.\<close>

definition part_step :: "cptr \<Rightarrow> string \<times> chptr \<Rightarrow> server \<Rightarrow> server option" where
  "part_step client it s = do {
     s \<leftarrow> handlePart (snd it) client [] s;
     ch \<leftarrow> hp_channel s (snd it);
     if isEmpty ch then deleteChannel (fst it) s else Some s }"

definition Join_execute :: "int \<Rightarrow> cptr \<Rightarrow> message \<Rightarrow> server \<Rightarrow> server option" where
  "Join_execute now client msg s = do {
     let params = m_parameter msg;
     c \<leftarrow> hp_client s client;
     let target = (if cl_is_registered c then cl_nickname c else ''*'');
     if length params < 1 then
       reply client (makeReply ERR_NEEDMOREPARAMS target ''JOIN :Not enough parameters'') s
     else if params ! 0 = ''0'' then each (part_step client) (cl_joinedChannels c) s
     else if \<not> isValidChannelName (params ! 0) then
       reply client (makeReply ERR_BADCHANMASK target (params ! 0 @ '' :Bad Channel Mask'')) s
     else
       (let (channel, s) = findOrCreateChannel (params ! 0) s;
            key = (if length params > 1 then params ! 1 else [])
        in handleJoin channel client key s) }"

definition Kick_execute :: "int \<Rightarrow> cptr \<Rightarrow> message \<Rightarrow> server \<Rightarrow> server option" where
  "Kick_execute now client msg s = do {
     let params = m_parameter msg;
     c \<leftarrow> hp_client s client;
     let target = (if cl_is_registered c then cl_nickname c else ''*'');
     if length params < 2 then
       reply client (makeReply ERR_NEEDMOREPARAMS target ''KICK :Not enough parameters'') s
     else case findChannel (params ! 0) s of
       None \<Rightarrow> reply client (makeReply ERR_NOSUCHCHANNEL target (params ! 0 @ '' :No such channel'')) s
     | Some channel \<Rightarrow> do {
         targetClient \<leftarrow> findClientByNickname (params ! 1) s;
         case targetClient of
           None \<Rightarrow> do {
             ch \<leftarrow> hp_channel s channel;
             if \<not> isMember ch client then
               reply client (makeReply ERR_NOTONCHANNEL target (ch_name ch @ '' :You're not on that channel'')) s
             else if \<not> isOperator ch client then
               reply client (makeReply ERR_CHANOPRIVSNEEDED target (ch_name ch @ '' :You're not channel operator'')) s
             else
               reply client (makeReply ERR_USERNOTINCHANNEL target
                 (params ! 1 @ '' '' @ params ! 0 @ '' :They aren't on that channel'')) s }
         | Some t \<Rightarrow> do {
             let comment = (if length params \<ge> 3 then params ! 2 else []);
             s \<leftarrow> handleKick channel client t comment s;
             ch \<leftarrow> hp_channel s channel;
             if isEmpty ch then deleteChannel (params ! 0) s else Some s } } }"

definition Part_execute :: "int \<Rightarrow> cptr \<Rightarrow> message \<Rightarrow> server \<Rightarrow> server option" where
  "Part_execute now client msg s = do {
     let params = m_parameter msg;
     c \<leftarrow> hp_client s client;
     if length params < 1 then
       reply client (makeReply ERR_NEEDMOREPARAMS (targetname c) ''PART :Not enough parameters'') s
     else case findChannel (params ! 0) s of
       None \<Rightarrow> reply client (makeReply ERR_NOSUCHCHANNEL (targetname c) (params ! 0 @ '' :No such channel'')) s
     | Some channel \<Rightarrow> do {
         let comment = (if length params \<ge> 2 then params ! 1 else []);
         s \<leftarrow> handlePart channel client comment s;
         ch \<leftarrow> hp_channel s channel;
         if isEmpty ch then deleteChannel (params ! 0) s else Some s } }"

definition Privmsg_execute :: "int \<Rightarrow> cptr \<Rightarrow> message \<Rightarrow> server \<Rightarrow> server option" where
  "Privmsg_execute now client msg s = do {
     let params = m_parameter msg;
     c \<leftarrow> hp_client s client;
     let target = (if cl_is_registered c then cl_nickname c else ''*'');
     if length params < 1 \<or> params ! 0 = [] then
       reply client (makeReply ERR_NORECIPIENT target '':No recipient given (PRIVMSG)'') s
     else if length params < 2 \<or> params ! 1 = [] then
       reply client (makeReply ERR_NOTEXTTOSEND target '':No text to send'') s
     else
       (case findChannel (params ! 0) s of
          None \<Rightarrow> do {
            recipient \<leftarrow> findClientByNickname (params ! 0) s;
            case recipient of
              None \<Rightarrow> reply client (makeReply ERR_NOSUCHNICK target (params ! 0 @ '' :No such nick/channel'')) s
            | Some r \<Rightarrow> handlePersonalPrivmsg client r (params ! 1) s }
        | Some channel \<Rightarrow> handleChannelPrivmsg channel client (params ! 1) s) }"

definition Topic_execute :: "int \<Rightarrow> cptr \<Rightarrow> message \<Rightarrow> server \<Rightarrow> server option" where
  "Topic_execute now client msg s = do {
     let params = m_parameter msg;
     c \<leftarrow> hp_client s client;
     let target = (if cl_is_registered c then cl_nickname c else ''*'');
     if length params < 1 then
       reply client (makeReply ERR_NEEDMOREPARAMS target ''TOPIC :Not enough parameters'') s
     else case findChannel (params ! 0) s of
       None \<Rightarrow> reply client (makeReply ERR_NOSUCHCHANNEL target (params ! 0 @ '' :No such channel'')) s
     | Some channel \<Rightarrow>
         (if length params \<ge> 2 then handleTopic channel client (params ! 1) True s
          else handleTopic channel client [] False s) }"

section \<open>MODE\<close>

text \<open>The local variables of the loop of \<open>Mode::execute\<close>\<close>

record mode_exec =
  me_paramIndex :: nat
  me_paramModeCount :: nat
  me_enable :: bool
  me_filteredModes :: string
  me_filteredParams :: "string list"
  me_lastAppliedSign :: char

definition mode_exec0 :: mode_exec where
  "mode_exec0 = \<lparr>me_paramIndex = 0, me_paramModeCount = 0, me_enable = True, me_filteredModes = [],
     me_filteredParams = [], me_lastAppliedSign = NUL\<rparr>"

text \<open>The part of an iteration after the parameter has been consumed\<close>

definition mode_exec_apply :: "chptr \<Rightarrow> cptr \<Rightarrow> string \<Rightarrow> char \<Rightarrow> string \<Rightarrow> bool \<Rightarrow> mode_exec \<times> server \<Rightarrow> (mode_exec \<times> server) option" where
  "mode_exec_apply channel client targetName c param hasParam st = (case st of (l, s) \<Rightarrow>
     if (c = CHR ''o'' \<or> c = CHR ''k'' \<or> c = CHR ''l'') \<and> me_paramModeCount l \<ge> 3 then Some (l, s)
     else do {
       let l = (if c = CHR ''o'' \<or> c = CHR ''k'' \<or> c = CHR ''l''
                then l\<lparr>me_paramModeCount := me_paramModeCount l + 1\<rparr> else l);
       if c = CHR ''o'' then do {
         target \<leftarrow> findClientByNickname param s;
         s \<leftarrow> (case target of
                 Some t \<Rightarrow> handleModeOperator channel (me_enable l) t client s
               | None \<Rightarrow> do {
                   ch \<leftarrow> hp_channel s channel;
                   reply client (makeReply ERR_USERNOTINCHANNEL targetName
                     (param @ '' '' @ ch_name ch @ '' :They aren't on that channel'')) s });
         Some (l, s) }
       else do {
         let sign = (if me_enable l then CHR ''+'' else CHR ''-'');
         let l = (if sign \<noteq> me_lastAppliedSign l
                  then l\<lparr>me_filteredModes := me_filteredModes l @ [sign], me_lastAppliedSign := sign\<rparr> else l);
         let l = l\<lparr>me_filteredModes := me_filteredModes l @ [c]\<rparr>;
         let l = (if me_enable l \<and> hasParam \<and> (c = CHR ''k'' \<or> c = CHR ''l'')
                  then l\<lparr>me_filteredParams := me_filteredParams l @ [param]\<rparr> else l);
         Some (l, s) } })"

definition mode_exec_step :: "chptr \<Rightarrow> cptr \<Rightarrow> string \<Rightarrow> string list \<Rightarrow> char \<Rightarrow> mode_exec \<times> server \<Rightarrow> (mode_exec \<times> server) option" where
  "mode_exec_step channel client targetName modeParams c st = (case st of (l, s) \<Rightarrow>
     if c = CHR ''+'' then Some (l\<lparr>me_enable := True\<rparr>, s)
     else if c = CHR ''-'' then Some (l\<lparr>me_enable := False\<rparr>, s)
     else if c \<noteq> CHR ''o'' \<and> c \<noteq> CHR ''i'' \<and> c \<noteq> CHR ''t'' \<and> c \<noteq> CHR ''k'' \<and> c \<noteq> CHR ''l'' then do {
       ch \<leftarrow> hp_channel s channel;
       s \<leftarrow> reply client (makeReply ERR_UNKNOWNMODE targetName
             ([c] @ '' :is unknown mode char to me for '' @ ch_name ch)) s;
       Some (l, s) }
     else do {
       let takesParam = (c = CHR ''o'' \<or> c = CHR ''k'' \<or> c = CHR ''l'' \<and> me_enable l);
       let requiresParam = (c = CHR ''o'' \<or> me_enable l \<and> (c = CHR ''k'' \<or> c = CHR ''l''));
       if takesParam \<and> me_paramIndex l < length modeParams then
         mode_exec_apply channel client targetName c (modeParams ! me_paramIndex l) True
           (l\<lparr>me_paramIndex := me_paramIndex l + 1\<rparr>, s)
       else if takesParam \<and> requiresParam then do {
         s \<leftarrow> reply client (makeReply ERR_NEEDMOREPARAMS targetName ''MODE :Not enough parameters'') s;
         Some (l, s) }
       else mode_exec_apply channel client targetName c [] False (l, s) })"

definition Mode_execute :: "int \<Rightarrow> cptr \<Rightarrow> message \<Rightarrow> server \<Rightarrow> server option" where
  "Mode_execute now client msg s = do {
     let params = m_parameter msg;
     c \<leftarrow> hp_client s client;
     let targetName = (if cl_is_registered c then cl_nickname c else ''*'');
     if length params < 1 \<or> params ! 0 = [] then
       reply client (makeReply ERR_NEEDMOREPARAMS targetName ''MODE :Not enough parameters'') s
     else if hd (params ! 0) \<noteq> CHR ''#'' \<and> hd (params ! 0) \<noteq> CHR ''&'' then Some s
     else case findChannel (params ! 0) s of
       None \<Rightarrow> reply client (makeReply ERR_NOSUCHCHANNEL targetName (params ! 0 @ '' :No such channel'')) s
     | Some channel \<Rightarrow> do {
         let modes = (if length params > 1 then params ! 1 else []);
         let modeParams = (if length params > 1 then drop 2 params else []);
         ch \<leftarrow> hp_channel s channel;
         if modes = [] then handleMode channel client modes modeParams s
         else if \<not> isOperator ch client then
           reply client (makeReply ERR_CHANOPRIVSNEEDED targetName (ch_name ch @ '' :You're not channel operator'')) s
         else if hd modes \<noteq> CHR ''+'' \<and> hd modes \<noteq> CHR ''-'' then
           reply client (makeReply ERR_UNKNOWNMODE targetName
             ([hd modes] @ '' :is unknown mode char to me for '' @ ch_name ch)) s
         else do {
           (l, s) \<leftarrow> each (mode_exec_step channel client targetName modeParams) modes (mode_exec0, s);
           if me_filteredModes l \<noteq> [] then
             handleMode channel client (me_filteredModes l) (me_filteredParams l) s
           else Some s } } }"

section \<open>The command objects\<close>

text \<open>One constructor per class; a virtual call is a case distinction.\<close>

datatype command = Nick | Pass | Ping | Pong | Quit | User | Invite | Join | Kick | Mode | Part | Privmsg | Topic

text \<open>\<open>needLogin\<close> of each class, and the virtual call\<close>

definition Nick_needLogin :: bool where [simp]: "Nick_needLogin \<longleftrightarrow> False"
definition Pass_needLogin :: bool where [simp]: "Pass_needLogin \<longleftrightarrow> False"
definition Ping_needLogin :: bool where [simp]: "Ping_needLogin \<longleftrightarrow> False"
definition Pong_needLogin :: bool where [simp]: "Pong_needLogin \<longleftrightarrow> False"
definition Quit_needLogin :: bool where [simp]: "Quit_needLogin \<longleftrightarrow> False"
definition User_needLogin :: bool where [simp]: "User_needLogin \<longleftrightarrow> False"
definition Invite_needLogin :: bool where [simp]: "Invite_needLogin \<longleftrightarrow> True"
definition Join_needLogin :: bool where [simp]: "Join_needLogin \<longleftrightarrow> True"
definition Kick_needLogin :: bool where [simp]: "Kick_needLogin \<longleftrightarrow> True"
definition Mode_needLogin :: bool where [simp]: "Mode_needLogin \<longleftrightarrow> True"
definition Part_needLogin :: bool where [simp]: "Part_needLogin \<longleftrightarrow> True"
definition Privmsg_needLogin :: bool where [simp]: "Privmsg_needLogin \<longleftrightarrow> True"
definition Topic_needLogin :: bool where [simp]: "Topic_needLogin \<longleftrightarrow> True"

fun needLogin :: "command \<Rightarrow> bool" where
  "needLogin Nick = Nick_needLogin"
| "needLogin Pass = Pass_needLogin"
| "needLogin Ping = Ping_needLogin"
| "needLogin Pong = Pong_needLogin"
| "needLogin Quit = Quit_needLogin"
| "needLogin User = User_needLogin"
| "needLogin Invite = Invite_needLogin"
| "needLogin Join = Join_needLogin"
| "needLogin Kick = Kick_needLogin"
| "needLogin Mode = Mode_needLogin"
| "needLogin Part = Part_needLogin"
| "needLogin Privmsg = Privmsg_needLogin"
| "needLogin Topic = Topic_needLogin"

fun execute :: "command \<Rightarrow> int \<Rightarrow> cptr \<Rightarrow> message \<Rightarrow> server \<Rightarrow> server option" where
  "execute Nick = Nick_execute"
| "execute Pass = Pass_execute"
| "execute Ping = Ping_execute"
| "execute Pong = Pong_execute"
| "execute Quit = Quit_execute"
| "execute User = User_execute"
| "execute Invite = Invite_execute"
| "execute Join = Join_execute"
| "execute Kick = Kick_execute"
| "execute Mode = Mode_execute"
| "execute Part = Part_execute"
| "execute Privmsg = Privmsg_execute"
| "execute Topic = Topic_execute"

end
