(* ===== verification/Irc_Contract.thy ===== *)
theory Irc_Contract
  imports Irc_Commands
begin

text \<open>
  The contract of \<open>ICommand\<close>: on a sound state a command does not fault, keeps the state sound and leaves the
  network side of the server alone. It is a locale, interpreted on all the commands.
\<close>

section \<open>What every command keeps\<close>

definition sound :: "server \<Rightarrow> bool" where
  "sound s \<longleftrightarrow> good s \<and> populated s"

lemma soundD: "sound s \<Longrightarrow> good s" "sound s \<Longrightarrow> populated s" "sound s \<Longrightarrow> wf s"
  by (simp_all add: sound_def good_def)

text \<open>The clients, their input and the network side of the server are not a command's business.\<close>

definition registered_at :: "cptr \<Rightarrow> server \<Rightarrow> bool" where
  "registered_at p s \<longleftrightarrow> (\<exists>c. hp_client s p = Some c \<and> cl_is_registered c)"

lemma ex_map_option: "(\<exists>c. (\<exists>z. m = Some z \<and> f z = c) \<and> P c) \<longleftrightarrow> (\<exists>z. m = Some z \<and> P (f z))"
  by auto

definition verified_at :: "cptr \<Rightarrow> server \<Rightarrow> bool" where
  "verified_at p s \<longleftrightarrow> (\<exists>c. hp_client s p = Some c \<and> cl_is_password_verified c)"

text \<open>
  What a command may do to a client: it is on the same connection, and its output grows by whole frames. It never touches
  the output that is already there.
\<close>

definition tied :: "client \<Rightarrow> client \<Rightarrow> bool" where
  "tied c c' \<longleftrightarrow> cl_fd c' = cl_fd c \<and> cl_connectedAt c' = cl_connectedAt c \<and>
     (\<exists>ms. cl_write_buffer c' = cl_write_buffer c @ frames ms)"

lemma no_frames [simp]: "\<exists>ms. frames ms = []"
  by (rule exI [of _ "[]"]) simp

lemma tied_refl [simp]: "tied c c"
  by (simp add: tied_def)

lemma tied_trans: "tied a b \<Longrightarrow> tied b c \<Longrightarrow> tied a c"
  unfolding tied_def by (metis append.assoc frames_append)

lemma tied_emit [simp]: "tied c (emit ms c)"
  by (auto simp: tied_def)

text \<open>How a client is known to the others: its nickname, and whether it is registered\<close>

definition known :: "server \<Rightarrow> cptr \<Rightarrow> (string \<times> bool) option" where
  "known s p = map_option (\<lambda>c. (cl_nickname c, cl_is_registered c)) (hp_client s p)"

lemma known_cong: "hp_client t = hp_client s \<Longrightarrow> known t = known s"
  by (simp add: known_def fun_eq_iff)

lemma known_update [simp]: "known (s\<lparr>sv_closing := m\<rparr>) = known s"
  by (rule known_cong) simp

lemma known_fields [simp]: "known (set_channel q ch s) = known s"
  "known (set_client p c s) = (known s)(p \<mapsto> (cl_nickname c, cl_is_registered c))" "known (post out s) = known s"
  by (simp_all add: known_def fun_eq_iff option.map_comp o_def)

text \<open>Only the clients in \<open>V\<close> may become verified, or be known as somebody else: under another nickname, or registered.\<close>

datatype grant = Verify cptr | Identify cptr string

definition frame_but :: "grant set \<Rightarrow> server \<Rightarrow> server \<Rightarrow> bool" where
  "frame_but V s t \<longleftrightarrow> sv_clients t = sv_clients s \<and> sv_to_disconnected t = sv_to_disconnected s \<and> sv_poll_fds t = sv_poll_fds s \<and>
     sv_server_fd t = sv_server_fd s \<and> sv_password t = sv_password s \<and>
     (\<forall>p. map_option cl_read_buffer (hp_client t p) = map_option cl_read_buffer (hp_client s p)) \<and>
     (\<forall>p. rel_option tied (hp_client s p) (hp_client t p)) \<and>
     fst ` set (sv_closing s) \<subseteq> fst ` set (sv_closing t) \<and> hp_next s \<le> hp_next t \<and>
     (\<forall>p. registered_at p s \<longrightarrow> registered_at p t) \<and> (\<forall>p. verified_at p t \<longrightarrow> verified_at p s \<or> Verify p \<in> V) \<and>
     (\<forall>p. known t p = known s p \<or> (\<exists>n r. known t p = Some (n, r) \<and> Identify p n \<in> V))"

abbreviation frame :: "server \<Rightarrow> server \<Rightarrow> bool" where
  "frame \<equiv> frame_but {}"

lemmas frame_defs = frame_but_def registered_at_def verified_at_def

lemma frame_refl [simp]: "frame_but V s s"
  by (simp add: frame_but_def option.rel_refl)

lemma rel_tied_trans: "rel_option tied a b \<Longrightarrow> rel_option tied b c \<Longrightarrow> rel_option tied a c"
  by (cases a; cases b; cases c) (auto intro: tied_trans)

lemma frameD:
  assumes "frame_but V s t"
  shows "sv_clients t = sv_clients s" "sv_to_disconnected t = sv_to_disconnected s" "sv_poll_fds t = sv_poll_fds s"
    "sv_server_fd t = sv_server_fd s" "sv_password t = sv_password s"
    "\<And>p. map_option cl_read_buffer (hp_client t p) = map_option cl_read_buffer (hp_client s p)"
    "\<And>p. rel_option tied (hp_client s p) (hp_client t p)"
    "fst ` set (sv_closing s) \<subseteq> fst ` set (sv_closing t)" "hp_next s \<le> hp_next t"
    "\<And>p. registered_at p s \<Longrightarrow> registered_at p t" "\<And>p. verified_at p t \<Longrightarrow> verified_at p s \<or> Verify p \<in> V"
    "\<And>p. known t p = known s p \<or> (\<exists>n r. known t p = Some (n, r) \<and> Identify p n \<in> V)"
  using assms unfolding frame_but_def by (elim conjE; simp)+

lemma frame_trans:
  assumes "frame_but V s t" "frame_but V t u"
  shows "frame_but V s u"
proof -
  note st = frameD [OF assms(1)] and tu = frameD [OF assms(2)]
  have "verified_at p u \<Longrightarrow> verified_at p s \<or> Verify p \<in> V" "known u p = known s p \<or> (\<exists>n r. known u p = Some (n, r) \<and> Identify p n \<in> V)" for p
    using st(11,12) tu(11,12) by metis+
  then show ?thesis
    using st(10) tu(10) st(1-6) tu(1-6) rel_tied_trans [OF st(7) tu(7)] subset_trans [OF st(8) tu(8)] le_trans [OF st(9) tu(9)]
    by (simp add: frame_but_def)
qed

lemma frame_weaken: "frame_but V s t \<Longrightarrow> V \<subseteq> V' \<Longrightarrow> frame_but V' s t"
  unfolding frame_but_def by blast

lemma frame_output: "frame_but V t (post out t)"
  by (auto simp: frame_defs option.map_comp o_def ex_map_option option.rel_map intro!: option.rel_refl_strong)

lemma frame_post [simp]: "frame_but V s t \<Longrightarrow> frame_but V s (post out t)"
  using frame_trans frame_output by blast

lemma frame_set_channel [simp]: "frame_but V s (set_channel q ch t) \<longleftrightarrow> frame_but V s t"
  by (simp add: frame_defs)

lemma frame_set_client_self:
  "hp_client t p = Some c \<Longrightarrow> cl_read_buffer c' = cl_read_buffer c \<Longrightarrow> tied c c' \<Longrightarrow>
     (cl_is_registered c \<Longrightarrow> cl_is_registered c') \<Longrightarrow>
     (cl_is_password_verified c' \<Longrightarrow> cl_is_password_verified c \<or> Verify p \<in> V) \<Longrightarrow>
     cl_nickname c' = cl_nickname c \<and> cl_is_registered c' = cl_is_registered c \<or> Identify p (cl_nickname c') \<in> V \<Longrightarrow> frame_but V t (set_client p c' t)"
  by (auto simp: frame_defs known_def intro: option.rel_refl)

lemma frame_set_client:
  "hp_client t p = Some c \<Longrightarrow> cl_read_buffer c' = cl_read_buffer c \<Longrightarrow> tied c c' \<Longrightarrow> (cl_is_registered c \<Longrightarrow> cl_is_registered c') \<Longrightarrow>
     (cl_is_password_verified c' \<Longrightarrow> cl_is_password_verified c \<or> Verify p \<in> V) \<Longrightarrow>
     cl_nickname c' = cl_nickname c \<and> cl_is_registered c' = cl_is_registered c \<or> Identify p (cl_nickname c') \<in> V \<Longrightarrow> frame_but V s t \<Longrightarrow>
     frame_but V s (set_client p c' t)"
  using frame_trans frame_set_client_self by blast

lemma frame_live: "frame_but V s t \<Longrightarrow> hp_client s p \<noteq> None \<longleftrightarrow> hp_client t p \<noteq> None"
  unfolding frame_but_def by (metis option.map_disc_iff)

lemma frame_client:
  assumes "frame_but V s t" "hp_client s p = Some c"
  obtains c' where "hp_client t p = Some c'" "cl_read_buffer c' = cl_read_buffer c"
proof -
  have "map_option cl_read_buffer (hp_client t p) = Some (cl_read_buffer c)" using assms by (simp add: frame_but_def)
  then show thesis using that by auto
qed

definition keeps_but :: "grant set \<Rightarrow> server \<Rightarrow> server \<Rightarrow> bool" where
  "keeps_but V s t \<longleftrightarrow> sound t \<and> frame_but V s t"

abbreviation keeps :: "server \<Rightarrow> server \<Rightarrow> bool" where
  "keeps \<equiv> keeps_but {}"

lemma keeps_client: "keeps_but V s t \<Longrightarrow> hp_client s p = Some c \<Longrightarrow> \<exists>c'. hp_client t p = Some c'"
  using frame_live [of V s t p] by (auto simp: keeps_but_def)

lemma keeps_refl: "sound s \<Longrightarrow> keeps_but V s s"
  by (simp add: keeps_but_def)

lemma keeps_trans: "keeps_but V s t \<Longrightarrow> keeps_but V t u \<Longrightarrow> keeps_but V s u"
  using frame_trans by (auto simp: keeps_but_def)

lemma keeps_weaken: "keeps_but V s t \<Longrightarrow> V \<subseteq> V' \<Longrightarrow> keeps_but V' s t"
  using frame_weaken by (auto simp: keeps_but_def)

lemma keeps_post [simp]: "keeps_but V s t \<Longrightarrow> keeps_but V s (post out t)"
  by (simp add: keeps_but_def sound_def)

lemma returns_keeps_trans:
  assumes "returns m (keeps s)" "\<And>t. keeps s t \<Longrightarrow> returns (f t) (keeps t)"
  shows "returns (Option.bind m f) (keeps s)"
proof -
  have "returns m (\<lambda>t. returns (f t) (keeps s))"
    by (rule returns_mono [OF assms(1)], rule returns_mono [OF assms(2)]) (auto intro: keeps_trans)
  then show ?thesis by simp
qed

lemma populated_set_client [simp]: "populated_but Q (set_client p c s) \<longleftrightarrow> populated_but Q s"
  by (simp add: populated_but_def)

lemma populated_set_channel:
  "populated_but Q s \<Longrightarrow> ch_members ch \<noteq> [] \<or> q \<in> Q \<Longrightarrow> populated_but Q (set_channel q ch s)"
  by (auto simp: populated_but_def)

lemma populated_weaken: "populated_but Q s \<Longrightarrow> Q \<subseteq> Q' \<Longrightarrow> populated_but Q' s"
  by (auto simp: populated_but_def)

lemma populated_resolve: "populated_but {q} s \<Longrightarrow> hp_channel s q = Some ch \<Longrightarrow> ch_members ch \<noteq> [] \<Longrightarrow> populated s"
  unfolding populated_but_def by (metis insertE option.sel)

lemma reply_eq [heap_simps]: "hp_client s p = Some c \<Longrightarrow> reply p m s = Some (post (to_one p [m]) s)"
  by (simp add: reply_def heap_simps)

lemma reply_keeps: "sound s \<Longrightarrow> hp_client s p = Some c \<Longrightarrow> returns (reply p m s) (keeps s)"
  by (simp add: heap_simps keeps_refl)

section \<open>The channel handlers\<close>

lemma populated_member:
  assumes "populated s" "hp_channel s q = Some ch"
  shows "ch_members ch \<noteq> []"
  using assms by (auto simp: populated_but_def)

lemma handleJoin_keeps:
  assumes g: "good s" and pop: "populated_but {q} s" and q: "hp_channel s q = Some ch" and p: "hp_client s p = Some c"
    and reg: "cl_is_registered c" and enter: "ch_members ch \<noteq> [] \<or> join_refusal ch p c key = None"
  shows "returns (handleJoin q p key s) (keeps s)"
proof -
  have pop': "populated s" if "ch_members ch \<noteq> []" using pop q that by (rule populated_resolve)
  then have "populated s" if "p \<in> set (ch_members ch)" using that by (metis list.set(1) empty_iff)
  moreover have "frame s (join_state q ch p c s)"
    unfolding join_state_def by (rule frame_set_client [where c = c]) (simp_all add: p tied_def joined_client_def)
  moreover have "populated (join_state q ch p c s)"
    unfolding join_state_def by (rule populated_resolve [where q = q and ch = "joined_channel p ch"])
      (simp_all add: populated_set_channel [OF pop])
  ultimately show ?thesis
    using handleJoin_eq [OF goodD(1) [OF g] q p] good_join_state [OF g q p _ reg] g pop' enter
    by (auto simp: keeps_but_def sound_def split: option.split)
qed

lemma leave_state_keeps:
  assumes s: "sound s" and q: "hp_channel s q = Some ch" and p: "hp_client s p = Some c"
  shows "good (leave_state q ch p c s)" "populated_but {q} (leave_state q ch p c s)" "frame s (leave_state q ch p c s)"
    "hp_channel (leave_state q ch p c s) = (hp_channel s)(q \<mapsto> left_channel p ch)"
proof -
  show "good (leave_state q ch p c s)" by (rule good_leave_state [OF soundD(1) [OF s] q p])
  show "populated_but {q} (leave_state q ch p c s)"
    unfolding leave_state_def
    by (simp add: populated_set_channel [OF populated_weaken [OF soundD(2) [OF s]]])
  show "frame s (leave_state q ch p c s)"
    unfolding leave_state_def by (rule frame_set_client [where c = c]) (simp_all add: p tied_def removeJoinedChannels_def)
  show "hp_channel (leave_state q ch p c s) = (hp_channel s)(q \<mapsto> left_channel p ch)" by (simp add: leave_state_def)
qed

text \<open>PART and KICK may leave the channel empty; the caller then deletes it.\<close>

definition vacates :: "server \<Rightarrow> chptr \<Rightarrow> string \<Rightarrow> server \<Rightarrow> bool" where
  "vacates s q n t \<longleftrightarrow> good t \<and> populated_but {q} t \<and> frame s t \<and> (\<forall>q'. q' \<noteq> q \<longrightarrow> hp_channel t q' = hp_channel s q') \<and>
     (\<exists>ch. hp_channel t q = Some ch \<and> ch_name ch = n)"

lemma vacates_post [simp]: "vacates s q n t \<Longrightarrow> vacates s q n (post out t)"
  by (simp add: vacates_def)

lemma vacates_leave:
  assumes "sound s" "hp_channel s q = Some ch" "hp_client s p = Some c"
  shows "vacates s q (ch_name ch) (leave_state q ch p c s)" "vacates s q (ch_name ch) s"
  using leave_state_keeps [OF assms] assms populated_weaken [OF soundD(2) [OF assms(1)]]
  by (auto simp: vacates_def left_channel_def sound_def)

lemma handlePart_vacates:
  assumes s: "sound s" and q: "hp_channel s q = Some ch" and p: "hp_client s p = Some c"
  shows "returns (handlePart q p m s) (vacates s q (ch_name ch))"
  using handlePart_eq [OF soundD(3) [OF s] q p] vacates_leave [OF s q p] by simp

lemma handleKick_vacates:
  assumes s: "sound s" and q: "hp_channel s q = Some ch" and p: "hp_client s p = Some c" and k: "hp_client s k = Some d"
  shows "returns (handleKick q p k m s) (vacates s q (ch_name ch))"
  using handleKick_eq [OF soundD(3) [OF s] q p k] vacates_leave [OF s q k] by simp

lemma frame_without_channel: "frame_but V t (without_channel n q t)"
  by (auto simp: frame_defs known_def without_channel_def option.map_comp o_def removeInvitedChannel_def ex_map_option option.rel_map tied_def
      intro!: option.rel_refl_strong)

lemma prune_keeps:
  assumes v: "vacates s q n t" and name: "toLower name = toLower n"
  shows "returns (do { ch \<leftarrow> hp_channel t q; if isEmpty ch then deleteChannel name t else Some t })
     (\<lambda>u. keeps s u \<and> (\<forall>q'. q' \<noteq> q \<longrightarrow> hp_channel u q' = hp_channel s q'))"
proof -
  obtain ch where g: "good t" and pop: "populated_but {q} t" and fr: "frame s t" and ch: "hp_channel t q = Some ch" "ch_name ch = n"
    and rest: "\<And>q'. q' \<noteq> q \<Longrightarrow> hp_channel t q' = hp_channel s q'" using v by (auto simp: vacates_def)
  let ?u = "without_channel (toLower (ch_name ch)) q t"
  have "keeps s ?u" if "ch_members ch = []"
  proof -
    have "good ?u" by (rule good_delete_channel [OF g ch(1) that])
    moreover have "populated ?u" using pop by (auto simp: populated_but_def without_channel_def split: if_splits)
    moreover have "frame s ?u" by (rule frame_trans [OF fr frame_without_channel])
    ultimately show ?thesis by (simp add: keeps_but_def sound_def)
  qed
  moreover have "keeps s t" if "ch_members ch \<noteq> []"
    using that g fr populated_resolve [OF pop ch(1)] by (simp add: keeps_but_def sound_def)
  moreover have "deleteChannel name t = Some ?u"
    by (rule deleteChannel_eq [OF goodD(1) [OF g] ch(1)]) (simp add: name ch(2))
  ultimately show ?thesis using ch(1) rest by (simp add: isEmpty_def) (simp add: without_channel_def)
qed

lemma handleTopic_keeps:
  assumes s: "sound s" and q: "hp_channel s q = Some ch" and p: "hp_client s p = Some c"
  shows "returns (handleTopic q p topic given s) (keeps s)"
proof -
  have "good (set_channel q (ch\<lparr>ch_topic := truncateUtf8 topic 300\<rparr>) s)"
    using good_channelD [OF soundD(1) [OF s] q] truncateUtf8.trunc_length
    by (intro good_set_channel [OF soundD(1) [OF s] q]) (auto simp: ok_channel_def lists_ok_def)
  moreover have "populated (set_channel q (ch\<lparr>ch_topic := truncateUtf8 topic 300\<rparr>) s)"
    using populated_member [OF soundD(2) [OF s] q] by (simp add: populated_set_channel [OF soundD(2) [OF s]])
  ultimately show ?thesis
    using handleTopic_eq [OF soundD(3) [OF s] q p] keeps_refl [OF s] by (simp add: keeps_but_def sound_def)
qed

lemma handleInvite_keeps:
  assumes s: "sound s" and q: "hp_channel s q = Some ch" and p: "hp_client s p = Some c" and v: "hp_client s v = Some d"
  shows "returns (handleInvite q p v s) (keeps s)"
proof -
  have "frame s (invite_state q ch v d s)"
    unfolding invite_state_def by (rule frame_set_client [where c = d]) (simp_all add: v tied_def addInvitedChannel_def)
  moreover have "populated (invite_state q ch v d s)"
    unfolding invite_state_def using populated_member [OF soundD(2) [OF s] q]
    by (simp add: populated_set_channel [OF soundD(2) [OF s]])
  ultimately show ?thesis
    using handleInvite_eq [OF q p v] good_invite_state [OF soundD(1) [OF s] q v] keeps_refl [OF s]
    by (simp add: keeps_but_def sound_def)
qed

lemma handleChannelPrivmsg_keeps:
  assumes s: "sound s" and q: "hp_channel s q = Some ch" and p: "hp_client s p = Some c"
  shows "returns (handleChannelPrivmsg q p message s) (keeps s)"
  using handleChannelPrivmsg_eq [OF soundD(3) [OF s] q p] keeps_refl [OF s] by simp

lemma handleModeOperator_keeps:
  assumes s: "sound s" and q: "hp_channel s q = Some ch" and t: "hp_client s t = Some d" and p: "hp_client s p = Some c"
  shows "returns (handleModeOperator q enable t p s) (\<lambda>u. keeps s u \<and> hp_channel u q \<noteq> None)"
proof -
  let ?ch = "setModeOperator enable t ch"
  have "good (set_channel q ?ch s)" if "t \<in> set (ch_members ch)"
    using that good_channelD [OF soundD(1) [OF s] q]
    by (intro good_set_channel [OF soundD(1) [OF s] q]) (auto simp: ok_channel_def lists_ok_def setModeOperator_def)
  moreover have "populated (set_channel q ?ch s)"
    using populated_member [OF soundD(2) [OF s] q]
    by (intro populated_set_channel [OF soundD(2) [OF s]]) (simp add: setModeOperator_def)
  ultimately show ?thesis
    using handleModeOperator_eq [OF soundD(3) [OF s] q t p] keeps_refl [OF s] q by (simp add: keeps_but_def sound_def)
qed

lemma handleMode_keeps:
  assumes s: "sound s" and q: "hp_channel s q = Some ch" and p: "hp_client s p = Some c"
  shows "returns (handleMode q p modes modeParams s) (keeps s)"
proof -
  obtain l ch' out where cm: "chan_mode (cl_nickname c) modeParams modes ch = (l, ch', out)"
    using prod_cases3 by blast
  have ch': "ch_name ch' = ch_name ch" "ch_members ch' = ch_members ch" "ch_invitedUsers ch' = ch_invitedUsers ch"
    "ch_operators ch' = ch_operators ch" "ok_channel ch'"
    using cm chan_mode_fold_frame chan_mode_fold_ok good_channelD(1) [OF soundD(1) [OF s] q] unfolding chan_mode_def by blast+
  then have "good (set_channel q ch' s)"
    using good_channelD(2) [OF soundD(1) [OF s] q] by (intro good_set_channel [OF soundD(1) [OF s] q]) (auto simp: lists_ok_def)
  moreover have "populated (set_channel q ch' s)"
    using populated_member [OF soundD(2) [OF s] q] ch'(2) by (simp add: populated_set_channel [OF soundD(2) [OF s]])
  ultimately show ?thesis
    using handleMode_eq [OF soundD(3) [OF s] q p] keeps_refl [OF s] cm by (simp add: keeps_but_def sound_def)
qed

section \<open>One client\<close>

lemma update_client_sound:
  assumes s: "sound s" and p: "hp_client s p = Some c" and ok: "ok_client c'"
    and reg: "cl_is_registered c \<Longrightarrow> cl_is_registered c'"
    and same: "cl_fd c' = cl_fd c" "cl_joinedChannels c' = cl_joinedChannels c" "cl_invitedChannels c' = cl_invitedChannels c"
    and nick: "cl_nickname c' = cl_nickname c \<or>
      (\<forall>p' d. p' \<noteq> p \<longrightarrow> hp_client s p' = Some d \<longrightarrow> toLower (cl_nickname d) \<noteq> toLower (cl_nickname c'))"
  shows "sound (set_client p c' s)"
proof -
  have "toLower (cl_nickname d) \<noteq> toLower (cl_nickname c')"
    if "p' \<noteq> p" "hp_client s p' = Some d" "cl_nickname c' \<noteq> []" for p' d
    using nick that inv_nicksD [OF goodD(4) [OF soundD(1) [OF s]] p that(2)] by auto
  then have "vals (set_client p c' s)"
    by (intro vals_set_client [OF goodD(2) [OF soundD(1) [OF s]] p ok reg]) auto
  moreover have "wf (set_client p c' s)" by (rule wf_set_client [OF soundD(3) [OF s] p same])
  ultimately show ?thesis using soundD(2) [OF s] by (simp add: sound_def good_def)
qed

lemma update_client_keeps:
  assumes s: "sound s" and p: "hp_client s p = Some c" and ok: "ok_client c'"
    and reg: "cl_is_registered c \<Longrightarrow> cl_is_registered c'"
    and same: "cl_fd c' = cl_fd c" "cl_joinedChannels c' = cl_joinedChannels c" "cl_invitedChannels c' = cl_invitedChannels c"
      "cl_read_buffer c' = cl_read_buffer c" "tied c c'"
    and ver: "cl_is_password_verified c' \<Longrightarrow> cl_is_password_verified c \<or> Verify p \<in> V"
    and as: "cl_nickname c' = cl_nickname c \<and> cl_is_registered c' = cl_is_registered c \<or> Identify p (cl_nickname c') \<in> V"
    and nick: "cl_nickname c' = cl_nickname c \<or>
      (\<forall>p' d. p' \<noteq> p \<longrightarrow> hp_client s p' = Some d \<longrightarrow> toLower (cl_nickname d) \<noteq> toLower (cl_nickname c'))"
  shows "keeps_but V s (set_client p c' s)"
  using update_client_sound [OF s p ok reg same(1-3) nick] frame_set_client_self [OF p same(4,5) reg ver as]
  by (simp add: keeps_but_def)

lemma disconnectClient_keeps:
  assumes s: "sound s" and p: "hp_client s p = Some c"
  shows "returns (disconnectClient now p reason s) (keeps s)"
proof -
  have "frame s ((set_client p (markClosing now (emit ms c)) s)\<lparr>sv_closing := omap_put fd reason (sv_closing s)\<rparr>)" for ms fd
  proof -
    have "frame s (set_client p (markClosing now (emit ms c)) s)"
      by (rule frame_set_client_self [OF p]) (auto simp: markClosing_def tied_def)
    moreover have "fst ` set (sv_closing s) \<subseteq> fst ` set (omap_put fd reason (sv_closing s))" by (auto simp: keys_omap_put)
    ultimately show ?thesis by (simp add: frame_defs)
  qed
  then show ?thesis
    using disconnectAfterFlush_good [OF soundD(1) [OF s] p, of now reason] soundD(2) [OF s]
    unfolding disconnectClient_def disconnectAfterFlush_eq [OF p] by (simp add: keeps_but_def sound_def)
qed

lemma tryComplete_fields [simp]:
  "cl_fd (tryCompleteRegistration c) = cl_fd c" "cl_ip (tryCompleteRegistration c) = cl_ip c"
  "cl_nickname (tryCompleteRegistration c) = cl_nickname c" "cl_username (tryCompleteRegistration c) = cl_username c"
  "cl_is_password_verified (tryCompleteRegistration c) = cl_is_password_verified c"
  "cl_joinedChannels (tryCompleteRegistration c) = cl_joinedChannels c"
  "cl_invitedChannels (tryCompleteRegistration c) = cl_invitedChannels c"
  "cl_read_buffer (tryCompleteRegistration c) = cl_read_buffer c"
  by (simp_all add: tryCompleteRegistration_def sendReply_def Let_def)

lemma ok_tryComplete:
  assumes "\<not> cl_is_registered c" "cl_nickname c = [] \<or> isValidNickname (cl_nickname c)"
  shows "ok_client (tryCompleteRegistration c)"
  using assms registered_tryCompleteRegistration [of c] by (simp add: ok_client_def)

lemma valid_nickname_nonempty: "isValidNickname n \<Longrightarrow> n \<noteq> []"
  by (auto simp: isValidNickname_def)

lemma client_ok: "sound s \<Longrightarrow> hp_client s p = Some c \<Longrightarrow> ok_client c"
  using goodD(3) soundD(1) by (auto simp: inv_values_def)

section \<open>Registration, step by step\<close>

lemma tryComplete_incomplete: "cl_nickname c = [] \<or> cl_username c = [] \<Longrightarrow> tryCompleteRegistration c = c"
  by (auto simp: tryCompleteRegistration_def)

definition greeting :: "client \<Rightarrow> string list" where
  "greeting c =
     [formatReply RPL_WELCOME (cl_nickname c)
        (''Welcome to the ircserv Network, '' @ cl_nickname c @ ''!'' @ cl_username c @ ''@'' @ cl_ip c),
      formatReply RPL_YOURHOST (cl_nickname c) ''Your host is ircserv, running version 1.0'',
      formatReply RPL_CREATED (cl_nickname c) ''This server was created for ircserv'',
      '':ircserv '' @ RPL_MYINFO @ '' '' @ cl_nickname c @ '' ircserv 1.0 o itkol'']"

lemma tryComplete_complete:
  "\<not> cl_is_registered c \<Longrightarrow> cl_is_password_verified c \<Longrightarrow> cl_nickname c \<noteq> [] \<Longrightarrow> cl_username c \<noteq> [] \<Longrightarrow>
     tryCompleteRegistration c = emit (greeting c) (c\<lparr>cl_is_registered := True\<rparr>)"
  by (simp add: tryCompleteRegistration_def greeting_def sendReply_emit Let_def)

lemma tied_tryComplete: "tied c d \<Longrightarrow> tied c (tryCompleteRegistration d)"
proof -
  assume d: "tied c d"
  have "tied d (tryCompleteRegistration d)"
  proof (cases "\<not> cl_is_registered d \<and> cl_is_password_verified d \<and> cl_nickname d \<noteq> [] \<and> cl_username d \<noteq> []")
    case True
    then show ?thesis by (auto simp: tryComplete_complete tied_def)
  qed (auto simp: tryCompleteRegistration_def)
  with d show ?thesis by (rule tied_trans)
qed

definition unnamed :: "client \<Rightarrow> bool" where
  "unnamed c \<longleftrightarrow> \<not> cl_is_registered c \<and> cl_nickname c = [] \<and> cl_username c = []"

lemma pass_step:
  assumes "hp_client s p = Some c" "unnamed c" "pw \<noteq> []"
  shows "Pass_execute now p (cmd_msg ''PASS'' [pw]) s =
     Some (set_client p (c\<lparr>cl_is_password_verified := (sv_password s = pw)\<rparr>) s)"
  using assms
  by (simp add: unnamed_def Pass_execute_def heap_simps tryComplete_incomplete checkPassword_def setPasswordVerified_def)

definition free_nick :: "string \<Rightarrow> cptr \<Rightarrow> server \<Rightarrow> bool" where
  "free_nick n p s \<longleftrightarrow> isValidNickname n \<and>
     (\<forall>p' d. p' \<noteq> p \<and> hp_client s p' = Some d \<longrightarrow> toLower (cl_nickname d) \<noteq> toLower n)"

lemma free_nick_not_taken: "wf s \<Longrightarrow> free_nick n p s \<Longrightarrow> isNicknameTaken n p s = Some False"
  by (auto simp: isNicknameTaken_spec free_nick_def)

lemma nick_step:
  assumes "wf s" "hp_client s p = Some c" "unnamed c" "free_nick n p s"
  shows "Nick_execute now p (cmd_msg ''NICK'' [n]) s = Some (set_client p (c\<lparr>cl_nickname := n\<rparr>) s)"
  using assms free_nick_not_taken [OF assms(1,4)] valid_nickname_nonempty [of n]
  by (simp add: unnamed_def free_nick_def Nick_execute_def heap_simps tryComplete_incomplete setNickname_def isMissingPassword_def)

lemma user_step:
  assumes "hp_client s p = Some c" "\<not> cl_is_registered c" "cl_nickname c \<noteq> []" "u \<noteq> []" "CHR ''@'' \<notin> set u"
  shows "User_execute now p (cmd_msg ''USER'' [u, m, x, r]) s =
     (let c' = c\<lparr>cl_username := u, cl_realname := r\<rparr>
      in if cl_is_password_verified c
         then Some (set_client p (emit (greeting c') (c'\<lparr>cl_is_registered := True\<rparr>)) s)
         else disconnectClient now p ''Bad Password''
                (set_client p (emit [formatReply ERR_PASSWDMISMATCH ''*'' ''Password incorrect''] c') s))"
proof (cases "cl_is_password_verified c")
  case True
  then show ?thesis
    using assms by (simp add: User_execute_def on_client_live str_find_None setUsername_def setRealname_def isMissingPassword_def
        tryComplete_complete Let_def)
next
  case False
  then have "tryCompleteRegistration (c\<lparr>cl_username := u, cl_realname := r\<rparr>) = c\<lparr>cl_username := u, cl_realname := r\<rparr>"
    by (simp add: tryCompleteRegistration_def)
  then show ?thesis
    using False assms by (simp add: User_execute_def on_client_live reply_def sendReply_emit str_find_None setUsername_def
        setRealname_def isMissingPassword_def Let_def)
qed

section \<open>The contract of a command\<close>

text \<open>
  What \<open>CommandRegistry::dispatch\<close> relies on when it calls \<open>execute\<close> through the \<open>ICommand\<close> interface: on a
  sound state, with a sender that exists and is registered if the command asks for it, the call does not fault and
  keeps the state sound.
\<close>

locale icommand =
  fixes execute :: "int \<Rightarrow> cptr \<Rightarrow> message \<Rightarrow> server \<Rightarrow> server option"
    and needLogin :: bool
    and grants :: "cptr \<Rightarrow> message \<Rightarrow> server \<Rightarrow> grant set"
  assumes execute_keeps: "sound s \<Longrightarrow> hp_client s p = Some c \<Longrightarrow> (needLogin \<Longrightarrow> cl_is_registered c) \<Longrightarrow>
    returns (execute now p msg s) (keeps_but (grants p msg s) s)"
begin

text \<open>A registered client can send any sequence of such commands.\<close>

lemma execute_sequence:
  "sound s \<Longrightarrow> registered_at p s \<Longrightarrow>
     returns (each (\<lambda>msg. execute now p msg) msgs s) (\<lambda>t. sound t \<and> registered_at p t)"
proof (rule returns_each)
  fix msg t assume t: "sound t \<and> registered_at p t"
  then obtain c where c: "hp_client t p = Some c" "cl_is_registered c" by (auto simp: registered_at_def)
  have "returns (execute now p msg t) (keeps_but (grants p msg t) t)" using execute_keeps [OF _ c(1)] t c(2) by blast
  then show "returns (execute now p msg t) (\<lambda>t. sound t \<and> registered_at p t)"
    by (rule returns_mono) (use t in \<open>auto simp: keeps_but_def frame_but_def\<close>)
qed simp

end

section \<open>The commands fulfil the contract\<close>

lemma refuse_keeps:
  assumes k: "keeps_but V s (set_client p d s)"
  shows "returns (disconnectClient now p reason (post (to_one p [m]) (set_client p d s))) (keeps_but V s)"
proof -
  have "keeps_but V s (post (to_one p [m]) (set_client p d s))" using k by simp
  moreover from this have "returns (disconnectClient now p reason (post (to_one p [m]) (set_client p d s)))
      (keeps (post (to_one p [m]) (set_client p d s)))"
    by (intro disconnectClient_keeps [where c = "emit [m] d"]) (simp_all add: keeps_but_def)
  ultimately show ?thesis using keeps_trans keeps_weaken [OF _ empty_subsetI] returns_mono by metis
qed

lemma answer: "returns m (keeps s) \<Longrightarrow> returns m (keeps_but V s)"
  by (erule returns_mono) (erule keeps_weaken, simp)

text \<open>NICK gives a client its nickname; it, PASS and USER may complete the registration.\<close>

definition nick_grants :: "cptr \<Rightarrow> message \<Rightarrow> grant set" where
  "nick_grants p msg = (if m_parameter msg = [] then {} else {Identify p (m_parameter msg ! 0)})"

definition same_nick :: "cptr \<Rightarrow> server \<Rightarrow> grant set" where
  "same_nick p s = {Identify p n |n. \<exists>r. known s p = Some (n, r)}"

lemma same_nickI: "hp_client s p = Some c \<Longrightarrow> Identify p (cl_nickname c) \<in> same_nick p s"
  by (simp add: same_nick_def known_def)

lemma Nick_keeps:
  assumes s: "sound s" and p: "hp_client s p = Some c"
  shows "returns (Nick_execute now p msg s) (keeps_but (nick_grants p msg) s)"
proof (cases "m_parameter msg = [] \<or> m_parameter msg ! 0 = [] \<or> \<not> isValidNickname (m_parameter msg ! 0)")
  case True
  then show ?thesis using answer [OF reply_keeps [OF s p]] p by (auto simp: Nick_execute_def Let_def)
next
  case False
  define n where "n = m_parameter msg ! 0"
  have V: "Identify p n \<in> nick_grants p msg" using False by (simp add: nick_grants_def n_def)
  have n: "isValidNickname n" "n \<noteq> []" and guards: "m_parameter msg \<noteq> []" using False by (auto simp: n_def)
  show ?thesis
  proof (cases "\<exists>p' d. p' \<noteq> p \<and> hp_client s p' = Some d \<and> toLower (cl_nickname d) = toLower n")
    case True
    then have "isNicknameTaken n p s = Some True" using isNicknameTaken_spec [OF soundD(3) [OF s]] by auto
    then show ?thesis using answer [OF reply_keeps [OF s p]] p n guards by (simp add: Nick_execute_def Let_def n_def [symmetric])
  next
    case free: False
    then have taken: "isNicknameTaken n p s = Some False" using isNicknameTaken_spec [OF soundD(3) [OF s]] by auto
    let ?c = "setNickname n c"
    have k: "keeps_but (nick_grants p msg) s (set_client p d s)" if "ok_client d" "cl_is_registered c \<Longrightarrow> cl_is_registered d"
      "cl_nickname d = n" "cl_fd d = cl_fd c" "cl_joinedChannels d = cl_joinedChannels c"
      "cl_invitedChannels d = cl_invitedChannels c" "cl_read_buffer d = cl_read_buffer c"
      "cl_is_password_verified d = cl_is_password_verified c" "tied c d" for d
      using free that V by (intro update_client_keeps [OF s p]) auto
    show ?thesis
    proof (cases "cl_is_registered c")
      case True
      have k: "keeps_but (nick_grants p msg) s (set_client p ?c s)"
        using client_ok [OF s p] n True by (intro k) (auto simp: setNickname_def ok_client_def tied_def)
      then have "wf (set_client p ?c s)" by (simp add: keeps_but_def sound_def good_def)
      then have "broadcastNickChange p m (set_client p ?c s) =
          Some (post (\<lambda>p'. if p' \<in> insert p (peers (set_client p ?c s) p) then [m] else []) (set_client p ?c s))" for m
        by (rule broadcastNickChange_eq) simp
      then show ?thesis using True n guards taken p k by (simp add: Nick_execute_def Let_def n_def [symmetric] heap_simps)
    next
      case False
      let ?d = "tryCompleteRegistration ?c"
      have "keeps_but (nick_grants p msg) s (set_client p ?d s)"
        using n False by (intro k ok_tryComplete tied_tryComplete) (auto simp: setNickname_def tied_def)
      from this refuse_keeps [OF this] show ?thesis
        using False n guards taken p by (simp add: Nick_execute_def Let_def n_def [symmetric] heap_simps)
    qed
  qed
qed

text \<open>PASS with the right password is what verifies a client.\<close>

definition pass_grants :: "cptr \<Rightarrow> message \<Rightarrow> server \<Rightarrow> grant set" where
  "pass_grants p msg s = same_nick p s \<union> (if m_parameter msg \<noteq> [] \<and> m_parameter msg ! 0 = sv_password s then {Verify p} else {})"

lemma Pass_keeps:
  assumes s: "sound s" and p: "hp_client s p = Some c"
  shows "returns (Pass_execute now p msg s) (keeps_but (pass_grants p msg s) s)"
proof (cases "m_parameter msg = [] \<or> m_parameter msg ! 0 = [] \<or> cl_is_registered c")
  case True
  then show ?thesis using keeps_refl [OF s] p by (auto simp: Pass_execute_def Let_def heap_simps)
next
  case False
  have "keeps_but (pass_grants p msg s) s
      (set_client p (tryCompleteRegistration (setPasswordVerified (checkPassword (m_parameter msg ! 0) s) c)) s)"
    using False client_ok [OF s p]
    by (intro update_client_keeps [OF s p] ok_tryComplete tied_tryComplete)
      (auto simp: tied_def setPasswordVerified_def ok_client_def pass_grants_def checkPassword_def same_nickI [OF p])
  then show ?thesis using False p by (simp add: Pass_execute_def Let_def heap_simps)
qed

lemma User_keeps:
  assumes s: "sound s" and p: "hp_client s p = Some c"
  shows "returns (User_execute now p msg s) (keeps_but (same_nick p s) s)"
proof (cases "length (m_parameter msg) < 4 \<or> m_parameter msg ! 0 = [] \<or> cl_is_registered c \<or>
    str_find (m_parameter msg ! 0) CHR ''@'' 0 \<noteq> None")
  case True
  then show ?thesis using answer [OF reply_keeps [OF s p]] p by (auto simp: User_execute_def Let_def)
next
  case False
  have "keeps_but (same_nick p s) s (set_client p (tryCompleteRegistration (setRealname r (setUsername u c))) s)" for r u
    using False client_ok [OF s p]
    by (intro update_client_keeps [OF s p] ok_tryComplete tied_tryComplete) (auto simp: tied_def setRealname_def setUsername_def ok_client_def same_nickI [OF p])
  from this refuse_keeps [OF this] show ?thesis
    using False p by (simp add: User_execute_def Let_def heap_simps)
qed

lemma Ping_keeps: "sound s \<Longrightarrow> hp_client s p = Some c \<Longrightarrow> returns (Ping_execute now p msg s) (keeps s)"
  using reply_keeps by (simp add: Ping_execute_def Let_def)

lemma Pong_keeps:
  assumes s: "sound s" and p: "hp_client s p = Some c"
  shows "returns (Pong_execute now p msg s) (keeps s)"
proof -
  have "keeps s (set_client p (updateLastActivity now c) s)"
    using client_ok [OF s p] by (intro update_client_keeps [OF s p]) (auto simp: tied_def updateLastActivity_def ok_client_def)
  then show ?thesis using p by (simp add: Pong_execute_def heap_simps)
qed

lemma Quit_keeps: "sound s \<Longrightarrow> hp_client s p = Some c \<Longrightarrow> returns (Quit_execute now p msg s) (keeps s)"
  using disconnectClient_keeps by (simp add: Quit_execute_def Let_def)

text \<open>The lookups, in the form the commands use them\<close>

lemma find_cases:
  assumes "sound s"
  obtains "findClientByNickname n s = Some None"
    | r d where "findClientByNickname n s = Some (Some r)" "hp_client s r = Some d" "bears n s r"
proof -
  obtain r where r: "findClientByNickname n s = Some r" "\<And>p. r = Some p \<longleftrightarrow> bears n s p"
    using findClientByNickname_spec [OF soundD(1) [OF assms]] by blast
  show thesis
  proof (cases r)
    case None
    then show ?thesis using r that(1) by simp
  next
    case (Some p)
    then have "bears n s p" using r(2) by simp
    then show ?thesis using r(1) Some that(2) by (auto simp: bears_def)
  qed
qed

lemma channel_cases:
  assumes "sound s"
  obtains "findChannel n s = None"
    | q ch where "findChannel n s = Some q" "hp_channel s q = Some ch" "toLower n = toLower (ch_name ch)"
  using findChannel_spec [OF soundD(3) [OF assms], of n] by (metis not_None_eq)

lemma Invite_keeps:
  assumes s: "sound s" and p: "hp_client s p = Some c"
  shows "returns (Invite_execute now p msg s) (keeps s)"
proof (rule find_cases [OF s, of "m_parameter msg ! 0"]; rule channel_cases [OF s, of "m_parameter msg ! 1"])
qed (use reply_keeps [OF s p] handleInvite_keeps [OF s _ p] p in \<open>simp_all add: Invite_execute_def Let_def\<close>)

lemma Topic_keeps:
  assumes s: "sound s" and p: "hp_client s p = Some c"
  shows "returns (Topic_execute now p msg s) (keeps s)"
  by (rule channel_cases [OF s, of "m_parameter msg ! 0"])
    (use reply_keeps [OF s p] handleTopic_keeps [OF s _ p] p in \<open>simp_all add: Topic_execute_def Let_def\<close>)

lemma Privmsg_keeps:
  assumes s: "sound s" and p: "hp_client s p = Some c"
  shows "returns (Privmsg_execute now p msg s) (keeps s)"
proof (rule find_cases [OF s, of "m_parameter msg ! 0"]; rule channel_cases [OF s, of "m_parameter msg ! 0"])
qed (use reply_keeps [OF s] handleChannelPrivmsg_keeps [OF s _ p] p in
     \<open>simp_all add: Privmsg_execute_def handlePersonalPrivmsg_def Let_def\<close>)

lemma vacate_keeps:
  assumes v: "returns m (vacates s q n)" and name: "toLower name = toLower n"
  shows "returns (do { t \<leftarrow> m; ch \<leftarrow> hp_channel t q; if isEmpty ch then deleteChannel name t else Some t })
     (\<lambda>u. keeps s u \<and> (\<forall>q'. q' \<noteq> q \<longrightarrow> hp_channel u q' = hp_channel s q'))"
proof -
  have "returns m (\<lambda>t. returns (do { ch \<leftarrow> hp_channel t q; if isEmpty ch then deleteChannel name t else Some t })
     (\<lambda>u. keeps s u \<and> (\<forall>q'. q' \<noteq> q \<longrightarrow> hp_channel u q' = hp_channel s q')))"
    using v by (rule returns_mono) (rule prune_keeps [OF _ name])
  then show ?thesis by (simp only: returns_bind)
qed

lemma Part_keeps:
  assumes s: "sound s" and p: "hp_client s p = Some c"
  shows "returns (Part_execute now p msg s) (keeps s)"
proof (cases "length (m_parameter msg) < 1")
  case True
  then show ?thesis using reply_keeps [OF s p] p by (simp add: Part_execute_def)
next
  case False
  show ?thesis
  proof (rule channel_cases [OF s, of "m_parameter msg ! 0"])
    assume "findChannel (m_parameter msg ! 0) s = None"
    then show ?thesis using reply_keeps [OF s p] p False by (simp add: Part_execute_def Let_def)
  next
    fix q ch assume q: "findChannel (m_parameter msg ! 0) s = Some q" "hp_channel s q = Some ch"
      and n: "toLower (m_parameter msg ! 0) = toLower (ch_name ch)"
    show ?thesis
      using returns_mono [OF vacate_keeps [OF handlePart_vacates [OF s q(2) p] n]] p q False
      by (simp add: Part_execute_def Let_def)
  qed
qed

lemma Kick_keeps:
  assumes s: "sound s" and p: "hp_client s p = Some c"
  shows "returns (Kick_execute now p msg s) (keeps s)"
proof (cases "length (m_parameter msg) < 2")
  case True
  then show ?thesis using reply_keeps [OF s p] p by (simp add: Kick_execute_def Let_def)
next
  case False
  show ?thesis
  proof (rule channel_cases [OF s, of "m_parameter msg ! 0"])
    assume "findChannel (m_parameter msg ! 0) s = None"
    then show ?thesis using reply_keeps [OF s p] p False by (simp add: Kick_execute_def Let_def)
  next
    fix q ch assume q: "findChannel (m_parameter msg ! 0) s = Some q" "hp_channel s q = Some ch"
      and n: "toLower (m_parameter msg ! 0) = toLower (ch_name ch)"
    show ?thesis
    proof (rule find_cases [OF s, of "m_parameter msg ! 1"])
      assume "findClientByNickname (m_parameter msg ! 1) s = Some None"
      then show ?thesis using reply_keeps [OF s p] p q False by (simp add: Kick_execute_def Let_def)
    next
      fix k d assume "findClientByNickname (m_parameter msg ! 1) s = Some (Some k)" "hp_client s k = Some d"
      then show ?thesis
        using returns_mono [OF vacate_keeps [OF handleKick_vacates [OF s q(2) p] n]] p q False
        by (simp add: Kick_execute_def Let_def)
    qed
  qed
qed

text \<open>\<open>JOIN 0\<close> leaves the channels one after the other.\<close>

lemma part_step_keeps:
  assumes s: "sound s" and p: "hp_client s p = Some c" and q: "hp_channel s (snd it) = Some ch" "ch_name ch = fst it"
  shows "returns (part_step p it s) (\<lambda>u. keeps s u \<and> (\<forall>q'. q' \<noteq> snd it \<longrightarrow> hp_channel u q' = hp_channel s q'))"
  unfolding part_step_def
  by (rule vacate_keeps [OF handlePart_vacates [OF s q(1) p]]) (simp add: q(2))

lemma part_all_keeps:
  assumes "sound s" "registered_at p s \<or> hp_client s p \<noteq> None"
    "\<forall>it \<in> set es. \<exists>ch. hp_channel s (snd it) = Some ch \<and> ch_name ch = fst it" "distinct (map snd es)"
  shows "returns (each (part_step p) es s) (keeps s)"
  using assms
proof (induction es arbitrary: s)
  case Nil
  then show ?case by (simp add: keeps_refl)
next
  case (Cons it es)
  obtain c ch where p: "hp_client s p = Some c" and q: "hp_channel s (snd it) = Some ch" "ch_name ch = fst it"
    using Cons.prems(2,3) by (auto simp: registered_at_def)
  have rest: "returns (each (part_step p) es u) (keeps s)"
    if u: "keeps s u" "\<forall>q'. q' \<noteq> snd it \<longrightarrow> hp_channel u q' = hp_channel s q'" for u
  proof -
    have "snd x \<noteq> snd it" if "x \<in> set es" for x using Cons.prems(4) that by (metis distinct.simps(2) image_eqI list.set_map list.simps(9))
    then have "\<forall>x \<in> set es. \<exists>ch. hp_channel u (snd x) = Some ch \<and> ch_name ch = fst x"
      using Cons.prems(3) u(2) by simp
    moreover have "hp_client u p \<noteq> None" using u(1) p frame_live [of "{}" s u p] by (simp add: keeps_but_def)
    ultimately have "returns (each (part_step p) es u) (keeps u)"
      using Cons.prems(4) u(1) by (intro Cons.IH) (auto simp: keeps_but_def)
    then show ?thesis by (rule returns_mono) (rule keeps_trans [OF u(1)])
  qed
  have "returns (part_step p it s) (\<lambda>u. returns (each (part_step p) es u) (keeps s))"
    using part_step_keeps [OF Cons.prems(1) p q] by (rule returns_mono) (use rest in blast)
  then show ?case by simp
qed

lemma prune_channel:
  assumes v: "vacates s q n t" and name: "toLower name = toLower n" and out: "\<And>ch. hp_channel t q = Some ch \<Longrightarrow> p \<notin> set (ch_members ch)"
  shows "returns (do { ch \<leftarrow> hp_channel t q; if isEmpty ch then deleteChannel name t else Some t })
     (\<lambda>u. \<forall>ch. hp_channel u q = Some ch \<longrightarrow> p \<notin> set (ch_members ch))"
proof -
  obtain ch where t: "good t" and ch: "hp_channel t q = Some ch" "ch_name ch = n" using v by (auto simp: vacates_def)
  have "deleteChannel name t = Some (without_channel (toLower (ch_name ch)) q t)"
    by (rule deleteChannel_eq [OF goodD(1) [OF t] ch(1)]) (simp add: name ch(2))
  then show ?thesis using ch out by (simp add: without_channel_def)
qed

lemma part_step_leaves:
  assumes s: "sound s" and p: "hp_client s p = Some c" and q: "hp_channel s (snd it) = Some ch" "ch_name ch = fst it"
  shows "returns (part_step p it s) (\<lambda>u. \<forall>ch. hp_channel u (snd it) = Some ch \<longrightarrow> p \<notin> set (ch_members ch))"
proof -
  have "returns (handlePart (snd it) p [] s) (\<lambda>t. vacates s (snd it) (ch_name ch) t \<and>
      (\<forall>ch. hp_channel t (snd it) = Some ch \<longrightarrow> p \<notin> set (ch_members ch)))"
    using handlePart_eq [OF soundD(3) [OF s] q(1) p, of "[]"] vacates_leave [OF s q(1) p] q(1)
    by (simp add: leave_state_def left_channel_def)
  then show ?thesis
    unfolding part_step_def
    by (elim returns_bindI, intro prune_channel [where n = "ch_name ch" and s = s]) (auto simp: q(2))
qed

lemma part_all_leaves:
  assumes "sound s" "hp_client s p = Some c"
    "\<forall>it \<in> set es. \<exists>ch. hp_channel s (snd it) = Some ch \<and> ch_name ch = fst it" "distinct (map snd es)"
    "\<And>q ch. hp_channel s q = Some ch \<Longrightarrow> p \<in> set (ch_members ch) \<Longrightarrow> q \<in> snd ` set es"
  shows "returns (each (part_step p) es s) (\<lambda>t. \<forall>q ch. hp_channel t q = Some ch \<longrightarrow> p \<notin> set (ch_members ch))"
  using assms
proof (induction es arbitrary: s c)
  case Nil
  then show ?case by auto
next
  case (Cons it es)
  obtain ch where q: "hp_channel s (snd it) = Some ch" "ch_name ch = fst it" using Cons.prems(3) by auto
  have rest: "returns (each (part_step p) es u) (\<lambda>t. \<forall>q ch. hp_channel t q = Some ch \<longrightarrow> p \<notin> set (ch_members ch))"
    if u: "keeps s u" "\<forall>q'. q' \<noteq> snd it \<longrightarrow> hp_channel u q' = hp_channel s q'"
      "\<forall>ch. hp_channel u (snd it) = Some ch \<longrightarrow> p \<notin> set (ch_members ch)" for u
  proof -
    have ne: "snd x \<noteq> snd it" if "x \<in> set es" for x using Cons.prems(4) that by (metis distinct.simps(2) image_eqI list.set_map list.simps(9))
    obtain c' where "hp_client u p = Some c'" using keeps_client [OF u(1) Cons.prems(2)] by blast
    moreover have "\<forall>x \<in> set es. \<exists>ch. hp_channel u (snd x) = Some ch \<and> ch_name ch = fst x"
      using Cons.prems(3) u(2) ne by simp
    moreover have "q \<in> snd ` set es" if "hp_channel u q = Some ch" "p \<in> set (ch_members ch)" for q ch
    proof -
      have "q \<noteq> snd it" using that u(3) by blast
      then show ?thesis using Cons.prems(5) [of q ch] that u(2) by simp
    qed
    ultimately show ?thesis using Cons.prems(4) u(1) by (intro Cons.IH) (auto simp: keeps_but_def)
  qed
  have "returns (part_step p it s) (\<lambda>u. (keeps s u \<and> (\<forall>q'. q' \<noteq> snd it \<longrightarrow> hp_channel u q' = hp_channel s q')) \<and>
      (\<forall>ch. hp_channel u (snd it) = Some ch \<longrightarrow> p \<notin> set (ch_members ch)))"
    by (rule returns_conj [OF part_step_keeps [OF Cons.prems(1,2) q] part_step_leaves [OF Cons.prems(1,2) q]])
  then have "returns (part_step p it s) (\<lambda>u. returns (each (part_step p) es u) (\<lambda>t. \<forall>q ch. hp_channel t q = Some ch \<longrightarrow> p \<notin> set (ch_members ch)))"
    by (rule returns_mono) (use rest in blast)
  then show ?case by simp
qed

lemma joined_entries:
  assumes wf: "wf s" and p: "hp_client s p = Some c"
  shows "\<forall>it \<in> set (cl_joinedChannels c). \<exists>ch. hp_channel s (snd it) = Some ch \<and> ch_name ch = fst it \<and> p \<in> set (ch_members ch)"
    and "distinct (map snd (cl_joinedChannels c))"
proof -
  note j = inv_joinedD [OF wfD(4) [OF wf] p]
  have entry: "it \<in> set (cl_joinedChannels c) \<longleftrightarrow> in_channel s p (fst it) (snd it)" for it
    using omap_ok_find [OF j(1), of "fst it" "snd it"] j(2) by simp
  then show "\<forall>it \<in> set (cl_joinedChannels c). \<exists>ch. hp_channel s (snd it) = Some ch \<and> ch_name ch = fst it \<and> p \<in> set (ch_members ch)"
    by (simp add: in_channel_def)
  have "inj_on snd (set (cl_joinedChannels c))"
  proof (rule inj_onI)
    fix x y assume a: "x \<in> set (cl_joinedChannels c)" "y \<in> set (cl_joinedChannels c)" and eq: "snd x = snd y"
    have "in_channel s p (fst x) (snd y)" "in_channel s p (fst y) (snd y)" using a unfolding entry eq by auto
    then show "x = y" using eq by (auto simp: in_channel_def prod_eq_iff)
  qed
  then show "distinct (map snd (cl_joinedChannels c))"
    using omap_ok_distinct [OF j(1)] by (simp add: distinct_map)
qed

lemma new_channel_keeps:
  assumes s: "sound s" and new: "findChannel n s = None" and valid: "isValidChannelName n"
  shows "good (with_new_channel (new_Channel n) s)" "populated_but {ChPtr (hp_next s)} (with_new_channel (new_Channel n) s)"
    "frame s (with_new_channel (new_Channel n) s)"
proof -
  show "good (with_new_channel (new_Channel n) s)"
    using new by (intro good_new_channel [OF soundD(1) [OF s] _ valid]) (simp add: findChannel_def)
  show "populated_but {ChPtr (hp_next s)} (with_new_channel (new_Channel n) s)"
    using soundD(2) [OF s] by (auto simp: populated_but_def with_new_channel_def)
  show "frame s (with_new_channel (new_Channel n) s)"
    by (simp add: frame_defs known_def with_new_channel_def option.rel_refl)
qed

lemma join_new_keeps:
  assumes s: "sound s" and p: "hp_client s p = Some c" and reg: "cl_is_registered c"
    and new: "findChannel n s = None" and valid: "isValidChannelName n"
  shows "returns (handleJoin (ChPtr (hp_next s)) p key (with_new_channel (new_Channel n) s)) (keeps s)"
proof -
  note k = new_channel_keeps [OF s new valid]
  have "returns (handleJoin (ChPtr (hp_next s)) p key (with_new_channel (new_Channel n) s)) (keeps (with_new_channel (new_Channel n) s))"
    by (rule handleJoin_keeps [OF k(1,2), where ch = "new_Channel n" and c = c])
      (use p reg in \<open>simp_all add: with_new_channel_def new_Channel_def join_refusal_def isFull_def\<close>)
  then show ?thesis by (rule returns_mono) (use k(3) frame_trans in \<open>auto simp: keeps_but_def\<close>)
qed

lemma Join_keeps:
  assumes s: "sound s" and p: "hp_client s p = Some c" and reg: "cl_is_registered c"
  shows "returns (Join_execute now p msg s) (keeps s)"
proof -
  let ?n = "m_parameter msg ! 0" and ?key = "if length (m_parameter msg) > 1 then m_parameter msg ! 1 else []"
  have parts: "returns (each (part_step p) (cl_joinedChannels c) s) (keeps s)"
    using joined_entries [OF soundD(3) [OF s] p] p by (intro part_all_keeps [OF s]) auto
  have join: "returns (case findOrCreateChannel ?n s of (q, t) \<Rightarrow> handleJoin q p ?key t) (keeps s)" if valid: "isValidChannelName ?n"
  proof (rule channel_cases [OF s, of ?n])
    assume "findChannel ?n s = None"
    then show ?thesis using join_new_keeps [OF s p reg _ valid] by (simp add: findOrCreateChannel_eq)
  next
    fix q ch assume q: "findChannel ?n s = Some q" "hp_channel s q = Some ch"
    have "returns (handleJoin q p ?key s) (keeps s)"
      by (rule handleJoin_keeps [OF soundD(1) [OF s] populated_weaken [OF soundD(2) [OF s]] q(2) p reg])
        (use populated_member [OF soundD(2) [OF s] q(2)] in simp_all)
    then show ?thesis using q(1) by (simp add: findOrCreateChannel_eq)
  qed
  show ?thesis
  proof (cases "length (m_parameter msg) < 1 \<or> ?n \<noteq> ''0'' \<and> \<not> isValidChannelName ?n")
    case True
    then show ?thesis using reply_keeps [OF s p] p by (auto simp: Join_execute_def Let_def)
  next
    case False
    then show ?thesis using parts join p by (cases "?n = ''0''") (simp_all add: Join_execute_def Let_def)
  qed
qed

text \<open>The loop of MODE\<close>

definition mode_inv :: "server \<Rightarrow> chptr \<Rightarrow> mode_exec \<times> server \<Rightarrow> bool" where
  "mode_inv s q st \<longleftrightarrow> keeps s (snd st) \<and> hp_channel (snd st) q \<noteq> None"

lemma mode_inv_pair [simp]: "mode_inv s q (l, t) \<longleftrightarrow> keeps s t \<and> hp_channel t q \<noteq> None"
  by (simp add: mode_inv_def)

lemma mode_exec_apply_inv:
  assumes i: "keeps s t" "hp_channel t q = Some ch" and p: "hp_client s p = Some c"
  shows "returns (mode_exec_apply q p tn m param given (l, t)) (mode_inv s q)"
proof -
  obtain c' where p': "hp_client t p = Some c'" using keeps_client [OF i(1) p] by blast
  have t: "sound t" using i(1) by (simp add: keeps_but_def)
  show ?thesis
  proof (rule find_cases [OF t, of param])
    assume "findClientByNickname param t = Some None"
    then show ?thesis using i p' by (simp add: mode_exec_apply_def Let_def heap_simps)
  next
    fix r d assume r: "findClientByNickname param t = Some (Some r)" "hp_client t r = Some d"
    have "returns (handleModeOperator q b r p t) (\<lambda>u. keeps s u \<and> hp_channel u q \<noteq> None)" for b
      by (rule returns_mono [OF handleModeOperator_keeps [OF t i(2) r(2) p']]) (use i(1) keeps_trans in blast)
    then show ?thesis using i r by (simp add: mode_exec_apply_def Let_def)
  qed
qed

lemma mode_exec_step_inv:
  assumes i: "mode_inv s q st" and p: "hp_client s p = Some c"
  shows "returns (mode_exec_step q p tn params m st) (mode_inv s q)"
proof -
  obtain l t where st: "st = (l, t)" by (cases st)
  obtain ch where t: "keeps s t" "hp_channel t q = Some ch" using i by (auto simp: st)
  obtain c' where p': "hp_client t p = Some c'" using keeps_client [OF t(1) p] by blast
  show ?thesis
    using t p' mode_exec_apply_inv [OF t p] by (simp add: st mode_exec_step_def Let_def heap_simps)
qed

lemma Mode_keeps:
  assumes s: "sound s" and p: "hp_client s p = Some c"
  shows "returns (Mode_execute now p msg s) (keeps s)"
proof (rule channel_cases [OF s, of "m_parameter msg ! 0"])
  assume "findChannel (m_parameter msg ! 0) s = None"
  then show ?thesis using reply_keeps [OF s p] keeps_refl [OF s] p by (simp add: Mode_execute_def Let_def)
next
  fix q ch assume q: "findChannel (m_parameter msg ! 0) s = Some q" "hp_channel s q = Some ch"
  have loop: "returns (each (mode_exec_step q p tn params) modes (mode_exec0, s)) (mode_inv s q)" for tn params modes
    by (rule returns_each [where I = "mode_inv s q"]) (use keeps_refl [OF s] q mode_exec_step_inv [OF _ p] in auto)
  have final: "returns (handleMode q p ms ps t) (keeps s)" if i: "mode_inv s q (l, t)" for l t ms ps
  proof -
    obtain ch' where t: "keeps s t" "hp_channel t q = Some ch'" using i by auto
    obtain c' where "hp_client t p = Some c'" using keeps_client [OF t(1) p] by blast
    then have "returns (handleMode q p ms ps t) (keeps t)" using t by (intro handleMode_keeps) (auto simp: keeps_but_def)
    then show ?thesis by (rule returns_mono) (rule keeps_trans [OF t(1)])
  qed
  have "returns (each (mode_exec_step q p tn params) modes (mode_exec0, s) \<bind>
      (\<lambda>(l, s). if me_filteredModes l \<noteq> [] then handleMode q p (me_filteredModes l) (me_filteredParams l) s else Some s)) (keeps s)"
    for tn params modes
    unfolding returns_bind by (rule returns_mono [OF loop]) (use final in \<open>auto split: if_splits\<close>)
  then show ?thesis
    using reply_keeps [OF s p] handleMode_keeps [OF s q(2) p] keeps_refl [OF s] p q
    by (simp add: Mode_execute_def Let_def del: returns_bind)
qed

section \<open>All commands\<close>

definition granted :: "command \<Rightarrow> cptr \<Rightarrow> message \<Rightarrow> server \<Rightarrow> grant set" where
  "granted k p msg s = (if k = Pass then pass_grants p msg s else if k = Nick then nick_grants p msg else if k = User then same_nick p s else {})"

lemmas command_keeps = Nick_keeps Ping_keeps Pong_keeps Quit_keeps User_keeps Invite_keeps
  Kick_keeps Mode_keeps Part_keeps Privmsg_keeps Topic_keeps

interpretation cmd: icommand "execute k" "needLogin k" "granted k" for k
proof
  fix s p c now msg
  assume "sound s" "hp_client s p = Some c" "needLogin k \<Longrightarrow> cl_is_registered c"
  then show "returns (execute k now p msg s) (keeps_but (granted k p msg s) s)"
    by (cases k) (simp_all add: command_keeps Pass_keeps Join_keeps granted_def)
qed

end
