(* ===== verification/Irc_Dispatch.thy ===== *)
theory Irc_Dispatch
  imports Irc_Contract
begin

text \<open>
  \<open>parse/CommandRegistry.cpp\<close> and \<open>parse/Parser.cpp\<close>: the table of commands, and the way of one line from the
  splitter to a command.
\<close>

section \<open>The registry\<close>

type_synonym registry = "(string, command) omap"

text \<open>\<open>_commands[name] = command\<close>; the object that was registered under the name before is deleted.\<close>

definition registerCommand :: "string \<Rightarrow> command \<Rightarrow> registry \<Rightarrow> registry" where
  "registerCommand name command commands = omap_put name command commands"

definition Parser_table :: "(string \<times> command) list" where
  "Parser_table = [(''NICK'', Nick), (''PASS'', Pass), (''PING'', Ping), (''PONG'', Pong), (''QUIT'', Quit),
     (''USER'', User), (''INVITE'', Invite), (''JOIN'', Join), (''KICK'', Kick), (''MODE'', Mode),
     (''PART'', Part), (''PRIVMSG'', Privmsg), (''TOPIC'', Topic)]"

text \<open>The constructor of \<open>Parser\<close>: the calls of \<open>registerCommand\<close> in their order\<close>

definition Parser_commands :: registry where
  "Parser_commands = fold (\<lambda>(name, command). registerCommand name command) Parser_table []"

definition dispatch :: "registry \<Rightarrow> int \<Rightarrow> cptr \<Rightarrow> message \<Rightarrow> server \<Rightarrow> server option" where
  "dispatch commands now client message s = do {
     c \<leftarrow> hp_client s client;
     case map_of commands (m_command message) of
       None \<Rightarrow> do {
         let target = (if cl_is_registered c then cl_nickname c else ''*'');
         reply client (formatReplyWithParameter ERR_UNKNOWNCOMMAND target (m_command message) ''Unknown command'') s }
     | Some command \<Rightarrow>
         if needLogin command \<and> \<not> cl_is_registered c then
           reply client (formatReply ERR_NOTREGISTERED ''*'' ''You have not registered'') s
         else execute command now client message s }"

section \<open>The parser\<close>

text \<open>\<open>operate\<close> returns whether the line could be split.\<close>

definition operate :: "int \<Rightarrow> cptr \<Rightarrow> string \<Rightarrow> server \<Rightarrow> (bool \<times> server) option" where
  "operate now client raw s =
     (let (ok, msg) = spliter raw Message0
      in if \<not> ok then Some (False, s)
         else do {
           s \<leftarrow> dispatch Parser_commands now client msg s;
           Some (True, s) })"

section \<open>Facts\<close>

lemma Parser_commands_find: "map_of Parser_commands name = map_of Parser_table name"
proof -
  have "map_of Parser_commands name = map_of (rev Parser_table) name"
    unfolding Parser_commands_def registerCommand_def
    using omap.find_fold_put [of "[]" Parser_table name]
    by (cases "map_of (rev Parser_table) name") simp_all
  also have "\<dots> = map_of Parser_table name"
    by (intro fun_cong [OF map_of_eqI]) (auto simp: Parser_table_def)
  finally show ?thesis .
qed

text \<open>Whom a message, and whom a line, may verify\<close>

definition dispatch_grants :: "registry \<Rightarrow> cptr \<Rightarrow> message \<Rightarrow> server \<Rightarrow> grant set" where
  "dispatch_grants commands p msg s =
     (case map_of commands (m_command msg) of None \<Rightarrow> {} | Some k \<Rightarrow> granted k p msg s)"

lemma dispatch_keeps:
  assumes s: "sound s" and p: "hp_client s p = Some c"
  shows "returns (dispatch commands now p msg s) (keeps_but (dispatch_grants commands p msg s) s)"
  using keeps_refl [OF s] cmd.execute_keeps [OF s p] p
  by (auto simp: dispatch_def dispatch_grants_def Let_def heap_simps split: option.splits)

definition line_grants :: "cptr \<Rightarrow> string \<Rightarrow> server \<Rightarrow> grant set" where
  "line_grants p raw s = (case accepted (spliter raw Message0) of
     None \<Rightarrow> {} | Some msg \<Rightarrow> dispatch_grants Parser_commands p msg s)"

lemma operate_keeps:
  assumes s: "sound s" and p: "hp_client s p = Some c"
  shows "returns (operate now p raw s) (\<lambda>(ok, t). keeps_but (line_grants p raw s) s t \<and> ok = (grammar raw \<noteq> None))"
proof -
  obtain ok msg where sp: "spliter raw Message0 = (ok, msg)" by (cases "spliter raw Message0")
  then have "ok = (grammar raw \<noteq> None)"
    using spliter_grammar [of raw] by (cases "grammar raw") (auto simp: accepted_def split: if_splits)
  then show ?thesis
    using sp dispatch_keeps [OF s p] keeps_refl [OF s] by (auto simp: operate_def line_grants_def accepted_def)
qed

end
