(* ===== verification/Irc_Network.thy ===== *)
theory Irc_Network
  imports Irc_Dispatch
begin

text \<open>
  The event loop: \<open>network/Server.cpp\<close> and \<open>network/ServerConnection.cpp\<close>. What the operating system returns
  (\<open>socket\<close>, \<open>poll\<close>, \<open>accept\<close>, \<open>recv\<close>, \<open>send\<close>, the clock) is an argument of the definitions. Exhausted memory is
  modelled where the code recovers from it: in \<open>acceptNewClient\<close>, and in the turn of one client, where the input buffer
  cannot grow or a line cannot be copied out of it; and in the loop itself, where the mark for a client, the reason for its
  removal or a line to it cannot be stored and the outer handler of \<open>Server::run\<close> carries on.
\<close>

section \<open>Constants\<close>

definition TIMEOUT_SECONDS :: int where "TIMEOUT_SECONDS = 300"
definition TIMEOUT_REGISTRATION :: int where "TIMEOUT_REGISTRATION = 60"
definition MAX_SENDQ :: nat where "MAX_SENDQ = 1024 * 1024"

section \<open>Setup\<close>

datatype init_error = Socket_failed | Setsockopt_failed | Fcntl_failed | Bind_failed | Listen_failed

record init_env =
  ie_socket :: int
  ie_setsockopt :: int
  ie_fcntl :: int
  ie_bind :: int
  ie_listen :: int

text \<open>The exceptions of \<open>init\<close> carry the state reached, which the destructor then cleans up.\<close>

definition init :: "init_env \<Rightarrow> server \<Rightarrow> (init_error \<times> server) + server" where
  "init e s =
     (let s = s\<lparr>sv_server_fd := ie_socket e\<rparr>
      in if ie_socket e < 0 then Inl (Socket_failed, s)
         else if ie_setsockopt e < 0 then Inl (Setsockopt_failed, s)
         else if ie_fcntl e < 0 then Inl (Fcntl_failed, s)
         else if ie_bind e < 0 then Inl (Bind_failed, s)
         else if ie_listen e < 0 then Inl (Listen_failed, s)
         else Inr (s\<lparr>sv_poll_fds := sv_poll_fds s @ [\<lparr>pf_fd = sv_server_fd s, pf_events = {POLLIN}\<rparr>]\<rparr>))"

section \<open>New connections\<close>

text \<open>Where an allocation fails: in \<open>new Client\<close>, before or in \<open>push_back\<close>, or in the insertion into the map.\<close>

datatype alloc = Alloc_ok | Fail_new | Fail_push | Fail_map

record accept_env =
  ae_fd :: int
  ae_nonblocking :: bool
  ae_ip :: string
  ae_alloc :: alloc

definition createPollFd :: "int \<Rightarrow> pollfd" where
  "createPollFd fd = \<lparr>pf_fd = fd, pf_events = {POLLIN}\<rparr>"

text \<open>The handler of the second \<open>catch\<close>\<close>

definition accept_rollback :: "int \<Rightarrow> server \<Rightarrow> server" where
  "accept_rollback client_fd s =
     (if sv_poll_fds s \<noteq> [] \<and> pf_fd (last (sv_poll_fds s)) = client_fd
      then s\<lparr>sv_poll_fds := butlast (sv_poll_fds s)\<rparr> else s)"

definition acceptNewClient :: "int \<Rightarrow> accept_env \<Rightarrow> server \<Rightarrow> server option" where
  "acceptNewClient now e s =
     (let client_fd = ae_fd e in
      if client_fd < 0 then listen_events {} s
      else if \<not> ae_nonblocking e then Some s
      else if ae_alloc e = Fail_new then Some (accept_rollback client_fd s)
      else do {
        let (p, s) = new_client (new_Client now client_fd) s;
        s \<leftarrow> on_client p (setIp (ae_ip e)) s;
        if ae_alloc e = Fail_push then delete_client p (accept_rollback client_fd s)
        else do {
          let s = s\<lparr>sv_poll_fds := sv_poll_fds s @ [createPollFd client_fd]\<rparr>;
          if ae_alloc e = Fail_map then delete_client p (accept_rollback client_fd s)
          else Some (s\<lparr>sv_clients := omap_put client_fd p (sv_clients s)\<rparr>) } })"

section \<open>Input and output\<close>

datatype recv_result = Recv_error | Recv string

text \<open>The \<open>while\<close> loop over the complete lines of the input buffer; not returning would be \<open>None\<close>.\<close>

partial_function (option) line_loop :: "int \<Rightarrow> int \<Rightarrow> cptr \<Rightarrow> server \<Rightarrow> server option" where
  "line_loop now client_fd client s = do {
     c \<leftarrow> hp_client s client;
     if \<not> isMarked client_fd s \<and> hasCompleteLine c \<and> \<not> omap_count client_fd (sv_closing s) then do {
       let (line, c) = popLine c;
       let s = set_client client c s;
       if line = [] then line_loop now client_fd client s
       else do {
         (ok, s) \<leftarrow> operate now client line s;
         line_loop now client_fd client s } }
     else Some s }"

declare line_loop.simps [code]

definition receiveData :: "int \<Rightarrow> int \<Rightarrow> recv_result \<Rightarrow> server \<Rightarrow> server option" where
  "receiveData now client_fd r s =
     (case map_of (sv_clients s) client_fd of
        None \<Rightarrow> Some s
      | Some client \<Rightarrow>
          (case r of
             Recv_error \<Rightarrow> Some (markForDisconnection client_fd ''Receive error'' s)
           | Recv bytes \<Rightarrow>
               if bytes = [] then Some (markForDisconnection client_fd ''Client disconnected'' s)
               else if omap_count client_fd (sv_closing s) then Some s
               else do {
                 s \<leftarrow> on_client client (\<lambda>c. c\<lparr>cl_read_buffer := cl_read_buffer c @ bytes\<rparr>) s;
                 s \<leftarrow> on_client client (updateLastActivity now) s;
                 c \<leftarrow> hp_client s client;
                 if length (cl_read_buffer c) > 8192 \<and> \<not> hasCompleteLine c then
                   Some (markForDisconnection client_fd ''Input buffer overflow'' s)
                 else line_loop now client_fd client s }))"

text \<open>
  Where \<open>receiveData\<close> throws: \<open>append\<close> cannot grow the buffer, or \<open>popLine\<close> cannot copy the line, after some lines
  have been handled. Both leave the object they fail on as it was.
\<close>

datatype fault_point = At_append | At_line nat

text \<open>The loop up to the call of \<open>popLine\<close> that throws; the first component says whether it comes to this call.\<close>

primrec lines_until :: "nat \<Rightarrow> int \<Rightarrow> int \<Rightarrow> cptr \<Rightarrow> server \<Rightarrow> (bool \<times> server) option" where
  "lines_until 0 now client_fd client s = do {
     c \<leftarrow> hp_client s client;
     Some (\<not> isMarked client_fd s \<and> hasCompleteLine c \<and> \<not> omap_count client_fd (sv_closing s), s) }"
| "lines_until (Suc n) now client_fd client s = do {
     c \<leftarrow> hp_client s client;
     if \<not> isMarked client_fd s \<and> hasCompleteLine c \<and> \<not> omap_count client_fd (sv_closing s) then do {
       let (line, c) = popLine c;
       let s = set_client client c s;
       if line = [] then lines_until n now client_fd client s
       else do {
         (ok, s) \<leftarrow> operate now client line s;
         lines_until n now client_fd client s } }
     else Some (False, s) }"

text \<open>\<open>receiveData\<close> with a failure; the first component says whether the exception is thrown.\<close>

definition receiveData_until :: "fault_point \<Rightarrow> int \<Rightarrow> int \<Rightarrow> recv_result \<Rightarrow> server \<Rightarrow> (bool \<times> server) option" where
  "receiveData_until point now client_fd r s =
     (case map_of (sv_clients s) client_fd of
        None \<Rightarrow> Some (False, s)
      | Some client \<Rightarrow>
          (case r of
             Recv_error \<Rightarrow> Some (False, markForDisconnection client_fd ''Receive error'' s)
           | Recv bytes \<Rightarrow>
               if bytes = [] then Some (False, markForDisconnection client_fd ''Client disconnected'' s)
               else if omap_count client_fd (sv_closing s) then Some (False, s)
               else
                 (case point of
                    At_append \<Rightarrow> Some (True, s)
                  | At_line n \<Rightarrow> do {
                      s \<leftarrow> on_client client (\<lambda>c. c\<lparr>cl_read_buffer := cl_read_buffer c @ bytes\<rparr>) s;
                      s \<leftarrow> on_client client (updateLastActivity now) s;
                      c \<leftarrow> hp_client s client;
                      if length (cl_read_buffer c) > 8192 \<and> \<not> hasCompleteLine c then
                        Some (False, markForDisconnection client_fd ''Input buffer overflow'' s)
                      else lines_until n now client_fd client s })))"

text \<open>\<open>sent\<close> is the result of \<open>send\<close>.\<close>

definition sendData :: "int \<Rightarrow> int \<Rightarrow> server \<Rightarrow> server option" where
  "sendData client_fd sent s =
     (case map_of (sv_clients s) client_fd of
        None \<Rightarrow> Some s
      | Some p \<Rightarrow> do {
          c \<leftarrow> hp_client s p;
          if cl_write_buffer c = [] then Some s
          else if sent < 0 then Some (markForDisconnection client_fd ''Send error'' s)
          else do {
            s \<leftarrow> on_client p (\<lambda>c. c\<lparr>cl_write_buffer := drop (nat sent) (cl_write_buffer c)\<rparr>) s;
            c \<leftarrow> hp_client s p;
            (case map_of (sv_closing s) client_fd of
               None \<Rightarrow> Some s
             | Some reason \<Rightarrow>
                 if cl_write_buffer c = [] then
                   (let s = markForDisconnection client_fd reason s
                    in Some (s\<lparr>sv_closing := omap_erase client_fd (sv_closing s)\<rparr>))
                 else Some s) } })"

section \<open>Housekeeping\<close>

fun refresh_loop :: "pollfd list \<Rightarrow> server \<Rightarrow> (pollfd list \<times> server) option" where
  "refresh_loop [] s = Some ([], s)"
| "refresh_loop (e # es) s = do {
     (e, s) \<leftarrow>
       (if pf_fd e = sv_server_fd s then Some (e, s)
        else
          (case map_of (sv_clients s) (pf_fd e) of
             None \<Rightarrow> Some (e\<lparr>pf_events := {POLLIN}\<rparr>, s)
           | Some p \<Rightarrow> do {
               c \<leftarrow> hp_client s p;
               if length (cl_write_buffer c) > MAX_SENDQ then
                 Some (e\<lparr>pf_events := {POLLIN}\<rparr>, markForDisconnection (pf_fd e) ''SendQ exceeded'' s)
               else if cl_write_buffer c \<noteq> [] then Some (e\<lparr>pf_events := {POLLIN, POLLOUT}\<rparr>, s)
               else Some (e\<lparr>pf_events := {POLLIN}\<rparr>, s) }));
     (es, s) \<leftarrow> refresh_loop es s;
     Some (e # es, s) }"

definition refreshPollEvents :: "server \<Rightarrow> server option" where
  "refreshPollEvents s = do {
     (es, s) \<leftarrow> refresh_loop (sv_poll_fds s) s;
     Some (s\<lparr>sv_poll_fds := es\<rparr>) }"

text \<open>One iteration of \<open>checkIdleClients\<close>\<close>

definition idle_step :: "int \<Rightarrow> int \<times> cptr \<Rightarrow> server \<Rightarrow> server option" where
  "idle_step now it s = do {
     client \<leftarrow> hp_client s (snd it);
     case map_of (sv_closing s) (fst it) of
       Some reason \<Rightarrow>
         if getClosingTime now client > 5 then Some (markForDisconnection (fst it) reason s) else Some s
     | None \<Rightarrow>
         if \<not> cl_is_registered client then
           (if getConnectTime now client > TIMEOUT_REGISTRATION
            then Some (markForDisconnection (fst it) ''Registration timeout'' s) else Some s)
         else
           (let idle = getIdleTime now client in
            if idle > TIMEOUT_SECONDS then disconnectAfterFlush now (snd it) ''Ping timeout'' s
            else if idle > TIMEOUT_SECONDS div 2 \<and> \<not> cl_pingSent client then do {
              s \<leftarrow> on_client (snd it) (sendReply ''PING :ircserv'') s;
              on_client (snd it) (setPingSent True) s }
            else Some s) }"

definition checkIdleClients :: "int \<Rightarrow> server \<Rightarrow> server option" where
  "checkIdleClients now s = each (idle_step now) (sv_clients s) s"

section \<open>The loop\<close>

text \<open>What the operating system reports about one entry of the poll set, and how the calls on it turn out\<close>

record event =
  ev_revents :: "pollflag set"
  ev_now :: int
  ev_accept :: accept_env
  ev_recv :: recv_result
  ev_fault :: "fault_point option"
  ev_send :: int

text \<open>
  Where the outer \<open>try\<close> block of \<open>run\<close> is left by an exception: the entry of the poll set, of the marked clients or of
  the client table whose handling cannot allocate what it needs. The operation that fails leaves everything as it was, and what was
  done before it stays.
\<close>

datatype loop_fault = In_refresh nat | In_poll nat | In_cleanup nat | In_idle nat

record poll_env =
  pe_ready :: int
  pe_eintr :: bool
  pe_event :: "nat \<Rightarrow> event"
  pe_fault :: "loop_fault option"
  pe_now :: int

text \<open>The turn of one client: the body of the inner \<open>try\<close> and its handler\<close>

definition receive_turn :: "event \<Rightarrow> int \<Rightarrow> server \<Rightarrow> (bool \<times> server) option" where
  "receive_turn e fd s =
     (case ev_fault e of
        None \<Rightarrow> map_option (Pair False) (receiveData (ev_now e) fd (ev_recv e) s)
      | Some point \<Rightarrow> receiveData_until point (ev_now e) fd (ev_recv e) s)"

definition client_turn :: "event \<Rightarrow> int \<Rightarrow> server \<Rightarrow> server option" where
  "client_turn e fd s = do {
     (thrown, s) \<leftarrow> (if POLLIN \<in> ev_revents e \<or> POLLHUP \<in> ev_revents e then receive_turn e fd s else Some (False, s));
     if thrown then Some (markForDisconnection fd ''Internal error'' s)
     else if POLLOUT \<in> ev_revents e \<and> \<not> isMarked fd s then sendData fd (ev_send e) s
     else Some s }"

text \<open>One iteration of the loop over the poll set; an index out of range would be a fault.\<close>

definition poll_step :: "(nat \<Rightarrow> event) \<Rightarrow> nat \<Rightarrow> server \<Rightarrow> server option" where
  "poll_step event i s =
     (if i \<ge> length (sv_poll_fds s) then None
      else
        let fd = pf_fd (sv_poll_fds s ! i); e = event i; revents = ev_revents e in
        if revents = {} then Some s
        else if fd = sv_server_fd s then
          (if POLLIN \<in> revents then acceptNewClient (ev_now e) (ev_accept e) s else Some s)
        else if POLLERR \<in> revents \<or> POLLNVAL \<in> revents then
          Some (markForDisconnection fd ''Connection error'' s)
        else client_turn e fd s)"

text \<open>\<open>refreshPollEvents\<close>: the mark for a client with too much output cannot be stored.\<close>

definition sendq_exceeded :: "pollfd \<Rightarrow> server \<Rightarrow> bool option" where
  "sendq_exceeded e s =
     (if pf_fd e = sv_server_fd s then Some False
      else case map_of (sv_clients s) (pf_fd e) of
          None \<Rightarrow> Some False
        | Some p \<Rightarrow> do { c \<leftarrow> hp_client s p; Some (length (cl_write_buffer c) > MAX_SENDQ) })"

definition refresh_until :: "nat \<Rightarrow> server \<Rightarrow> (bool \<times> server) option" where
  "refresh_until n s =
     (case drop n (sv_poll_fds s) of
        [] \<Rightarrow> map_option (Pair False) (refreshPollEvents s)
      | e # after \<Rightarrow> do {
          (before, t) \<leftarrow> refresh_loop (take n (sv_poll_fds s)) s;
          full \<leftarrow> sendq_exceeded e t;
          if full \<and> \<not> isMarked (pf_fd e) t then
            Some (True, t\<lparr>sv_poll_fds := before @ e\<lparr>pf_events := {POLLIN}\<rparr> # after\<rparr>)
          else map_option (Pair False) (refreshPollEvents s) })"

text \<open>The loop over the poll set: a mark cannot be stored, neither by the loop itself nor by the handler of the client's turn.\<close>

definition entry_throws :: "event \<Rightarrow> int \<Rightarrow> server \<Rightarrow> (bool \<times> server) option" where
  "entry_throws e fd s =
     (if ev_revents e = {} \<or> fd = sv_server_fd s then Some (False, s)
      else if POLLERR \<in> ev_revents e \<or> POLLNVAL \<in> ev_revents e then Some (\<not> isMarked fd s, s)
      else if POLLIN \<in> ev_revents e \<or> POLLHUP \<in> ev_revents e then do {
        (thrown, s) \<leftarrow> receive_turn e fd s;
        Some (thrown \<and> \<not> isMarked fd s, s) }
      else Some (False, s))"

definition poll_until :: "nat \<Rightarrow> (nat \<Rightarrow> event) \<Rightarrow> nat \<Rightarrow> server \<Rightarrow> (bool \<times> server) option" where
  "poll_until n event count s =
     (if count \<le> n then map_option (Pair False) (each (poll_step event) [0..<count] s)
      else do {
        s \<leftarrow> each (poll_step event) [0..<n] s;
        (thrown, t) \<leftarrow> entry_throws (event n) (pf_fd (sv_poll_fds s ! n)) s;
        if thrown then Some (True, t)
        else map_option (Pair False) (each (poll_step event) [n..<count] s) })"

text \<open>\<open>cleanupDisconnected\<close>: \<open>disconnect\<close> cannot copy the reason. The table of marks has been emptied by then.\<close>

definition cleanup_until :: "nat \<Rightarrow> server \<Rightarrow> (bool \<times> server) option" where
  "cleanup_until n s = do {
     let targets = sv_to_disconnected s;
     s \<leftarrow> each (\<lambda>it. disconnect (fst it) (snd it)) (take n targets) (s\<lparr>sv_to_disconnected := []\<rparr>);
     Some (n < length targets, s) }"

text \<open>\<open>checkIdleClients\<close>: a mark or a line cannot be stored.\<close>

definition idle_allocates :: "int \<Rightarrow> int \<times> cptr \<Rightarrow> server \<Rightarrow> bool option" where
  "idle_allocates now it s = do {
     client \<leftarrow> hp_client s (snd it);
     Some (case map_of (sv_closing s) (fst it) of
         Some _ \<Rightarrow> getClosingTime now client > 5 \<and> \<not> isMarked (fst it) s
       | None \<Rightarrow>
           if \<not> cl_is_registered client then getConnectTime now client > TIMEOUT_REGISTRATION \<and> \<not> isMarked (fst it) s
           else getIdleTime now client > TIMEOUT_SECONDS \<or>
             getIdleTime now client > TIMEOUT_SECONDS div 2 \<and> \<not> cl_pingSent client) }"

definition idle_until :: "nat \<Rightarrow> int \<Rightarrow> server \<Rightarrow> (bool \<times> server) option" where
  "idle_until n now s =
     (case drop n (sv_clients s) of
        [] \<Rightarrow> map_option (Pair False) (checkIdleClients now s)
      | it # after \<Rightarrow> do {
          s \<leftarrow> each (idle_step now) (take n (sv_clients s)) s;
          thrown \<leftarrow> idle_allocates now it s;
          if thrown then Some (True, s) else map_option (Pair False) (each (idle_step now) (it # after) s) })"

text \<open>The four parts of an iteration; the first component says whether an exception leaves them.\<close>

definition refresh_phase :: "loop_fault option \<Rightarrow> server \<Rightarrow> (bool \<times> server) option" where
  "refresh_phase f s = (case f of Some (In_refresh n) \<Rightarrow> refresh_until n s | _ \<Rightarrow> map_option (Pair False) (refreshPollEvents s))"

definition poll_phase :: "loop_fault option \<Rightarrow> (nat \<Rightarrow> event) \<Rightarrow> nat \<Rightarrow> server \<Rightarrow> (bool \<times> server) option" where
  "poll_phase f event count s = (case f of Some (In_poll n) \<Rightarrow> poll_until n event count s
     | _ \<Rightarrow> map_option (Pair False) (each (poll_step event) [0..<count] s))"

definition cleanup_phase :: "loop_fault option \<Rightarrow> server \<Rightarrow> (bool \<times> server) option" where
  "cleanup_phase f s = (case f of Some (In_cleanup n) \<Rightarrow> cleanup_until n s | _ \<Rightarrow> map_option (Pair False) (cleanupDisconnected s))"

definition idle_phase :: "loop_fault option \<Rightarrow> int \<Rightarrow> server \<Rightarrow> (bool \<times> server) option" where
  "idle_phase f now s = (case f of Some (In_idle n) \<Rightarrow> idle_until n now s | _ \<Rightarrow> map_option (Pair False) (checkIdleClients now s))"

text \<open>
  One iteration of \<open>run\<close>; the first component says whether the loop goes on. The outer handler prints the exception and
  the loop goes on.
\<close>

definition run_iteration :: "poll_env \<Rightarrow> server \<Rightarrow> (bool \<times> server) option" where
  "run_iteration e s = do {
     (thrown, s) \<leftarrow> refresh_phase (pe_fault e) s;
     if thrown then Some (True, s)
     else if pe_ready e < 0 then Some (pe_eintr e, s)
     else do {
       s \<leftarrow> (if pe_ready e = 0 then listen_events {POLLIN} s else Some s);
       (thrown, s) \<leftarrow> poll_phase (pe_fault e) (pe_event e) (length (sv_poll_fds s)) s;
       if thrown then Some (True, s)
       else do {
         (thrown, s) \<leftarrow> cleanup_phase (pe_fault e) s;
         if thrown then Some (True, s)
         else do {
           (_, s) \<leftarrow> idle_phase (pe_fault e) (pe_now e) s;
           Some (True, s) } } } }"

text \<open>\<open>run\<close> against the iterations that happen before \<open>g_stop\<close> is set\<close>

fun run :: "poll_env list \<Rightarrow> server \<Rightarrow> server option" where
  "run [] s = Some s"
| "run (e # es) s = do {
     (continue, s) \<leftarrow> run_iteration e s;
     if continue then run es s else Some s }"

text \<open>The destructor\<close>

definition destroy :: "server \<Rightarrow> server option" where
  "destroy s = do {
     s \<leftarrow> each (\<lambda>it. delete_client (snd it)) (sv_clients s) s;
     let s = s\<lparr>sv_clients := []\<rparr>;
     s \<leftarrow> each (\<lambda>it. delete_channel (snd it)) (sv_channels s) s;
     Some (s\<lparr>sv_channels := [], sv_poll_fds := []\<rparr>) }"

end
