(* ===== verification/Irc_Safety.thy ===== *)
theory Irc_Safety
  imports Irc_Network
begin

text \<open>
  The event loop is safe: every function of \<open>Irc_Network\<close> runs without a fault on a sound state and keeps it sound,
  the line loop terminates, and so every reachable state is sound.
\<close>

section \<open>What the network functions leave alone\<close>

definition net :: "server \<Rightarrow> server \<Rightarrow> bool" where
  "net s t \<longleftrightarrow> sv_clients t = sv_clients s \<and> sv_poll_fds t = sv_poll_fds s \<and> sv_server_fd t = sv_server_fd s \<and>
     sv_password t = sv_password s"

lemma net_refl [simp]: "net s s"
  by (simp add: net_def)

lemma net_trans: "net s t \<Longrightarrow> net t u \<Longrightarrow> net s u"
  by (simp add: net_def)

lemma net_frame: "frame_but V s t \<Longrightarrow> net s t"
  by (simp add: net_def frame_but_def)

lemma net_set_client [simp]: "net s (set_client p c t) \<longleftrightarrow> net s t" "net (set_client p c s) t \<longleftrightarrow> net s t"
  by (simp_all add: net_def)

lemma net_mark [simp]: "net s (markForDisconnection fd r t) \<longleftrightarrow> net s t"
  by (simp add: net_def)

lemma populated_mark [simp]: "populated_but Q (markForDisconnection fd r s) \<longleftrightarrow> populated_but Q s"
  by (simp add: populated_but_def)

lemma mark_sound: "sound s \<Longrightarrow> fd \<in> fst ` set (sv_clients s) \<Longrightarrow> sound (markForDisconnection fd r s)"
  by (simp add: sound_def markForDisconnection_good)

text \<open>Fields that only the network functions write\<close>

lemma touch_client_sound:
  assumes s: "sound s" and p: "hp_client s p = Some c"
    and same: "cl_fd c' = cl_fd c" "cl_joinedChannels c' = cl_joinedChannels c" "cl_invitedChannels c' = cl_invitedChannels c"
      "cl_nickname c' = cl_nickname c" "cl_username c' = cl_username c"
      "cl_is_registered c' = cl_is_registered c" "cl_is_password_verified c' = cl_is_password_verified c"
  shows "sound (set_client p c' s)"
  using client_ok [OF s p] same by (intro update_client_sound [OF s p]) (auto simp: ok_client_def)

lemma client_of_fd:
  assumes "sound s" "map_of (sv_clients s) fd = Some p"
  obtains c where "hp_client s p = Some c" "cl_fd c = fd" "fd \<in> fst ` set (sv_clients s)"
proof -
  have "fd \<in> fst ` set (sv_clients s)" using assms(2) by (metis domI dom_map_of_conv_image_fst)
  moreover obtain c where "hp_client s p = Some c" "cl_fd c = fd"
    using wfD(1) [OF soundD(3) [OF assms(1)]] assms(2) by (auto simp: inv_clients_def)
  ultimately show thesis using that by blast
qed

section \<open>The line loop\<close>

lemma pop_fields:
  assumes "popLine c = (line, c')"
  shows "cl_fd c' = cl_fd c" "cl_joinedChannels c' = cl_joinedChannels c" "cl_invitedChannels c' = cl_invitedChannels c"
    "cl_nickname c' = cl_nickname c" "cl_username c' = cl_username c"
    "cl_is_registered c' = cl_is_registered c" "cl_is_password_verified c' = cl_is_password_verified c"
  using assms by (auto simp: popLine_def Let_def)

text \<open>It returns: every iteration removes a line from the input buffer, and commands do not touch the buffer.\<close>

lemma line_loop_sound:
  assumes "sound s" "hp_client s p = Some c"
  shows "returns (line_loop now fd p s) (\<lambda>t. sound t \<and> net s t)"
  using assms
proof (induction "length (cl_read_buffer c)" arbitrary: s c rule: less_induct)
  case less
  note s = less.prems(1) and p = less.prems(2)
  show ?case
  proof (cases "\<not> isMarked fd s \<and> hasCompleteLine c \<and> \<not> omap_count fd (sv_closing s)")
    case False
    then show ?thesis using s p by (subst line_loop.simps) auto
  next
    case True
    obtain line c' where pop: "popLine c = (line, c')" by (cases "popLine c")
    define s1 where "s1 = set_client p c' s"
    have s1: "sound s1" "hp_client s1 p = Some c'" "net s s1"
      using touch_client_sound [OF s p pop_fields [OF pop]] by (simp_all add: s1_def)
    have small: "length (cl_read_buffer c') < length (cl_read_buffer c)"
      using popLine_shrinks [of c] True pop by simp
    have rest: "returns (line_loop now fd p t) (\<lambda>u. sound u \<and> net s u)" if k: "keeps_but V s1 t" for t V
    proof -
      obtain d where d: "hp_client t p = Some d" "cl_read_buffer d = cl_read_buffer c'"
        using frame_client [OF _ s1(2), of _ t] k unfolding keeps_but_def by blast
      have "returns (line_loop now fd p t) (\<lambda>u. sound u \<and> net t u)"
        using less.hyps [of d t] small d k by (simp add: keeps_but_def)
      moreover have "net s t" using k net_frame net_trans s1(3) by (auto simp: keeps_but_def)
      ultimately show ?thesis by (auto elim!: returns_mono intro: net_trans)
    qed
    have "line_loop now fd p s = (if line = [] then line_loop now fd p s1
        else do { (ok, s) \<leftarrow> operate now p line s1; line_loop now fd p s })"
      using True p pop by (subst line_loop.simps) (simp add: s1_def)
    moreover have "returns (operate now p line s1) (\<lambda>r. returns (line_loop now fd p (snd r)) (\<lambda>u. sound u \<and> net s u))"
      by (rule returns_mono [OF operate_keeps [OF s1(1,2)]]) (use rest in auto)
    ultimately show ?thesis
      using rest [OF keeps_refl [OF s1(1)]] by (simp add: case_prod_unfold)
  qed
qed

text \<open>The condition of the loop, and induction over its iterations\<close>

definition looping :: "int \<Rightarrow> server \<Rightarrow> client \<Rightarrow> bool" where
  "looping fd s c \<longleftrightarrow> \<not> isMarked fd s \<and> hasCompleteLine c \<and> \<not> omap_count fd (sv_closing s)"

lemma line_loop_induct [consumes 1, case_names stop blank line]:
  assumes "line_loop now fd p s = Some t"
    and stop: "\<And>s c. hp_client s p = Some c \<Longrightarrow> \<not> looping fd s c \<Longrightarrow> P s s"
    and blank: "\<And>s c c' t. hp_client s p = Some c \<Longrightarrow> looping fd s c \<Longrightarrow> popLine c = ([], c') \<Longrightarrow>
      P (set_client p c' s) t \<Longrightarrow> P s t"
    and line: "\<And>s c l c' ok u t. hp_client s p = Some c \<Longrightarrow> looping fd s c \<Longrightarrow> popLine c = (l, c') \<Longrightarrow> l \<noteq> [] \<Longrightarrow>
      operate now p l (set_client p c' s) = Some (ok, u) \<Longrightarrow> P u t \<Longrightarrow> P s t"
  shows "P s t"
proof -
  have "now' = now \<Longrightarrow> fd' = fd \<Longrightarrow> p' = p \<Longrightarrow> P s t" if "line_loop now' fd' p' s = Some t" for now' fd' p'
    using that
  proof (rule line_loop.raw_induct [rotated, of now' fd' p' s t "\<lambda>now' fd' p' s t. now' = now \<longrightarrow> fd' = fd \<longrightarrow> p' = p \<longrightarrow> P s t", THEN mp, THEN mp, THEN mp])
    fix loop :: "int \<Rightarrow> int \<Rightarrow> cptr \<Rightarrow> server \<Rightarrow> server option" and now' fd' p' s t
    assume rec: "\<And>now' fd' p' s t. loop now' fd' p' s = Some t \<Longrightarrow> now' = now \<longrightarrow> fd' = fd \<longrightarrow> p' = p \<longrightarrow> P s t"
      and body: "do { c \<leftarrow> hp_client s p';
        if \<not> isMarked fd' s \<and> hasCompleteLine c \<and> \<not> omap_count fd' (sv_closing s) then
          let (line, c) = popLine c; s = set_client p' c s
          in if line = [] then loop now' fd' p' s else do { (ok, s) \<leftarrow> operate now' p' line s; loop now' fd' p' s }
        else Some s } = Some t"
    have "P s t" if eq: "now' = now" "fd' = fd" "p' = p"
    proof -
      obtain c where c: "hp_client s p = Some c" using body eq by (cases "hp_client s p") auto
      obtain l c' where pop: "popLine c = (l, c')" by (cases "popLine c")
      consider "\<not> looping fd s c" "t = s" | "looping fd s c" "l = []" "loop now fd p (set_client p c' s) = Some t"
        | ok u where "looping fd s c" "l \<noteq> []" "operate now p l (set_client p c' s) = Some (ok, u)" "loop now fd p u = Some t"
        using body eq c pop by (cases "looping fd s c"; cases "l = []")
          (auto simp: looping_def bind_eq_Some_conv simp del: omap_count_iff)
      then show ?thesis using stop blank line rec c pop by cases blast+
    qed
    then show "now' = now \<longrightarrow> fd' = fd \<longrightarrow> p' = p \<longrightarrow> P s t" by blast
  qed
  then show ?thesis using assms(1) by blast
qed

lemma line_loop_unfold:
  assumes "hp_client s p = Some c"
  shows "\<not> looping fd s c \<Longrightarrow> line_loop now fd p s = Some s"
    and "looping fd s c \<Longrightarrow> popLine c = ([], c') \<Longrightarrow> line_loop now fd p s = line_loop now fd p (set_client p c' s)"
    and "looping fd s c \<Longrightarrow> popLine c = (l, c') \<Longrightarrow> l \<noteq> [] \<Longrightarrow> operate now p l (set_client p c' s) = Some (ok, u) \<Longrightarrow>
      line_loop now fd p s = line_loop now fd p u"
proof -
  show "\<not> looping fd s c \<Longrightarrow> line_loop now fd p s = Some s"
    by (subst line_loop.simps) (auto simp: assms looping_def simp del: omap_count_iff)
  show "looping fd s c \<Longrightarrow> popLine c = ([], c') \<Longrightarrow> line_loop now fd p s = line_loop now fd p (set_client p c' s)"
    by (subst line_loop.simps) (simp add: assms looping_def del: omap_count_iff)
  show "looping fd s c \<Longrightarrow> popLine c = (l, c') \<Longrightarrow> l \<noteq> [] \<Longrightarrow> operate now p l (set_client p c' s) = Some (ok, u) \<Longrightarrow>
      line_loop now fd p s = line_loop now fd p u"
    by (subst line_loop.simps) (simp add: assms looping_def del: omap_count_iff)
qed

text \<open>When it returns there is no complete line left, or the connection is about to be closed.\<close>

lemma line_loop_stops:
  assumes "line_loop now fd p s = Some t"
  shows "\<exists>c. hp_client t p = Some c \<and> \<not> looping fd t c"
  using assms by (induction rule: line_loop_induct) auto

text \<open>One iteration, and the end\<close>

lemma line_loop_line:
  assumes "hp_client s p = Some c" "cl_read_buffer c = l @ LF # rest" "LF \<notin> set l" "l \<noteq> []" "last l \<noteq> CR"
    and "\<not> isMarked fd s" "map_of (sv_closing s) fd = None"
    and "operate now p l (set_client p (c\<lparr>cl_read_buffer := rest\<rparr>) s) = Some (ok, t)"
  shows "line_loop now fd p s = line_loop now fd p t"
  using assms popLine_split [OF assms(2,3)]
  by (subst line_loop.simps) (simp add: hasCompleteLine_iff omap_count_def del: omap_count_iff)

lemma line_loop_done: "hp_client s p = Some c \<Longrightarrow> LF \<notin> set (cl_read_buffer c) \<Longrightarrow> line_loop now fd p s = Some s"
  by (subst line_loop.simps) (simp add: hasCompleteLine_iff)

section \<open>Input and output\<close>

lemma receiveData_sound:
  assumes s: "sound s"
  shows "returns (receiveData now fd r s) (\<lambda>t. sound t \<and> net s t)"
proof (cases "map_of (sv_clients s) fd")
  case None
  then show ?thesis using s by (simp add: receiveData_def)
next
  case (Some p)
  then obtain c where p: "hp_client s p = Some c" and fd: "fd \<in> fst ` set (sv_clients s)"
    using client_of_fd [OF s] by metis
  define s1 where "s1 b = set_client p (updateLastActivity now (c\<lparr>cl_read_buffer := cl_read_buffer c @ b\<rparr>)) s" for b
  have s1: "sound (s1 b)" "net s (s1 b)" for b
    unfolding s1_def by (rule touch_client_sound [OF s p], simp_all add: updateLastActivity_def)
  have "returns (line_loop now fd p (s1 b)) (\<lambda>t. sound t \<and> net s t)" for b
    by (rule returns_mono [OF line_loop_sound [OF s1(1)]]) (simp_all add: s1_def)
  then show ?thesis
    using Some p s mark_sound [OF s fd] mark_sound [OF s1(1)] s1 fd
    by (auto simp: receiveData_def heap_simps s1_def split: recv_result.split)
qed

text \<open>The loop as far as a failing \<open>popLine\<close>\<close>

lemma lines_until_sound:
  assumes "sound s" "hp_client s p = Some c"
  shows "returns (lines_until n now fd p s) (\<lambda>(b, t). sound t \<and> net s t \<and> sv_to_disconnected t = sv_to_disconnected s)"
  using assms
proof (induction n arbitrary: s c)
  case (Suc n)
  obtain line c' where pop: "popLine c = (line, c')" by (cases "popLine c")
  let ?ok = "\<lambda>s (b, t). sound t \<and> net s t \<and> sv_to_disconnected t = sv_to_disconnected s"
  define s1 where "s1 = set_client p c' s"
  have s1: "sound s1" "hp_client s1 p = Some c'" "net s s1" "sv_to_disconnected s1 = sv_to_disconnected s"
    using touch_client_sound [OF Suc.prems pop_fields [OF pop]] by (simp_all add: s1_def)
  have rest: "returns (lines_until n now fd p t) (?ok s)" if k: "keeps_but V s1 t" for t V
  proof -
    obtain d where d: "hp_client t p = Some d" using keeps_client [OF k s1(2)] by blast
    have "net s t" "sv_to_disconnected t = sv_to_disconnected s" "sound t"
      using k s1(3,4) net_frame net_trans by (auto simp: keeps_but_def frame_but_def)
    then show ?thesis using Suc.IH [of t d] d by (auto elim!: returns_mono intro: net_trans)
  qed
  show ?case
  proof (cases "looping fd s c")
    case True
    have "lines_until (Suc n) now fd p s = (if line = [] then lines_until n now fd p s1
        else do { (ok, s) \<leftarrow> operate now p line s1; lines_until n now fd p s })"
      using True Suc.prems(2) pop by (simp add: s1_def looping_def del: omap_count_iff)
    moreover have "returns (operate now p line s1) (\<lambda>r. returns (lines_until n now fd p (snd r)) (?ok s))"
      by (rule returns_mono [OF operate_keeps [OF s1(1,2)]]) (use rest in auto)
    ultimately show ?thesis using rest [OF keeps_refl [OF s1(1)]] by (simp add: case_prod_unfold)
  next
    case False
    then have "lines_until (Suc n) now fd p s = Some (False, s)"
      using Suc.prems(2) by (auto simp: looping_def simp del: omap_count_iff)
    then show ?thesis using Suc.prems(1) by simp
  qed
qed simp

text \<open>It is a beginning of the run of the loop.\<close>

lemma lines_until_prefix:
  assumes "lines_until n now fd p s = Some (thrown, t)"
  shows "line_loop now fd p s = line_loop now fd p t \<and> (\<not> thrown \<longrightarrow> line_loop now fd p s = Some t)"
  using assms
proof (induction n arbitrary: s)
  case 0
  then obtain c where c: "hp_client s p = Some c" "t = s" "thrown = looping fd s c"
    by (auto simp: looping_def bind_eq_Some_conv)
  then show ?case using line_loop_unfold(1) [OF c(1)] by simp
next
  case (Suc n)
  then obtain c where c: "hp_client s p = Some c" by (auto simp: bind_eq_Some_conv)
  obtain l c' where pop: "popLine c = (l, c')" by (cases "popLine c")
  consider "\<not> looping fd s c" "t = s" "\<not> thrown" | "looping fd s c" "l = []" "lines_until n now fd p (set_client p c' s) = Some (thrown, t)"
    | ok u where "looping fd s c" "l \<noteq> []" "operate now p l (set_client p c' s) = Some (ok, u)" "lines_until n now fd p u = Some (thrown, t)"
    using Suc.prems c pop by (cases "looping fd s c"; cases "l = []")
      (auto simp: looping_def bind_eq_Some_conv simp del: omap_count_iff)
  then show ?case
  proof cases
    case 1
    then show ?thesis using line_loop_unfold(1) [OF c] by simp
  next
    case 2
    then show ?thesis using line_loop_unfold(2) [OF c, of fd c' now] pop Suc.IH [of "set_client p c' s"] by (metis (full_types))
  next
    case 3
    then show ?thesis using line_loop_unfold(3) [OF c _ pop, of fd now ok u] Suc.IH [of u] by (metis (full_types))
  qed
qed

lemma erase_closing_sound:
  assumes "sound s"
  shows "sound (s\<lparr>sv_closing := omap_erase fd (sv_closing s)\<rparr>)"
proof -
  have "inv_sched (s\<lparr>sv_closing := omap_erase fd (sv_closing s)\<rparr>)"
    using goodD(6) [OF soundD(1) [OF assms]] by (auto simp: inv_sched_def)
  then have "good (s\<lparr>sv_closing := omap_erase fd (sv_closing s)\<rparr>)"
    by (intro good_reschedule [OF soundD(1) [OF assms]])
      (use goodD(7) [OF soundD(1) [OF assms]] in \<open>simp_all add: inv_poll_def\<close>)
  then show ?thesis using assms by (simp add: sound_def populated_but_def)
qed

lemma sendData_sound:
  assumes s: "sound s"
  shows "returns (sendData fd sent s) (\<lambda>t. sound t \<and> net s t)"
proof (cases "map_of (sv_clients s) fd")
  case None
  then show ?thesis using s by (simp add: sendData_def)
next
  case (Some p)
  then obtain c where p: "hp_client s p = Some c" and fd: "fd \<in> fst ` set (sv_clients s)"
    using client_of_fd [OF s] by metis
  define s1 where "s1 = set_client p (c\<lparr>cl_write_buffer := drop (nat sent) (cl_write_buffer c)\<rparr>) s"
  have s1: "sound s1" "net s s1" "fd \<in> fst ` set (sv_clients s1)"
    and p1: "hp_client s1 p = Some (c\<lparr>cl_write_buffer := drop (nat sent) (cl_write_buffer c)\<rparr>)"
    using touch_client_sound [OF s p] fd by (simp_all add: s1_def)
  have "net s (s1\<lparr>sv_closing := cl\<rparr>) = net s s1" "net s ((markForDisconnection fd r s1)\<lparr>sv_closing := cl\<rparr>) = net s s1" for cl r
    by (simp_all add: net_def)
  then show ?thesis
    using Some p s s1 mark_sound [OF s fd] erase_closing_sound [OF mark_sound [OF s1(1,3)]]
    by (auto simp: sendData_def heap_simps s1_def [symmetric] p1 split: option.split)
qed

section \<open>New connections\<close>

lemma receive_turn_sound:
  assumes s: "sound s"
  shows "returns (receive_turn e fd s) (\<lambda>(thrown, t). sound t \<and> net s t \<and> (thrown \<longrightarrow> sv_to_disconnected t = sv_to_disconnected s))"
proof (cases "ev_fault e")
  case None
  then show ?thesis using receiveData_sound [OF s, of "ev_now e" fd "ev_recv e"] by (auto simp: receive_turn_def returns_def)
next
  case (Some point)
  show ?thesis
  proof (cases "map_of (sv_clients s) fd")
    case None
    then show ?thesis using s Some by (simp add: receive_turn_def receiveData_until_def)
  next
    case (Some p)
    then obtain c where p: "hp_client s p = Some c" and fd: "fd \<in> fst ` set (sv_clients s)"
      using client_of_fd [OF s] by metis
    define s1 where "s1 b = set_client p (updateLastActivity (ev_now e) (c\<lparr>cl_read_buffer := cl_read_buffer c @ b\<rparr>)) s" for b
    have s1: "sound (s1 b)" "net s (s1 b)" for b
      unfolding s1_def by (rule touch_client_sound [OF s p], simp_all add: updateLastActivity_def)
    have "returns (lines_until n (ev_now e) fd p (s1 b)) (\<lambda>(thrown, t). sound t \<and> net s t \<and> (thrown \<longrightarrow> sv_to_disconnected t = sv_to_disconnected s))" for b n
      by (rule returns_mono [OF lines_until_sound [OF s1(1)]]) (auto simp: s1_def)
    then show ?thesis
      using Some \<open>ev_fault e = Some point\<close> p s mark_sound [OF s fd] mark_sound [OF s1(1)] s1 fd
      by (auto simp: receive_turn_def receiveData_until_def heap_simps s1_def split: recv_result.split fault_point.split)
  qed
qed

lemma client_turn_sound:
  assumes s: "sound s" and fd: "fd \<in> fst ` set (sv_clients s)"
  shows "returns (client_turn e fd s) (\<lambda>t. sound t \<and> net s t)"
proof -
  have rest: "returns (if thrown then Some (markForDisconnection fd ''Internal error'' t)
      else if POLLOUT \<in> ev_revents e \<and> \<not> isMarked fd t then sendData fd (ev_send e) t else Some t) (\<lambda>t. sound t \<and> net s t)"
    if "sound t" "net s t" for thrown t
  proof -
    have "fd \<in> fst ` set (sv_clients t)" using that(2) fd by (simp add: net_def)
    then show ?thesis
      using returns_mono [OF sendData_sound [OF that(1)]] that net_trans mark_sound [OF that(1)] by auto
  qed
  have "returns (if POLLIN \<in> ev_revents e \<or> POLLHUP \<in> ev_revents e then receive_turn e fd s else Some (False, s))
      (\<lambda>(thrown, t). sound t \<and> net s t)"
    using receive_turn_sound [OF s, of e fd] s by (auto elim!: returns_mono)
  then show ?thesis unfolding client_turn_def
    by (rule returns_bindI) (use rest in \<open>auto simp del: returns_if\<close>)
qed

text \<open>
  What the turn of a client is made of: input arrives or is taken from its buffer, its lines are executed while it is
  neither marked nor closing, its output is sent, and it is marked. A property that these keep, the turn keeps.
\<close>

definition input_only :: "client \<Rightarrow> client \<Rightarrow> bool" where
  "input_only c c' \<longleftrightarrow> (\<exists>b now sent. c' = c\<lparr>cl_read_buffer := b, cl_lastActivity := now, cl_pingSent := sent\<rparr>)"

lemma input_only_fields:
  assumes "input_only c c'"
  shows "cl_fd c' = cl_fd c" "cl_joinedChannels c' = cl_joinedChannels c" "cl_invitedChannels c' = cl_invitedChannels c"
    "cl_nickname c' = cl_nickname c" "cl_username c' = cl_username c"
    "cl_is_registered c' = cl_is_registered c" "cl_is_password_verified c' = cl_is_password_verified c"
  using assms by (auto simp: input_only_def)

lemma input_only_pop: "popLine c = (l, c') \<Longrightarrow> input_only c c'"
  unfolding input_only_def
  by (rule exI [of _ "cl_read_buffer c'"], rule exI [of _ "cl_lastActivity c"], rule exI [of _ "cl_pingSent c"])
    (auto simp: popLine_def Let_def)

lemma input_only_arrival: "input_only c (updateLastActivity now (c\<lparr>cl_read_buffer := b\<rparr>))"
  unfolding input_only_def updateLastActivity_def by (intro exI) simp

locale receiving =
  fixes J :: "server \<Rightarrow> bool" and e :: event and fd :: int
  assumes touch: "sound u \<Longrightarrow> J u \<Longrightarrow> hp_client u p = Some c \<Longrightarrow> map_of (sv_clients u) fd = Some p \<Longrightarrow> input_only c c' \<Longrightarrow> J (set_client p c' u)"
    and operates: "sound u \<Longrightarrow> J u \<Longrightarrow> hp_client u p = Some c \<Longrightarrow> map_of (sv_clients u) fd = Some p \<Longrightarrow> \<not> isMarked fd u \<Longrightarrow>
      fd \<notin> fst ` set (sv_closing u) \<Longrightarrow> operate (ev_now e) p l u = Some (ok, v) \<Longrightarrow> J v"
    and marks: "sound u \<Longrightarrow> J u \<Longrightarrow> J (markForDisconnection fd r u)"
begin

lemma touched:
  assumes "sound u" "J u" "hp_client u p = Some c" "map_of (sv_clients u) fd = Some p" "input_only c c'"
  shows "sound (set_client p c' u)" "J (set_client p c' u)" "hp_client (set_client p c' u) p = Some c'"
  using touch_client_sound [OF assms(1,3) input_only_fields [OF assms(5)]] touch [OF assms] by simp_all

lemma operated:
  assumes "sound u" "J u" "hp_client u p = Some c" "map_of (sv_clients u) fd = Some p" "looping fd u c0" "operate (ev_now e) p l u = Some (ok, v)"
  shows "sound v" "J v" "\<exists>d. hp_client v p = Some d" "map_of (sv_clients v) fd = Some p"
proof -
  have k: "keeps_but (line_grants p l u) u v" using operate_keeps [OF assms(1,3), of "ev_now e" l] assms(6) by simp
  then show "sound v" "\<exists>d. hp_client v p = Some d" "map_of (sv_clients v) fd = Some p"
    using keeps_client [OF k assms(3)] assms(4) frameD(1) by (auto simp: keeps_but_def)
  show "J v" using assms(5) by (intro operates [OF assms(1-4) _ _ assms(6)]) (auto simp: looping_def)
qed

lemma lines:
  assumes "line_loop (ev_now e) fd p s = Some t" "sound s" "J s" "map_of (sv_clients s) fd = Some p"
  shows "J t"
  using assms
proof (induction rule: line_loop_induct)
  case (blank s c c' t)
  then show ?case using touched [OF blank.prems(1,2) blank(1) blank.prems(3) input_only_pop [OF blank(3)]] by simp
next
  case (line s c l c' ok u t)
  note s1 = touched [OF line.prems(1,2) line(1) line.prems(3) input_only_pop [OF line(3)]]
  have "looping fd (set_client p c' s) c" using line(2) by (simp add: looping_def isMarked_def)
  then show ?case using operated [OF s1 _ _ line(5)] line.prems(3) line.IH by simp
qed simp

lemma lines_until:
  assumes "lines_until n (ev_now e) fd p s = Some (thrown, t)" "sound s" "J s" "map_of (sv_clients s) fd = Some p" "hp_client s p = Some c"
  shows "J t"
  using assms
proof (induction n arbitrary: s c)
  case 0
  then show ?case by simp
next
  case (Suc n)
  obtain l c' where pop: "popLine c = (l, c')" by (cases "popLine c")
  note s1 = touched [OF Suc.prems(2,3,5,4) input_only_pop [OF pop]]
  consider "t = s" | "lines_until n (ev_now e) fd p (set_client p c' s) = Some (thrown, t)"
    | ok u where "looping fd (set_client p c' s) c" "operate (ev_now e) p l (set_client p c' s) = Some (ok, u)" "lines_until n (ev_now e) fd p u = Some (thrown, t)"
    using Suc.prems(1,5) pop by (auto simp: bind_eq_Some_conv Let_def looping_def isMarked_def split: if_splits)
  then show ?case
  proof cases
    case 2
    then show ?thesis using Suc.IH [OF _ s1(1,2) _ s1(3)] Suc.prems(4) by simp
  next
    case 3
    then show ?thesis using operated [OF s1 _ 3(1,2)] Suc.prems(4) Suc.IH [OF 3(3)] by auto
  qed (use Suc.prems in simp)
qed

lemma received:
  assumes s: "sound s" and J: "J s" and t: "receive_turn e fd s = Some (thrown, t)"
  shows "J t"
proof (cases "map_of (sv_clients s) fd")
  case None
  then show ?thesis using t J by (auto simp: receive_turn_def receiveData_def receiveData_until_def split: option.splits)
next
  case (Some p)
  obtain c where p: "hp_client s p = Some c" using client_of_fd [OF s Some] by metis
  define s1 where "s1 b = set_client p (updateLastActivity (ev_now e) (c\<lparr>cl_read_buffer := cl_read_buffer c @ b\<rparr>)) s" for b
  have s1: "sound (s1 b)" "J (s1 b)"
    "hp_client (s1 b) p = Some (updateLastActivity (ev_now e) (c\<lparr>cl_read_buffer := cl_read_buffer c @ b\<rparr>))" for b
    unfolding s1_def by (rule touched [OF s J p Some input_only_arrival])+
  have cl: "map_of (sv_clients (s1 b)) fd = Some p" for b using Some by (simp add: s1_def)
  have "t = s \<or> (\<exists>r. t = markForDisconnection fd r s) \<or> (\<exists>r b. t = markForDisconnection fd r (s1 b)) \<or>
      (\<exists>b. line_loop (ev_now e) fd p (s1 b) = Some t) \<or> (\<exists>n b. lines_until n (ev_now e) fd p (s1 b) = Some (thrown, t))"
    using t Some p by (auto simp: receive_turn_def receiveData_def receiveData_until_def heap_simps s1_def
      split: option.splits recv_result.splits if_splits fault_point.splits)
  then show ?thesis
    using J marks [OF s J] marks [OF s1(1,2)] lines [OF _ s1(1,2) cl] lines_until [OF _ s1(1,2) cl s1(3)] by metis
qed

lemma threw: "sound s \<Longrightarrow> J s \<Longrightarrow> entry_throws e fd s = Some (thrown, t) \<Longrightarrow> J t"
  using received by (auto simp: entry_throws_def bind_eq_Some_conv split: if_splits)

end

locale turn = receiving +
  assumes sends: "sound u \<Longrightarrow> J u \<Longrightarrow> \<not> isMarked fd u \<Longrightarrow> sendData fd (ev_send e) u = Some v \<Longrightarrow> J v"
begin

lemma turned:
  assumes s: "sound s" and J: "J s" and t: "client_turn e fd s = Some t"
  shows "J t"
proof -
  obtain thrown u where u: "(if POLLIN \<in> ev_revents e \<or> POLLHUP \<in> ev_revents e then receive_turn e fd s else Some (False, s)) = Some (thrown, u)"
      "(if thrown then Some (markForDisconnection fd ''Internal error'' u)
        else if POLLOUT \<in> ev_revents e \<and> \<not> isMarked fd u then sendData fd (ev_send e) u else Some u) = Some t"
    using t unfolding client_turn_def by (auto simp: bind_eq_Some_conv)
  have turn: "sound u \<and> J u"
  proof (cases "POLLIN \<in> ev_revents e \<or> POLLHUP \<in> ev_revents e")
    case True
    then have r: "receive_turn e fd s = Some (thrown, u)" using u(1) by simp
    then show ?thesis using receive_turn_sound [OF s, of e fd] received [OF s J r] by simp
  qed (use u(1) s J in simp)
  consider "t = markForDisconnection fd ''Internal error'' u" | "\<not> isMarked fd u" "sendData fd (ev_send e) u = Some t" | "t = u"
    using u(2) by (cases thrown; cases "POLLOUT \<in> ev_revents e \<and> \<not> isMarked fd u") auto
  then show ?thesis
  proof cases
    case 1
    then show ?thesis using marks turn by simp
  next
    case 2
    show ?thesis by (rule sends [OF conjunct1 [OF turn] conjunct2 [OF turn] 2])
  qed (use turn in simp)
qed

end

lemma inv_pollE:
  assumes "inv_poll s"
  obtains e es where "sv_poll_fds s = e # es" "pf_fd e = sv_server_fd s" "pf_fd ` set es = fst ` set (sv_clients s)"
    "distinct (map pf_fd (e # es))"
  using assms by (cases "sv_poll_fds s") (simp_all add: inv_poll_def, metis)

lemma good_new_client:
  assumes g: "good s" and new: "fd \<notin> fst ` set (sv_clients s)" "fd \<noteq> sv_server_fd s"
  shows "good (with_new_client (setIp ip (new_Client now fd)) s)" (is "good (with_new_client ?c s)")
proof -
  let ?t = "with_new_client ?c s" and ?p = "CPtr (hp_next s)"
  have c: "cl_fd ?c = fd" "cl_joinedChannels ?c = []" "cl_invitedChannels ?c = []" "cl_nickname ?c = []"
    "\<not> cl_is_registered ?c" by (simp_all add: setIp_def new_Client_def)
  have wf: "wf ?t" using new c by (intro wf_new_client goodD(1) [OF g]) auto
  have none: "hp_client s ?p = None"
    using wfD(6) [OF goodD(1) [OF g]] unfolding inv_alloc_def by (metis cptr.sel less_irrefl)
  have hp: "hp_client ?t = (hp_client s)(?p \<mapsto> ?c)" "hp_channel ?t = hp_channel s" by (simp_all add: with_new_client_def)
  have "inv_values ?t"
    using goodD(3) [OF g] c unfolding inv_values_def hp by (auto simp: ok_client_def)
  moreover have "inv_nicks ?t"
    unfolding inv_nicks_def
  proof (intro allI impI; elim conjE)
    fix p1 c1 p2 c2
    assume a: "hp_client ?t p1 = Some c1" "hp_client ?t p2 = Some c2" "cl_nickname c1 \<noteq> []"
      "toLower (cl_nickname c1) = toLower (cl_nickname c2)"
    then have "cl_nickname c2 \<noteq> []" by (metis toLower_Nil_iff(1))
    then have "p1 \<noteq> ?p" "p2 \<noteq> ?p" using a(1-3) c(4) by (auto simp: hp)
    then show "p1 = p2" using inv_nicksD [OF goodD(4) [OF g]] a by (simp add: hp)
  qed
  moreover have "inv_registered ?t"
    unfolding inv_registered_def
  proof (intro allI impI; elim conjE)
    fix q ch p d assume a: "hp_channel ?t q = Some ch" "p \<in> set (ch_members ch)" "hp_client ?t p = Some d"
    then have "p \<noteq> ?p" using member_live [OF goodD(1) [OF g], of q ch] none by (auto simp: hp live_clients_def)
    then show "cl_is_registered d" using goodD(5) [OF g] a unfolding inv_registered_def by (auto simp: hp)
  qed
  moreover have "inv_sched ?t"
    using goodD(6) [OF g] by (auto simp: inv_sched_def with_new_client_def)
  moreover have "inv_poll ?t"
  proof -
    obtain e es where es: "sv_poll_fds s = e # es" and "pf_fd e = sv_server_fd s"
        "pf_fd ` set es = fst ` set (sv_clients s)" "distinct (map pf_fd (e # es))"
      by (rule inv_pollE [OF goodD(7) [OF g]])
    moreover have "sv_poll_fds ?t = (e # es) @ [\<lparr>pf_fd = fd, pf_events = {POLLIN}\<rparr>]" "sv_clients ?t = omap_put fd ?p (sv_clients s)"
      "sv_server_fd ?t = sv_server_fd s" by (simp_all add: with_new_client_def es c)
    ultimately show ?thesis using new by (simp add: inv_poll_def)
  qed
  ultimately show ?thesis using wf by (simp add: good_def vals_def)
qed

text \<open>The part of the poll set that was there before stays where it is.\<close>

definition grows :: "server \<Rightarrow> server \<Rightarrow> bool" where
  "grows s t \<longleftrightarrow> sound t \<and> sv_server_fd t = sv_server_fd s \<and>
     (\<exists>fds. map pf_fd (sv_poll_fds t) = map pf_fd (sv_poll_fds s) @ fds)"

lemma grows_sound: "grows s t \<Longrightarrow> sound t"
  by (simp add: grows_def)

lemma grows_refl: "sound s \<Longrightarrow> grows s s"
  by (simp add: grows_def)

lemma grows_trans: "grows s t \<Longrightarrow> grows t u \<Longrightarrow> grows s u"
  by (auto simp: grows_def)

lemma grows_net: "sound t \<Longrightarrow> net s t \<Longrightarrow> grows s t"
  by (simp add: grows_def net_def)

lemma grows_nth:
  assumes "grows s t" "i < length (sv_poll_fds s)"
  shows "i < length (sv_poll_fds t)" "pf_fd (sv_poll_fds t ! i) = pf_fd (sv_poll_fds s ! i)"
proof -
  obtain fds where m: "map pf_fd (sv_poll_fds t) = map pf_fd (sv_poll_fds s) @ fds" using assms(1) by (auto simp: grows_def)
  then have "length (sv_poll_fds t) = length (sv_poll_fds s) + length fds" by (metis length_append length_map)
  then show i: "i < length (sv_poll_fds t)" using assms(2) by simp
  have "map pf_fd (sv_poll_fds t) ! i = map pf_fd (sv_poll_fds s) ! i"
    unfolding m using assms(2) by (simp add: nth_append)
  then show "pf_fd (sv_poll_fds t ! i) = pf_fd (sv_poll_fds s ! i)" using i assms(2) by simp
qed

lemma sound_listen_events:
  assumes "sound s"
  shows "returns (listen_events ev s) (\<lambda>t. grows s t \<and> sv_clients t = sv_clients s)"
proof -
  have "sv_poll_fds s \<noteq> []" using goodD(7) [OF soundD(1) [OF assms]] by (simp add: inv_poll_def)
  then show ?thesis
    using good_listen_events [OF soundD(1) [OF assms], of ev] soundD(2) [OF assms]
    by (cases "sv_poll_fds s") (simp_all add: listen_eq grows_def sound_def populated_but_def)
qed

text \<open>Burning an address keeps everything.\<close>

lemma skip_address_sound: "sound s \<Longrightarrow> sound (s\<lparr>hp_next := Suc (hp_next s)\<rparr>)"
proof -
  assume s: "sound s"
  let ?t = "s\<lparr>hp_next := Suc (hp_next s)\<rparr>"
  have "in_channel ?t = in_channel s" "invited_in ?t = invited_in s" "live_clients ?t = live_clients s"
    by (auto simp: fun_eq_iff in_channel_def invited_in_def live_clients_def)
  then have "wf ?t" using soundD(3) [OF s] by (auto simp: wf_def inv_defs less_SucI)
  moreover have "vals ?t \<longleftrightarrow> vals s" by (simp add: vals_def inv_defs)
  then have "vals ?t" using goodD(2) [OF soundD(1) [OF s]] by blast
  ultimately show ?thesis using soundD(2) [OF s] by (simp add: sound_def good_def populated_but_def)
qed

lemma acceptNewClient_eq:
  assumes s: "sound s" and fresh: "ae_fd e \<ge> 0 \<Longrightarrow> ae_fd e \<noteq> sv_server_fd s \<and> ae_fd e \<notin> fst ` set (sv_clients s)"
  shows "acceptNewClient now e s = (if ae_fd e < 0 then listen_events {} s
     else Some (if \<not> ae_nonblocking e \<or> ae_alloc e = Fail_new then s
       else if ae_alloc e = Alloc_ok then with_new_client (setIp (ae_ip e) (new_Client now (ae_fd e))) s
       else s\<lparr>hp_next := Suc (hp_next s)\<rparr>))"
proof (cases "ae_fd e < 0 \<or> \<not> ae_nonblocking e")
  case True
  then show ?thesis by (auto simp: acceptNewClient_def Let_def)
next
  case False
  obtain f es where es: "sv_poll_fds s = f # es" "pf_fd f = sv_server_fd s" "pf_fd ` set es = fst ` set (sv_clients s)"
    by (rule inv_pollE [OF goodD(7) [OF soundD(1) [OF s]]])
  then have last: "pf_fd (last (sv_poll_fds s)) \<noteq> ae_fd e"
    using False fresh by (metis imageI last_ConsL last_ConsR last_in_set linorder_not_less)
  have none: "hp_client s (CPtr (hp_next s)) = None"
    using wfD(6) [OF soundD(3) [OF s]] unfolding inv_alloc_def by (metis cptr.sel less_irrefl)
  show ?thesis
    using False last none
    by (cases "ae_alloc e")
      (auto simp: acceptNewClient_def Let_def new_client_def on_client_def delete_client_def accept_rollback_def set_client_def
        with_new_client_def createPollFd_def setIp_def new_Client_def fun_upd_idem intro!: server.equality)
qed

lemma acceptNewClient_sound:
  assumes s: "sound s" and fresh: "ae_fd e \<ge> 0 \<Longrightarrow> ae_fd e \<noteq> sv_server_fd s \<and> ae_fd e \<notin> fst ` set (sv_clients s)"
  shows "returns (acceptNewClient now e s) (grows s)"
proof (cases "ae_fd e < 0")
  case True
  then show ?thesis
    using returns_mono [OF sound_listen_events [OF s, of "{}"]] by (auto simp: acceptNewClient_def Let_def)
next
  case False
  let ?c = "setIp (ae_ip e) (new_Client now (ae_fd e))"
  have "grows s (with_new_client ?c s)"
    using good_new_client [OF soundD(1) [OF s]] soundD(2) [OF s] False fresh
    by (simp add: grows_def sound_def populated_but_def with_new_client_def)
  moreover have "grows s (s\<lparr>hp_next := Suc (hp_next s)\<rparr>)"
    using skip_address_sound [OF s] by (simp add: grows_def)
  ultimately show ?thesis using False grows_refl [OF s] by (simp add: acceptNewClient_eq [OF s fresh])
qed

section \<open>Housekeeping\<close>

lemma refresh_loop_sound:
  assumes "sound s"
  shows "returns (refresh_loop es s) (\<lambda>(es', t). sound t \<and> net s t \<and> map pf_fd es' = map pf_fd es)"
  using assms
proof (induction es arbitrary: s)
  case (Cons e es)
  have rest: "returns (refresh_loop es t \<bind> (\<lambda>(es, s). Some (e' # es, s)))
      (\<lambda>(es', u). sound u \<and> net s u \<and> map pf_fd es' = map pf_fd (e # es))"
    if "sound t" "net s t" "pf_fd e' = pf_fd e" for t e'
  proof -
    have "returns (refresh_loop es t) (\<lambda>(es', u). sound u \<and> net t u \<and> map pf_fd es' = map pf_fd es)"
      using Cons.IH that(1) .
    then have "returns (refresh_loop es t) (\<lambda>r. sound (snd r) \<and> net s (snd r) \<and> map pf_fd (fst r) = map pf_fd es)"
      by (rule returns_mono) (use that(2) net_trans in auto)
    then show ?thesis using that(3) by (simp add: case_prod_unfold)
  qed
  show ?case
  proof (cases "pf_fd e = sv_server_fd s \<or> map_of (sv_clients s) (pf_fd e) = None")
    case True
    then show ?thesis using rest [OF Cons.prems] by auto
  next
    case False
    then obtain p where p: "map_of (sv_clients s) (pf_fd e) = Some p" by auto
    then obtain c where c: "hp_client s p = Some c" "pf_fd e \<in> fst ` set (sv_clients s)"
      using client_of_fd [OF Cons.prems] by metis
    then show ?thesis using False p rest [OF Cons.prems] rest [OF mark_sound [OF Cons.prems c(2)]] by simp
  qed
qed simp

lemma inv_poll_fds:
  assumes "inv_poll s" "map pf_fd es = map pf_fd (sv_poll_fds s)" "sv_clients t = sv_clients s" "sv_server_fd t = sv_server_fd s"
    "sv_poll_fds t = es"
  shows "inv_poll t"
proof -
  obtain f fs where f: "sv_poll_fds s = f # fs" "pf_fd f = sv_server_fd s" "pf_fd ` set fs = fst ` set (sv_clients s)"
    "distinct (map pf_fd (f # fs))" by (rule inv_pollE [OF assms(1)])
  then obtain g gs where g: "es = g # gs" "pf_fd g = pf_fd f" "map pf_fd gs = map pf_fd fs" using assms(2) by auto
  have "pf_fd ` set gs = pf_fd ` set fs" using g(3) by (metis set_map)
  then show ?thesis using assms(3-5) f g by (simp add: inv_poll_def)
qed

lemma grows_repoll:
  assumes "sound t" "net s t" "map pf_fd es = map pf_fd (sv_poll_fds s)"
  shows "grows s (t\<lparr>sv_poll_fds := es\<rparr>)"
proof -
  have "inv_poll (t\<lparr>sv_poll_fds := es\<rparr>)"
    by (rule inv_poll_fds [OF goodD(7) [OF soundD(1) [OF assms(1)]]]) (use assms in \<open>auto simp: net_def\<close>)
  then have "good (t\<lparr>sv_poll_fds := es\<rparr>)"
    by (intro good_reschedule [OF soundD(1) [OF assms(1)]])
      (use goodD(6) [OF soundD(1) [OF assms(1)]] in \<open>simp_all add: inv_sched_def\<close>)
  then show ?thesis using assms by (simp add: grows_def sound_def net_def populated_but_def)
qed

lemma refreshPollEvents_sound:
  assumes s: "sound s"
  shows "returns (refreshPollEvents s) (\<lambda>t. grows s t \<and> sv_clients t = sv_clients s \<and> map pf_fd (sv_poll_fds t) = map pf_fd (sv_poll_fds s))"
proof -
  have "returns (refresh_loop (sv_poll_fds s) s) (\<lambda>r. grows s ((snd r)\<lparr>sv_poll_fds := fst r\<rparr>) \<and>
      sv_clients (snd r) = sv_clients s \<and> map pf_fd (fst r) = map pf_fd (sv_poll_fds s))"
    by (rule returns_mono [OF refresh_loop_sound [OF s]]) (use grows_repoll in \<open>auto simp: net_def\<close>)
  then show ?thesis by (simp add: refreshPollEvents_def case_prod_unfold)
qed

lemma idle_step_sound:
  assumes s: "sound s" and it: "it \<in> set (sv_clients s)"
  shows "returns (idle_step now it s) (\<lambda>t. sound t \<and> net s t)"
proof -
  obtain c where p: "hp_client s (snd it) = Some c" by (rule client_entry [OF soundD(3) [OF s] it])
  have fd: "fst it \<in> fst ` set (sv_clients s)" using it by simp
  have close: "returns (disconnectAfterFlush now (snd it) r s) (\<lambda>t. sound t \<and> net s t)" for r
    unfolding disconnectClient_def [symmetric]
    by (rule returns_mono [OF disconnectClient_keeps [OF s p, of now r]]) (use net_frame in \<open>auto simp: keeps_but_def\<close>)
  have "sound (set_client (snd it) (setPingSent True (emit ms c)) s)" for ms
    by (rule touch_client_sound [OF s p]) (simp_all add: setPingSent_def)
  then show ?thesis
    using p s close mark_sound [OF s fd]
    by (auto simp: idle_step_def Let_def on_client_def sendReply_emit split: option.split)
qed

section \<open>The loop\<close>

text \<open>\<open>accept\<close> returns a descriptor that is not open: neither the listening socket nor a connected client.\<close>

definition accept_fresh :: "server \<Rightarrow> accept_env \<Rightarrow> bool" where
  "accept_fresh s e \<longleftrightarrow> (ae_fd e \<ge> 0 \<longrightarrow> ae_fd e \<noteq> sv_server_fd s \<and> ae_fd e \<notin> fst ` set (sv_clients s))"

lemma poll_step_sound:
  assumes s: "sound s" and i: "i < length (sv_poll_fds s)"
    and fresh: "pf_fd (sv_poll_fds s ! i) = sv_server_fd s \<Longrightarrow> accept_fresh s (ev_accept (event i))"
  shows "returns (poll_step event i s) (grows s)"
proof (cases "pf_fd (sv_poll_fds s ! i) = sv_server_fd s")
  case True
  have "returns (acceptNewClient (ev_now (event i)) (ev_accept (event i)) s) (grows s)"
    by (rule acceptNewClient_sound [OF s]) (use fresh [OF True] in \<open>simp add: accept_fresh_def\<close>)
  then show ?thesis using True i grows_refl [OF s] by (simp add: poll_step_def Let_def)
next
  case False
  let ?fd = "pf_fd (sv_poll_fds s ! i)" and ?e = "event i"
  obtain f fs where f: "sv_poll_fds s = f # fs" "pf_fd f = sv_server_fd s" "pf_fd ` set fs = fst ` set (sv_clients s)"
    by (rule inv_pollE [OF goodD(7) [OF soundD(1) [OF s]]])
  have "sv_poll_fds s ! i \<in> set (f # fs)" using i f(1) by (metis nth_mem)
  then have fd: "?fd \<in> fst ` set (sv_clients s)" using False f by auto
  have "returns (client_turn ?e ?fd s) (grows s)"
    by (rule returns_mono [OF client_turn_sound [OF s fd]]) (simp add: grows_net)
  then show ?thesis
    using False i grows_refl [OF s] grows_net [OF mark_sound [OF s fd]]
    by (simp add: poll_step_def Let_def)
qed

text \<open>
  What every step keeps, the loop keeps: \<open>J i\<close> is any property of the state before the entry \<open>i\<close> that the step preserves.
  The loop itself does not fault.
\<close>

lemma poll_loop_keeps:
  assumes s: "sound s" and fresh: "accept_fresh s (ev_accept (event 0))" and J: "J 0 s" and n: "n \<le> length (sv_poll_fds s)"
    and step: "\<And>i u v. grows s u \<Longrightarrow> i < n \<Longrightarrow> J i u \<Longrightarrow> poll_step event i u = Some v \<Longrightarrow> J (Suc i) v"
  shows "returns (each (poll_step event) [0..<n] s) (\<lambda>t. grows s t \<and> J n t)"
proof -
  obtain f fs where f: "sv_poll_fds s = f # fs" "pf_fd f = sv_server_fd s" "distinct (map pf_fd (f # fs))"
    by (rule inv_pollE [OF goodD(7) [OF soundD(1) [OF s]]])
  have "returns (each (poll_step event) [0..<k] s) (\<lambda>t. grows s t \<and> J k t \<and> (k = 0 \<longrightarrow> t = s))" if "k \<le> n" for k
    using that
  proof (induction k)
    case 0
    then show ?case using grows_refl [OF s] J by simp
  next
    case (Suc k)
    have "returns (poll_step event k u) (\<lambda>t. grows s t \<and> J (Suc k) t)" if u: "grows s u \<and> J k u \<and> (k = 0 \<longrightarrow> u = s)" for u
    proof -
      have k: "k < length (sv_poll_fds s)" using Suc.prems n by simp
      have su: "sv_server_fd u = sv_server_fd s" using u by (simp add: grows_def)
      have "accept_fresh u (ev_accept (event k))" if own: "pf_fd (sv_poll_fds u ! k) = sv_server_fd u"
      proof (cases k)
        case 0
        then show ?thesis using u fresh by simp
      next
        case (Suc j)
        then have "j < length fs" using k f(1) by simp
        then have "pf_fd (sv_poll_fds s ! k) \<noteq> pf_fd f"
          using f(1,3) Suc by (metis distinct.simps(2) list.simps(9) list.set_map nth_Cons_Suc nth_mem imageI)
        then show ?thesis using own grows_nth(2) [of s u k] u k su f(2) by simp
      qed
      then have "returns (poll_step event k u) (grows u)"
        using u grows_nth(1) [of s u k] k by (intro poll_step_sound) (auto simp: grows_def)
      then show ?thesis using step [of u k] u Suc.prems grows_trans [of s u] by (auto simp: returns_def)
    qed
    then show ?case using returns_bindI [OF Suc.IH, of "poll_step event k"] Suc.prems by (simp add: each_append)
  qed
  from this [of n] show ?thesis by (auto elim!: returns_mono)
qed

section \<open>Iterations that an exception leaves\<close>

lemma sendq_exceeded_returns: "sound s \<Longrightarrow> returns (sendq_exceeded e s) (\<lambda>_. True)"
  by (auto simp: sendq_exceeded_def split: option.split elim!: client_of_fd)

text \<open>\<open>refreshPollEvents\<close>, whole or in part\<close>

lemma refresh_phase_loop:
  assumes s: "sound s"
  shows "returns (refresh_phase f s) (\<lambda>(thrown, t). grows s t \<and> sv_clients t = sv_clients s \<and>
     (\<exists>n es es' u. refresh_loop (take n (sv_poll_fds s)) s = Some (es, u) \<and> t = u\<lparr>sv_poll_fds := es'\<rparr>) \<and>
     (\<not> thrown \<longrightarrow> refreshPollEvents s = Some t))"
    (is "returns _ ?Q")
proof -
  have whole: "returns (map_option (Pair False) (refreshPollEvents s)) ?Q"
  proof -
    obtain es u where "refresh_loop (sv_poll_fds s) s = Some (es, u)" "refreshPollEvents s = Some (u\<lparr>sv_poll_fds := es\<rparr>)"
      using refreshPollEvents_sound [OF s] by (auto simp: returns_def refreshPollEvents_def bind_eq_Some_conv)
    moreover from this have "\<exists>n esa es' u'. refresh_loop (take n (sv_poll_fds s)) s = Some (esa, u') \<and>
        u\<lparr>sv_poll_fds := es\<rparr> = u'\<lparr>sv_poll_fds := es'\<rparr>"
      by (intro exI [of _ "length (sv_poll_fds s)"] exI [of _ es] exI [of _ u]) simp
    ultimately show ?thesis using refreshPollEvents_sound [OF s] by simp
  qed
  have until: "returns (refresh_until n s) ?Q" for n
  proof (cases "drop n (sv_poll_fds s)")
    case Nil
    then show ?thesis using whole by (simp add: refresh_until_def)
  next
    case (Cons e after)
    obtain es u where loop: "refresh_loop (take n (sv_poll_fds s)) s = Some (es, u)"
      and u: "sound u" "net s u" "map pf_fd es = map pf_fd (take n (sv_poll_fds s))"
      using refresh_loop_sound [OF s, of "take n (sv_poll_fds s)"] by (auto elim!: returnsE)
    have "map pf_fd (sv_poll_fds s) = map pf_fd (take n (sv_poll_fds s) @ drop n (sv_poll_fds s))" by simp
    then have "map pf_fd (es @ e\<lparr>pf_events := {POLLIN}\<rparr> # after) = map pf_fd (sv_poll_fds s)" using u(3) Cons by simp
    then have "grows s (u\<lparr>sv_poll_fds := es @ e\<lparr>pf_events := {POLLIN}\<rparr> # after\<rparr>)" by (rule grows_repoll [OF u(1,2)])
    then show ?thesis
      using sendq_exceeded_returns [OF u(1), of e] whole Cons loop u(2)
      by (auto simp: refresh_until_def net_def elim!: returns_mono)
  qed
  show ?thesis using whole until by (auto simp: refresh_phase_def split: option.split loop_fault.split)
qed

text \<open>The loop over the poll set\<close>

lemma entry_throws_sound:
  assumes s: "sound s"
  shows "returns (entry_throws e fd s) (\<lambda>(thrown, t). sound t \<and> net s t)"
  using receive_turn_sound [OF s, of e fd] s by (auto simp: entry_throws_def elim!: returns_mono)

lemma poll_phase_keeps:
  assumes s: "sound s" and fresh: "accept_fresh s (ev_accept (event 0))" and J: "J 0 s" and count: "count = length (sv_poll_fds s)"
    and step: "\<And>i u v. grows s u \<Longrightarrow> i < count \<Longrightarrow> J i u \<Longrightarrow> poll_step event i u = Some v \<Longrightarrow> J (Suc i) v"
  shows "\<exists>thrown t. poll_phase f event count s = Some (thrown, t) \<and> grows s t \<and>
     (\<not> thrown \<longrightarrow> J count t \<and> each (poll_step event) [0..<count] s = Some t) \<and>
     (thrown \<longrightarrow> (\<exists>i u. i < count \<and> grows s u \<and> J i u \<and> entry_throws (event i) (pf_fd (sv_poll_fds s ! i)) u = Some (True, t)))"
    (is "\<exists>thrown t. _ = Some (thrown, t) \<and> ?Q thrown t")
proof -
  have loop: "returns (each (poll_step event) [0..<n] s) (\<lambda>t. grows s t \<and> J n t)" if "n \<le> count" for n
    using that count by (intro poll_loop_keeps [where J = J and event = event, OF s fresh J] step) auto
  then obtain z where "each (poll_step event) [0..<count] s = Some z" "grows s z" "J count z" using loop [of count] by (auto elim!: returnsE)
  then have whole: "map_option (Pair False) (each (poll_step event) [0..<count] s) = Some (False, z) \<and> ?Q False z" by simp
  have until: "\<exists>thrown t. poll_until n event count s = Some (thrown, t) \<and> ?Q thrown t" if n: "n < count" for n
  proof -
    obtain u where u: "each (poll_step event) [0..<n] s = Some u" "grows s u" "J n u" using loop [of n] n by (auto elim!: returnsE)
    have fd: "pf_fd (sv_poll_fds u ! n) = pf_fd (sv_poll_fds s ! n)" using grows_nth [OF u(2)] n count by simp
    obtain thrown t where t: "entry_throws (event n) (pf_fd (sv_poll_fds s ! n)) u = Some (thrown, t)" "sound t" "net u t"
      using entry_throws_sound [OF grows_sound [OF u(2)], of "event n" "pf_fd (sv_poll_fds s ! n)"] by (auto elim!: returnsE)
    have "[0..<count] = [0..<n] @ [n..<count]" using n upt_add_eq_append [of 0 n "count - n"] by simp
    then have "each (poll_step event) [n..<count] u = each (poll_step event) [0..<count] s" using u(1) by (simp add: each_append)
    then have eq: "poll_until n event count s = (if thrown then Some (True, t) else Some (False, z))"
      using whole u(1) t(1) fd n by (simp add: poll_until_def del: upt_Suc)
    show ?thesis
    proof (cases thrown)
      case True
      then have "entry_throws (event n) (pf_fd (sv_poll_fds s ! n)) u = Some (True, t)" using t(1) by simp
      then have "?Q True t" using u(2,3) n grows_trans [OF u(2) grows_net [OF t(2,3)]] by simp blast
      then show ?thesis using eq True by auto
    qed (use eq whole in auto)
  qed
  show ?thesis
  proof (cases "\<exists>n. f = Some (In_poll n) \<and> n < count")
    case True
    then show ?thesis using until by (auto simp: poll_phase_def)
  next
    case False
    then show ?thesis using whole by (auto simp: poll_phase_def poll_until_def split: option.split loop_fault.split)
  qed
qed

text \<open>The clean-up and the idle check: some of the marked clients, some of the clients\<close>

lemma unmarked_sound: "sound s \<Longrightarrow> sound (s\<lparr>sv_to_disconnected := []\<rparr>)"
proof -
  assume s: "sound s"
  have "good (s\<lparr>sv_to_disconnected := []\<rparr>)" by (rule good_reschedule [OF soundD(1) [OF s]])
    (use goodD(6,7) [OF soundD(1) [OF s]] in \<open>simp_all add: inv_sched_def inv_poll_def\<close>)
  then show ?thesis using soundD(2) [OF s] by (simp add: sound_def populated_but_def)
qed

lemma disconnects_keep:
  assumes "sound s" "sv_to_disconnected s = []" "distinct (map fst targets)" "fst ` set targets \<subseteq> fst ` set (sv_clients s)" "J s"
    "fst ` set targets \<subseteq> marked"
    and step: "\<And>u v p c fd notice. sound u \<Longrightarrow> sound v \<Longrightarrow> J u \<Longrightarrow> hp_client u p = Some c \<Longrightarrow> cl_fd c = fd \<Longrightarrow>
      fd \<in> marked \<Longrightarrow> gone p fd notice u v \<Longrightarrow> J v"
  shows "returns (each (\<lambda>it. disconnect (fst it) (snd it)) targets s) J"
  using assms(1-6)
proof (induction targets arbitrary: s)
  case (Cons it targets)
  have "fst it \<in> fst ` set (sv_clients s)" using Cons.prems(4) by simp
  then obtain p c where p: "map_of (sv_clients s) (fst it) = Some p" "hp_client s p = Some c" "cl_fd c = fst it"
    by (rule connected_client [OF soundD(3) [OF Cons.prems(1)]])
  then obtain u notice where u: "disconnect (fst it) (snd it) s = Some u" "good u" "gone p (fst it) notice s u"
    using disconnect_gone [OF soundD(1) [OF Cons.prems(1)]] Cons.prems(2) by fastforce
  have su: "sound u" using u(2) gone_populated [OF soundD(1) [OF Cons.prems(1)] u(3) soundD(2) [OF Cons.prems(1)]] by (simp add: sound_def)
  have "fst it \<in> marked" using Cons.prems(6) by simp
  then have "J u" by (rule step [OF Cons.prems(1) su Cons.prems(5) p(2,3) _ u(3)])
  moreover have "sv_to_disconnected u = []" using u(3) Cons.prems(2) by (simp add: gone_def)
  moreover have "fst ` set targets \<subseteq> fst ` set (sv_clients u)"
    unfolding gone_clients [OF u(3)] using Cons.prems(3,4) by (simp add: subset_Diff_insert)
  ultimately have "returns (each (\<lambda>it. disconnect (fst it) (snd it)) targets u) J"
    using Cons.IH [OF su] Cons.prems(3,6) by simp
  then show ?case using u(1) by simp
qed simp

definition disconnect_first :: "nat \<Rightarrow> server \<Rightarrow> server option" where
  "disconnect_first n s =
     each (\<lambda>it. disconnect (fst it) (snd it)) (take n (sv_to_disconnected s)) (s\<lparr>sv_to_disconnected := []\<rparr>)"

lemma first_targets:
  assumes "sound s"
  shows "distinct (map fst (take n (sv_to_disconnected s)))"
    "fst ` set (take n (sv_to_disconnected s)) \<subseteq> fst ` set (sv_clients s)"
proof -
  have "distinct (map fst (sv_to_disconnected s))" "fst ` set (sv_to_disconnected s) \<subseteq> fst ` set (sv_clients s)"
    using goodD(6) [OF soundD(1) [OF assms]] omap_ok_distinct by (auto simp: inv_sched_def)
  moreover have "fst ` set (take n (sv_to_disconnected s)) \<subseteq> fst ` set (sv_to_disconnected s)" by (rule image_mono [OF set_take_subset])
  ultimately show "distinct (map fst (take n (sv_to_disconnected s)))"
    "fst ` set (take n (sv_to_disconnected s)) \<subseteq> fst ` set (sv_clients s)" by (auto simp: take_map [symmetric])
qed

lemma disconnect_first_sound:
  assumes s: "sound s"
  shows "returns (disconnect_first n s) (\<lambda>t. sound t \<and> sv_to_disconnected t = [] \<and>
     fst ` set (sv_clients t) = fst ` set (sv_clients s) - fst ` set (take n (sv_to_disconnected s)))"
  unfolding disconnect_first_def
  using each_disconnect [OF soundD(1) [OF unmarked_sound [OF s]], of "take n (sv_to_disconnected s)"] first_targets [OF s, of n]
    soundD(2) [OF unmarked_sound [OF s]] by (simp add: sound_def returns_def) blast

lemma disconnect_first_keeps:
  assumes s: "sound s" and J: "J (s\<lparr>sv_to_disconnected := []\<rparr>)" and t: "disconnect_first n s = Some t"
    and step: "\<And>u v p c fd notice. sound u \<Longrightarrow> sound v \<Longrightarrow> J u \<Longrightarrow> hp_client u p = Some c \<Longrightarrow> cl_fd c = fd \<Longrightarrow>
      fd \<in> fst ` set (sv_to_disconnected s) \<Longrightarrow> gone p fd notice u v \<Longrightarrow> J v"
  shows "J t"
proof -
  have "returns (disconnect_first n s) J"
    unfolding disconnect_first_def
  proof (rule disconnects_keep [where J = J and marked = "fst ` set (sv_to_disconnected s)", OF unmarked_sound [OF s] _ _ _ J])
    show "fst ` set (take n (sv_to_disconnected s)) \<subseteq> fst ` set (sv_to_disconnected s)" by (rule image_mono [OF set_take_subset])
    show "J v" if "sound u" "sound v" "J u" "hp_client u p = Some c" "cl_fd c = fd" "fd \<in> fst ` set (sv_to_disconnected s)"
      "gone p fd notice u v" for u v p c fd notice
      using that by (rule step)
  qed (use first_targets [OF s] in simp_all)
  then show ?thesis using t by simp
qed

lemma cleanup_until_first: "cleanup_until n s = map_option (Pair (n < length (sv_to_disconnected s))) (disconnect_first n s)"
  by (cases "disconnect_first n s") (simp_all add: cleanup_until_def disconnect_first_def)

lemma cleanup_phase_first:
  assumes s: "sound s"
  shows "\<exists>n thrown t. cleanup_phase f s = Some (thrown, t) \<and> disconnect_first n s = Some t \<and>
     (\<not> thrown \<longrightarrow> cleanupDisconnected s = Some t) \<and> (thrown \<longrightarrow> f = Some (In_cleanup n) \<and> n < length (sv_to_disconnected s))"
proof -
  let ?l = "length (sv_to_disconnected s)"
  have all: "cleanupDisconnected s = disconnect_first n s" if "?l \<le> n" for n
    using that by (simp add: cleanupDisconnected_def disconnect_first_def)
  have first: "\<exists>t. disconnect_first n s = Some t" for n using disconnect_first_sound [OF s, of n] by (auto elim!: returnsE)
  show ?thesis
  proof (cases "\<exists>n. f = Some (In_cleanup n)")
    case True
    then obtain n t where n: "f = Some (In_cleanup n)" and t: "disconnect_first n s = Some t" using first by blast
    then have "cleanup_phase f s = Some (n < ?l, t)" by (simp add: cleanup_phase_def cleanup_until_first)
    then show ?thesis using n t all [of n] by (intro exI [of _ n]) auto
  next
    case False
    then have "cleanup_phase f s = map_option (Pair False) (cleanupDisconnected s)"
      by (auto simp: cleanup_phase_def split: option.split loop_fault.split)
    then show ?thesis using all [of ?l] first [of ?l] by (intro exI [of _ ?l]) auto
  qed
qed

definition idle_first :: "nat \<Rightarrow> int \<Rightarrow> server \<Rightarrow> server option" where
  "idle_first n now s = each (idle_step now) (take n (sv_clients s)) s"

lemma idle_first_sound:
  assumes s: "sound s"
  shows "returns (idle_first n now s) (\<lambda>t. sound t \<and> net s t)"
  unfolding idle_first_def
proof (rule returns_each [where I = "\<lambda>t. sound t \<and> net s t"])
  fix it t assume it: "it \<in> set (take n (sv_clients s))" and t: "sound t \<and> net s t"
  then have "it \<in> set (sv_clients t)" using set_take_subset by (fastforce simp: net_def)
  then have "returns (idle_step now it t) (\<lambda>u. sound u \<and> net t u)" using t idle_step_sound by blast
  then show "returns (idle_step now it t) (\<lambda>u. sound u \<and> net s u)" by (rule returns_mono) (use t net_trans in blast)
qed (use s in simp)

lemma checkIdleClients_first: "checkIdleClients now s = idle_first (length (sv_clients s)) now s"
  by (simp add: checkIdleClients_def idle_first_def)

lemma checkIdleClients_sound: "sound s \<Longrightarrow> returns (checkIdleClients now s) (\<lambda>t. sound t \<and> net s t)"
  by (simp only: checkIdleClients_first idle_first_sound)

lemma idle_phase_first:
  assumes s: "sound s"
  shows "\<exists>n thrown t. idle_phase f now s = Some (thrown, t) \<and> idle_first n now s = Some t \<and>
     (\<not> thrown \<longrightarrow> checkIdleClients now s = Some t) \<and> (thrown \<longrightarrow> f \<noteq> None)"
proof -
  have first: "\<exists>t. idle_first n now s = Some t \<and> sound t \<and> net s t" for n
    using idle_first_sound [OF s, of n now] by (auto elim!: returnsE)
  obtain t where t: "checkIdleClients now s = Some t" using checkIdleClients_sound [OF s, of now] by (auto elim!: returnsE)
  then have whole: "\<exists>n thrown u. Some (False, t) = Some (thrown, u) \<and> idle_first n now s = Some u \<and>
      (\<not> thrown \<longrightarrow> checkIdleClients now s = Some u) \<and> (thrown \<longrightarrow> f \<noteq> None)"
    using checkIdleClients_first by auto
  show ?thesis
  proof (cases "\<exists>n it after. f = Some (In_idle n) \<and> drop n (sv_clients s) = it # after")
    case True
    then obtain n it after where f: "f = Some (In_idle n)" and d: "drop n (sv_clients s) = it # after" by blast
    obtain u where u: "idle_first n now s = Some u" "sound u" "net s u" using first by blast
    have split: "sv_clients s = take n (sv_clients s) @ it # after" using d append_take_drop_id [of n "sv_clients s"] by simp
    then have "it \<in> set (sv_clients u)" using u(3) unfolding net_def by (metis in_set_conv_decomp)
    then obtain c where c: "hp_client u (snd it) = Some c" by (rule client_entry [OF soundD(3) [OF u(2)]])
    have "checkIdleClients now s = each (idle_step now) (take n (sv_clients s) @ it # after) s"
      using split by (simp add: checkIdleClients_def)
    then have rest: "each (idle_step now) (it # after) u = Some t" using t u(1) by (simp add: each_append idle_first_def)
    obtain b where b: "idle_allocates now it u = Some b" using c by (simp add: idle_allocates_def)
    have "idle_phase f now s = (if b then Some (True, u) else Some (False, t))"
      using b rest u(1) d by (simp add: f idle_phase_def idle_until_def idle_first_def)
    then show ?thesis using u(1) whole f by (cases b) auto
  next
    case False
    then have "idle_phase f now s = Some (False, t)"
      using t by (auto simp: idle_phase_def idle_until_def split: option.split loop_fault.split list.split)
    then show ?thesis using whole by simp
  qed
qed

section \<open>One iteration\<close>

text \<open>An iteration is made of phases; an exception ends it after any of them.\<close>

lemma run_iteration_keeps:
  assumes s: "sound s" and fresh: "accept_fresh s (ev_accept (pe_event e 0))" and J: "J s"
    and refresh: "\<And>n es es' u v. sound u \<Longrightarrow> J u \<Longrightarrow> refresh_loop (take n (sv_poll_fds u)) u = Some (es, v) \<Longrightarrow> J (v\<lparr>sv_poll_fds := es'\<rparr>)"
    and listen: "\<And>u v. sound u \<Longrightarrow> J u \<Longrightarrow> listen_events {POLLIN} u = Some v \<Longrightarrow> J v"
    and step: "\<And>i u v. sound u \<Longrightarrow> J u \<Longrightarrow> poll_step (pe_event e) i u = Some v \<Longrightarrow> J v"
    and throw: "\<And>i fd u v. sound u \<Longrightarrow> J u \<Longrightarrow> entry_throws (pe_event e i) fd u = Some (True, v) \<Longrightarrow> J v"
    and clean: "\<And>n u v. sound u \<Longrightarrow> J u \<Longrightarrow> disconnect_first n u = Some v \<Longrightarrow> J v"
    and idle: "\<And>n u v. sound u \<Longrightarrow> J u \<Longrightarrow> idle_first n (pe_now e) u = Some v \<Longrightarrow> J v"
  shows "returns (run_iteration e s) (\<lambda>r. sound (snd r) \<and> J (snd r))"
proof -
  obtain b1 s1 where s1: "refresh_phase (pe_fault e) s = Some (b1, s1)" "grows s s1" "sv_clients s1 = sv_clients s" "J s1"
    using refresh_phase_loop [OF s, of "pe_fault e"] refresh [OF s J] by (auto elim!: returnsE)
  obtain s2 where s2: "(if pe_ready e = 0 then listen_events {POLLIN} s1 else Some s1) = Some s2"
    "grows s1 s2" "sv_clients s2 = sv_clients s1" "J s2"
    using sound_listen_events [OF grows_sound [OF s1(2)], of "{POLLIN}"] listen [OF grows_sound [OF s1(2)] s1(4)]
      grows_refl [OF grows_sound [OF s1(2)]] s1(4) by (cases "pe_ready e = 0") (auto elim!: returnsE)
  have "accept_fresh s2 (ev_accept (pe_event e 0))" using fresh s1(2,3) s2(2,3) by (simp add: accept_fresh_def grows_def)
  then have "\<exists>b s3. poll_phase (pe_fault e) (pe_event e) (length (sv_poll_fds s2)) s2 = Some (b, s3) \<and> grows s2 s3 \<and>
      (\<not> b \<longrightarrow> J s3 \<and> each (poll_step (pe_event e)) [0..<length (sv_poll_fds s2)] s2 = Some s3) \<and>
      (b \<longrightarrow> (\<exists>i u. i < length (sv_poll_fds s2) \<and> grows s2 u \<and> J u \<and>
         entry_throws (pe_event e i) (pf_fd (sv_poll_fds s2 ! i)) u = Some (True, s3)))"
    by (rule poll_phase_keeps [where J = "\<lambda>_. J" and event = "pe_event e", OF grows_sound [OF s2(2)] _ s2(4) refl])
      (use step grows_sound in blast)
  then obtain b3 s3 where s3: "poll_phase (pe_fault e) (pe_event e) (length (sv_poll_fds s2)) s2 = Some (b3, s3)" "grows s2 s3"
    and "\<not> b3 \<longrightarrow> J s3" "b3 \<longrightarrow> (\<exists>i u fd. grows s2 u \<and> J u \<and> entry_throws (pe_event e i) fd u = Some (True, s3))"
    by blast
  then have "J s3" using throw grows_sound by (cases b3) blast+
  with s3 grows_sound have s3: "poll_phase (pe_fault e) (pe_event e) (length (sv_poll_fds s2)) s2 = Some (b3, s3)" "sound s3" "J s3"
    by blast+
  obtain n b4 s4 where s4: "cleanup_phase (pe_fault e) s3 = Some (b4, s4)" "disconnect_first n s3 = Some s4"
    using cleanup_phase_first [OF s3(2)] by blast
  then have s4': "sound s4" "J s4" using disconnect_first_sound [OF s3(2), of n] clean [OF s3(2,3)] by auto
  obtain m b5 s5 where s5: "idle_phase (pe_fault e) (pe_now e) s4 = Some (b5, s5)" "idle_first m (pe_now e) s4 = Some s5"
    using idle_phase_first [OF s4'(1)] by blast
  then have s5': "sound s5" "J s5" using idle_first_sound [OF s4'(1), of m "pe_now e"] idle [OF s4'] by auto
  show ?thesis
    using s1 s2(1) s3 s4(1) s4' s5(1) s5' grows_sound [OF s1(2)] by (simp add: run_iteration_def)
qed

text \<open>The iterations no exception leaves, and all of them as a sequence of phases\<close>

lemma smooth_iteration:
  assumes "pe_fault e = None"
  shows "run_iteration e s = do {
     s \<leftarrow> refreshPollEvents s;
     if pe_ready e < 0 then Some (pe_eintr e, s)
     else do {
       s \<leftarrow> (if pe_ready e = 0 then listen_events {POLLIN} s else Some s);
       s \<leftarrow> each (poll_step (pe_event e)) [0..<length (sv_poll_fds s)] s;
       s \<leftarrow> cleanupDisconnected s;
       s \<leftarrow> checkIdleClients (pe_now e) s;
       Some (True, s) } }"
  using assms
  by (simp add: run_iteration_def refresh_phase_def poll_phase_def cleanup_phase_def idle_phase_def bind_map_opt cong: if_cong)

lemma iteration_phases:
  assumes "run_iteration e s = Some (go, t)"
  obtains (early) b where "refresh_phase (pe_fault e) s = Some (b, t)" "b \<and> go \<or> pe_ready e < 0"
    | (polled) s1 s2 b3 s3 where "go" "refresh_phase (pe_fault e) s = Some (False, s1)" "0 \<le> pe_ready e"
        "(if pe_ready e = 0 then listen_events {POLLIN} s1 else Some s1) = Some s2"
        "poll_phase (pe_fault e) (pe_event e) (length (sv_poll_fds s2)) s2 = Some (b3, s3)"
        "if b3 then t = s3 else \<exists>b4 s4. cleanup_phase (pe_fault e) s3 = Some (b4, s4) \<and>
           (if b4 then t = s4 else \<exists>b5. idle_phase (pe_fault e) (pe_now e) s4 = Some (b5, t))"
proof -
  obtain b1 s1 where s1: "refresh_phase (pe_fault e) s = Some (b1, s1)" using assms by (auto simp: run_iteration_def bind_eq_Some_conv)
  show thesis
  proof (cases "b1 \<or> pe_ready e < 0")
    case True
    then show ?thesis using assms s1 early by (auto simp: run_iteration_def split: if_splits)
  next
    case False
    then have b1: "refresh_phase (pe_fault e) s = Some (False, s1)" "0 \<le> pe_ready e" using s1 by simp_all
    obtain s2 b3 s3 where s2: "(if pe_ready e = 0 then listen_events {POLLIN} s1 else Some s1) = Some s2"
      and s3: "poll_phase (pe_fault e) (pe_event e) (length (sv_poll_fds s2)) s2 = Some (b3, s3)"
      and rest: "(if b3 then Some (True, s3) else do { (thrown, s) \<leftarrow> cleanup_phase (pe_fault e) s3; if thrown then Some (True, s)
          else do { (_, s) \<leftarrow> idle_phase (pe_fault e) (pe_now e) s; Some (True, s) } }) = Some (go, t)"
      using assms b1 by (auto simp: run_iteration_def bind_eq_Some_conv)
    have "go \<and> (if b3 then t = s3 else \<exists>b4 s4. cleanup_phase (pe_fault e) s3 = Some (b4, s4) \<and>
        (if b4 then t = s4 else \<exists>b5. idle_phase (pe_fault e) (pe_now e) s4 = Some (b5, t)))"
    proof (cases b3)
      case False
      then obtain b4 s4 where "cleanup_phase (pe_fault e) s3 = Some (b4, s4)"
        "(if b4 then Some (True, s4) else do { (_, s) \<leftarrow> idle_phase (pe_fault e) (pe_now e) s4; Some (True, s) }) = Some (go, t)"
        using rest by (auto simp: bind_eq_Some_conv)
      then show ?thesis using False by (cases b4) (auto simp: bind_eq_Some_conv)
    qed (use rest in auto)
    then show ?thesis using polled [OF _ b1 s2 s3] by blast
  qed
qed

lemma run_iteration_sound:
  assumes "sound s" and "accept_fresh s (ev_accept (pe_event e 0))"
  shows "returns (run_iteration e s) (\<lambda>r. sound (snd r))"
  using run_iteration_keeps [OF assms, of "\<lambda>_. True"] by simp

section \<open>Reachable states\<close>

inductive reachable :: "server \<Rightarrow> bool" where
  start: "init ie (new_Server port password) = Inr s \<Longrightarrow> reachable s"
| iteration: "reachable s \<Longrightarrow> accept_fresh s (ev_accept (pe_event e 0)) \<Longrightarrow> run_iteration e s = Some (continue, t) \<Longrightarrow> reachable t"

inductive_cases reachableE: "reachable s"

lemma init_sound: "init ie (new_Server port password) = Inr s \<Longrightarrow> sound s"
  by (auto simp: init_def new_Server_def Let_def sound_def good_def wf_def vals_def inv_defs populated_but_def split: if_splits)

lemma reachable_sound: "reachable s \<Longrightarrow> sound s"
proof (induction rule: reachable.induct)
  case (start ie port password s)
  then show ?case by (rule init_sound)
next
  case (iteration s e continue t)
  then show ?case using run_iteration_sound [of s e] by simp
qed

section \<open>Shutting down\<close>

lemma each_delete_clients:
  assumes "distinct (map snd es)" "\<forall>it \<in> set es. hp_client s (snd it) \<noteq> None"
  shows "each (\<lambda>it. delete_client (snd it)) es s =
     Some (s\<lparr>hp_client := (\<lambda>p. if p \<in> snd ` set es then None else hp_client s p)\<rparr>)"
  using assms
proof (induction es arbitrary: s)
  case (Cons it es)
  then obtain c where c: "hp_client s (snd it) = Some c" by auto
  let ?u = "s\<lparr>hp_client := (hp_client s)(snd it := None)\<rparr>"
  have ne: "snd x \<noteq> snd it" if "x \<in> set es" for x
    using Cons.prems(1) that by (metis distinct.simps(2) image_eqI list.set_map list.simps(9))
  then have "\<forall>x \<in> set es. hp_client ?u (snd x) \<noteq> None" using Cons.prems(2) by simp
  then have "each (\<lambda>it. delete_client (snd it)) es ?u =
      Some (?u\<lparr>hp_client := (\<lambda>p. if p \<in> snd ` set es then None else hp_client ?u p)\<rparr>)"
    using Cons.prems(1) by (intro Cons.IH) simp_all
  moreover have "(\<lambda>p. if p \<in> snd ` set es then None else hp_client ?u p) =
      (\<lambda>p. if p \<in> snd ` set (it # es) then None else hp_client s p)"
    by (auto simp: fun_eq_iff)
  moreover have "delete_client (snd it) s = Some ?u" using c by (simp add: delete_client_def)
  ultimately show ?case by simp
qed simp

lemma each_delete_channels:
  assumes "distinct (map snd es)" "\<forall>it \<in> set es. hp_channel s (snd it) \<noteq> None"
  shows "each (\<lambda>it. delete_channel (snd it)) es s =
     Some (s\<lparr>hp_channel := (\<lambda>q. if q \<in> snd ` set es then None else hp_channel s q)\<rparr>)"
  using assms
proof (induction es arbitrary: s)
  case (Cons it es)
  then obtain ch where ch: "hp_channel s (snd it) = Some ch" by auto
  let ?u = "s\<lparr>hp_channel := (hp_channel s)(snd it := None)\<rparr>"
  have ne: "snd x \<noteq> snd it" if "x \<in> set es" for x
    using Cons.prems(1) that by (metis distinct.simps(2) image_eqI list.set_map list.simps(9))
  then have "\<forall>x \<in> set es. hp_channel ?u (snd x) \<noteq> None" using Cons.prems(2) by simp
  then have "each (\<lambda>it. delete_channel (snd it)) es ?u =
      Some (?u\<lparr>hp_channel := (\<lambda>q. if q \<in> snd ` set es then None else hp_channel ?u q)\<rparr>)"
    using Cons.prems(1) by (intro Cons.IH) simp_all
  moreover have "(\<lambda>q. if q \<in> snd ` set es then None else hp_channel ?u q) =
      (\<lambda>q. if q \<in> snd ` set (it # es) then None else hp_channel s q)"
    by (auto simp: fun_eq_iff)
  moreover have "delete_channel (snd it) s = Some ?u" using ch by (simp add: delete_channel_def)
  ultimately show ?case by simp
qed simp

lemma clients_distinct:
  assumes "wf s"
  shows "distinct (map snd (sv_clients s))"
proof -
  have ok: "omap_ok (sv_clients s)" using wfD(1) [OF assms] by (simp add: inv_clients_def)
  have "inj_on snd (set (sv_clients s))"
  proof (rule inj_onI)
    fix x y assume a: "x \<in> set (sv_clients s)" "y \<in> set (sv_clients s)" and eq: "snd x = snd y"
    obtain c where "hp_client s (snd x) = Some c" "cl_fd c = fst x" by (rule client_entry [OF assms a(1)])
    moreover obtain d where "hp_client s (snd y) = Some d" "cl_fd d = fst y" by (rule client_entry [OF assms a(2)])
    ultimately show "x = y" using eq by (simp add: prod_eq_iff)
  qed
  then show ?thesis using omap_ok_distinct [OF ok] by (simp add: distinct_map)
qed

lemma destroy_frees:
  assumes wf: "wf s"
  shows "\<exists>t. destroy s = Some t \<and> hp_client t = Map.empty \<and> hp_channel t = Map.empty"
proof -
  let ?u = "s\<lparr>hp_client := Map.empty, sv_clients := []\<rparr>"
  have cl: "(\<lambda>p. if p \<in> snd ` set (sv_clients s) then None else hp_client s p) = Map.empty"
    using live_listed [OF wf] by (intro ext) metis
  have ch: "(\<lambda>q. if q \<in> snd ` set (sv_channels s) then None else hp_channel s q) = Map.empty"
    using channel_listed(1) [OF wf] by (intro ext) metis
  have "each (\<lambda>it. delete_client (snd it)) (sv_clients s) s = Some (s\<lparr>hp_client := Map.empty\<rparr>)"
    unfolding cl [symmetric] using live_listed [OF wf] by (intro each_delete_clients clients_distinct [OF wf]) auto
  moreover have "each (\<lambda>it. delete_channel (snd it)) (sv_channels s) ?u = Some (?u\<lparr>hp_channel := Map.empty\<rparr>)"
    using channel_listed [OF wf] ch by (subst each_delete_channels) (auto cong: if_cong)
  ultimately show ?thesis by (simp add: destroy_def)
qed

end
