(* ===== verification/Irc_Housekeeping.thy ===== *)
theory Irc_Housekeeping
  imports Irc_Safety
begin

text \<open>
  What the event loop does for the clients between two calls of \<open>poll\<close>: \<open>refreshPollEvents\<close> as a function of the
  output buffers, and the effect of \<open>checkIdleClients\<close> on each client.
\<close>

section \<open>The poll set as a function of the clients\<close>

definition client_at :: "server \<Rightarrow> int \<Rightarrow> client option" where
  "client_at s fd = Option.bind (map_of (sv_clients s) fd) (hp_client s)"

definition overfull :: "server \<Rightarrow> pollfd \<Rightarrow> bool" where
  "overfull s e \<longleftrightarrow> pf_fd e \<noteq> sv_server_fd s \<and>
     (case client_at s (pf_fd e) of None \<Rightarrow> False | Some c \<Rightarrow> MAX_SENDQ < length (cl_write_buffer c))"

definition wanted :: "server \<Rightarrow> pollfd \<Rightarrow> pollfd" where
  "wanted s e = (if pf_fd e = sv_server_fd s then e
     else e\<lparr>pf_events := (case client_at s (pf_fd e) of
         None \<Rightarrow> {POLLIN}
       | Some c \<Rightarrow> if cl_write_buffer c \<noteq> [] \<and> length (cl_write_buffer c) \<le> MAX_SENDQ then {POLLIN, POLLOUT} else {POLLIN})\<rparr>)"

lemma client_view_mark [simp]:
  "client_at (markForDisconnection fd r s) = client_at s" "overfull (markForDisconnection fd r s) = overfull s"
  "wanted (markForDisconnection fd r s) = wanted s"
  by (simp_all add: client_at_def overfull_def wanted_def fun_eq_iff)

definition mark_all :: "string \<Rightarrow> pollfd list \<Rightarrow> server \<Rightarrow> server" where
  "mark_all reason es s = fold (\<lambda>e. markForDisconnection (pf_fd e) reason) es s"

lemma refresh_loop_eq:
  assumes "\<forall>it \<in> set (sv_clients s). hp_client s (snd it) \<noteq> None"
  shows "refresh_loop es s = Some (map (wanted s) es, mark_all ''SendQ exceeded'' (filter (overfull s) es) s)"
  using assms
proof (induction es arbitrary: s)
  case Nil
  then show ?case by (simp add: mark_all_def)
next
  case (Cons e es)
  show ?case
  proof (cases "pf_fd e = sv_server_fd s \<or> map_of (sv_clients s) (pf_fd e) = None")
    case True
    then show ?thesis using Cons.IH [OF Cons.prems]
      by (auto simp: wanted_def overfull_def client_at_def)
  next
    case False
    then obtain p where p: "map_of (sv_clients s) (pf_fd e) = Some p" by auto
    then have "hp_client s (snd (pf_fd e, p)) \<noteq> None" using Cons.prems map_of_SomeD by fast
    then obtain c where c: "hp_client s p = Some c" by auto
    have at: "client_at s (pf_fd e) = Some c" using p c by (simp add: client_at_def)
    show ?thesis
      using Cons.IH [OF Cons.prems] Cons.IH [of "markForDisconnection (pf_fd e) ''SendQ exceeded'' s"] Cons.prems False p c
      by (auto simp: wanted_def overfull_def at mark_all_def)
  qed
qed

lemma isMarked_mark: "omap_ok (sv_to_disconnected s) \<Longrightarrow> isMarked fd (markForDisconnection fd' r s) \<longleftrightarrow> fd = fd' \<or> isMarked fd s"
  by (auto simp: isMarked_def markForDisconnection_def)

lemma omap_ok_mark: "omap_ok (sv_to_disconnected s) \<Longrightarrow> omap_ok (sv_to_disconnected (markForDisconnection fd r s))"
  by (simp add: markForDisconnection_def)

lemma isMarked_mark_all:
  "omap_ok (sv_to_disconnected s) \<Longrightarrow> isMarked fd (mark_all r es s) \<longleftrightarrow> fd \<in> pf_fd ` set es \<or> isMarked fd s"
  unfolding mark_all_def by (induction es arbitrary: s) (auto simp: isMarked_mark omap_ok_mark)

lemma mark_all_client [simp]: "hp_client (mark_all r es s) = hp_client s"
  unfolding mark_all_def by (induction es arbitrary: s) simp_all

lemma all_live: "wf s \<Longrightarrow> \<forall>it \<in> set (sv_clients s). hp_client s (snd it) \<noteq> None"
  using live_listed [of s] by (metis image_eqI)

section \<open>Idle clients\<close>

text \<open>What one iteration sees of the state, and that other iterations do not change it\<close>

definition idle_view :: "int \<times> cptr \<Rightarrow> server \<Rightarrow> client option \<times> string option" where
  "idle_view it s = (hp_client s (snd it), map_of (sv_closing s) (fst it))"

definition overdue :: "int \<Rightarrow> client option \<times> string option \<Rightarrow> bool" where
  "overdue now v = (case v of
     (Some c, Some r) \<Rightarrow> getClosingTime now c > 5
   | (Some c, None) \<Rightarrow> \<not> cl_is_registered c \<and> getConnectTime now c > TIMEOUT_REGISTRATION
   | _ \<Rightarrow> False)"

definition silent :: "int \<Rightarrow> client option \<times> string option \<Rightarrow> bool" where
  "silent now v = (case v of (Some c, None) \<Rightarrow> cl_is_registered c \<and> getIdleTime now c > TIMEOUT_SECONDS | _ \<Rightarrow> False)"

lemma idle_step_effect:
  assumes s: "sound s" and it: "it \<in> set (sv_clients s)" and step: "idle_step now it s = Some t"
  shows "overdue now (idle_view it s) \<Longrightarrow> isMarked (fst it) t"
    and "silent now (idle_view it s) \<Longrightarrow> fst it \<in> fst ` set (sv_closing t)"
    and "isMarked fd s \<Longrightarrow> isMarked fd t"
    and "fd \<in> fst ` set (sv_closing s) \<Longrightarrow> fd \<in> fst ` set (sv_closing t)"
    and "fst it' \<noteq> fst it \<Longrightarrow> snd it' \<noteq> snd it \<Longrightarrow> idle_view it' t = idle_view it' s"
proof -
  obtain c where c: "hp_client s (snd it) = Some c" "cl_fd c = fst it" by (rule client_entry [OF soundD(3) [OF s] it])
  have ok: "omap_ok (sv_to_disconnected s)" "omap_ok (sv_closing s)"
    using goodD(6) [OF soundD(1) [OF s]] by (simp_all add: inv_sched_def)
  note defs = idle_step_def idle_view_def overdue_def silent_def Let_def disconnectAfterFlush_eq [OF c(1)] on_client_def
  show "overdue now (idle_view it s) \<Longrightarrow> isMarked (fst it) t"
    using step c ok by (auto simp: defs isMarked_mark split: option.splits if_splits)
  show "silent now (idle_view it s) \<Longrightarrow> fst it \<in> fst ` set (sv_closing t)"
    using step c ok by (auto simp: defs split: option.splits if_splits)
  show "isMarked fd s \<Longrightarrow> isMarked fd t"
    using step c ok by (auto simp: defs isMarked_mark split: option.splits if_splits) (auto simp: isMarked_def)
  show "fd \<in> fst ` set (sv_closing s) \<Longrightarrow> fd \<in> fst ` set (sv_closing t)"
    using step c ok by (simp add: defs split: option.splits if_splits) (force+)
  show "fst it' \<noteq> fst it \<Longrightarrow> snd it' \<noteq> snd it \<Longrightarrow> idle_view it' t = idle_view it' s"
    using step c ok by (auto simp: defs split: option.splits if_splits)
qed

lemma idle_loop_effect:
  assumes "sound s" "set es \<subseteq> set (sv_clients s)" "distinct (map fst es)" "distinct (map snd es)" "each (idle_step now) es s = Some t"
  shows "(\<forall>fd. isMarked fd s \<longrightarrow> isMarked fd t) \<and> (\<forall>fd. fd \<in> fst ` set (sv_closing s) \<longrightarrow> fd \<in> fst ` set (sv_closing t)) \<and>
    (\<forall>it \<in> set es. (overdue now (idle_view it s) \<longrightarrow> isMarked (fst it) t) \<and>
       (silent now (idle_view it s) \<longrightarrow> fst it \<in> fst ` set (sv_closing t)))"
  using assms
proof (induction es arbitrary: s)
  case Nil
  then show ?case by simp
next
  case (Cons it es)
  obtain u where u: "idle_step now it s = Some u" "each (idle_step now) es u = Some t"
    using Cons.prems(5) by (auto simp: bind_eq_Some_conv)
  have it: "it \<in> set (sv_clients s)" using Cons.prems(2) by simp
  note eff = idle_step_effect [OF Cons.prems(1) it u(1)]
  have "sound u" "sv_clients u = sv_clients s"
    using idle_step_sound [OF Cons.prems(1) it, of now] u(1) by (simp_all add: net_def)
  then have IH: "(\<forall>fd. isMarked fd u \<longrightarrow> isMarked fd t) \<and> (\<forall>fd. fd \<in> fst ` set (sv_closing u) \<longrightarrow> fd \<in> fst ` set (sv_closing t)) \<and>
      (\<forall>it \<in> set es. (overdue now (idle_view it u) \<longrightarrow> isMarked (fst it) t) \<and> (silent now (idle_view it u) \<longrightarrow> fst it \<in> fst ` set (sv_closing t)))"
    using Cons.prems(2-4) u(2) by (intro Cons.IH) auto
  have "idle_view x u = idle_view x s" if "x \<in> set es" for x
    using Cons.prems(3,4) that by (intro eff(5)) (auto simp: image_iff)
  then show ?case using IH eff(1-4) by (metis set_ConsD)
qed

lemma checkIdleClients_effect:
  assumes s: "sound s" and t: "checkIdleClients now s = Some t" and it: "map_of (sv_clients s) fd = Some p"
  shows "overdue now (idle_view (fd, p) s) \<Longrightarrow> isMarked fd t" and "silent now (idle_view (fd, p) s) \<Longrightarrow> fd \<in> fst ` set (sv_closing t)"
    and "fst ` set (sv_closing s) \<subseteq> fst ` set (sv_closing t)"
proof -
  have wf: "wf s" by (rule soundD(3) [OF s])
  have "omap_ok (sv_clients s)" using wfD(1) [OF wf] by (simp add: inv_clients_def)
  then have "distinct (map fst (sv_clients s))" by (rule omap_ok_distinct)
  then have eff: "(\<forall>fd. fd \<in> fst ` set (sv_closing s) \<longrightarrow> fd \<in> fst ` set (sv_closing t)) \<and>
      (\<forall>it \<in> set (sv_clients s). (overdue now (idle_view it s) \<longrightarrow> isMarked (fst it) t) \<and>
       (silent now (idle_view it s) \<longrightarrow> fst it \<in> fst ` set (sv_closing t)))"
    using idle_loop_effect [OF s, of "sv_clients s" now t] t clients_distinct [OF wf] by (simp add: checkIdleClients_def)
  have "(fd, p) \<in> set (sv_clients s)" using it by (rule map_of_SomeD)
  then have "(overdue now (idle_view (fd, p) s) \<longrightarrow> isMarked (fst (fd, p)) t) \<and>
      (silent now (idle_view (fd, p) s) \<longrightarrow> fst (fd, p) \<in> fst ` set (sv_closing t))"
    using eff by (blast dest: bspec)
  then show "overdue now (idle_view (fd, p) s) \<Longrightarrow> isMarked fd t" "silent now (idle_view (fd, p) s) \<Longrightarrow> fd \<in> fst ` set (sv_closing t)"
    by simp_all
  show "fst ` set (sv_closing s) \<subseteq> fst ` set (sv_closing t)" using eff by blast
qed

section \<open>The listening socket\<close>

text \<open>The events requested for the listening socket, the first entry of the poll set\<close>

definition listening :: "server \<Rightarrow> pollflag set" where
  "listening s = (case sv_poll_fds s of [] \<Rightarrow> {} | e # _ \<Rightarrow> pf_events e)"

lemma listening_listen: "listen_events ev s = Some t \<Longrightarrow> listening t = ev \<and> sv_clients t = sv_clients s"
  by (auto simp: listen_events_def listening_def split: list.splits)

lemma refresh_listening:
  assumes s: "sound s" and t: "refreshPollEvents s = Some t"
  shows "listening t = listening s"
proof -
  obtain f fs where f: "sv_poll_fds s = f # fs" "pf_fd f = sv_server_fd s"
    by (rule inv_pollE [OF goodD(7) [OF soundD(1) [OF s]]])
  then show ?thesis using t by (auto simp: refreshPollEvents_def listening_def bind_eq_Some_conv)
qed

lemma net_listening: "net s t \<Longrightarrow> listening t = listening s"
  by (simp add: net_def listening_def)

lemma poll_step_listening:
  assumes s: "sound s" and i: "poll_step event i s = Some t" and quiet: "ev_revents (event 0) = {}"
  shows "listening t = listening s \<and> sv_clients t = sv_clients s"
proof -
  obtain f fs where f: "sv_poll_fds s = f # fs" "pf_fd f = sv_server_fd s" "pf_fd ` set fs = fst ` set (sv_clients s)" "distinct (map pf_fd (f # fs))"
    using inv_pollE [OF goodD(7) [OF soundD(1) [OF s]]] by metis
  show ?thesis
  proof (cases i)
    case 0
    then show ?thesis using i quiet f(1) by (simp add: poll_step_def)
  next
    case (Suc j)
    then have j: "j < length fs" using i f(1) by (auto simp: poll_step_def split: if_splits)
    let ?fd = "pf_fd (fs ! j)"
    have "?fd \<in> pf_fd ` set fs" using j by simp
    moreover have "sv_server_fd s \<notin> pf_fd ` set fs" using f(2,4) by auto
    ultimately have fd: "?fd \<in> fst ` set (sv_clients s)" "?fd \<noteq> sv_server_fd s" unfolding f(3) by metis+
    then have "poll_step event i s = (if ev_revents (event i) = {} then Some s
        else if POLLERR \<in> ev_revents (event i) \<or> POLLNVAL \<in> ev_revents (event i) then Some (markForDisconnection ?fd ''Connection error'' s)
        else client_turn (event i) ?fd s)"
      using Suc j f(1) by (simp add: poll_step_def Let_def)
    then have "t = s \<or> t = markForDisconnection ?fd ''Connection error'' s \<or> client_turn (event i) ?fd s = Some t"
      unfolding i by (auto split: if_splits)
    moreover have "net s t" if "client_turn (event i) ?fd s = Some t" using client_turn_sound [OF s fd(1), of "event i"] that by simp
    ultimately have "net s t" by (elim disjE) simp_all
    then show ?thesis by (simp add: net_def listening_def)
  qed
qed

lemma disconnect_listening: "disconnect fd r s = Some t \<Longrightarrow> listening t = {POLLIN}"
  by (auto simp: disconnect_def bind_eq_Some_conv Let_def dest!: listening_listen split: prod.splits)

lemma cleanup_listening:
  assumes "cleanupDisconnected s = Some t"
  shows "listening t = (if sv_to_disconnected s = [] then listening s else {POLLIN})"
proof -
  have loop: "listening t = (if targets = [] then listening s else {POLLIN})"
    if "each (\<lambda>it. disconnect (fst it) (snd it)) targets s = Some t" for targets s
    using that
  proof (induction targets arbitrary: s)
    case (Cons it targets)
    then obtain u where u: "disconnect (fst it) (snd it) s = Some u" "each (\<lambda>it. disconnect (fst it) (snd it)) targets u = Some t"
      by (auto simp: bind_eq_Some_conv)
    then show ?case using Cons.IH [OF u(2)] disconnect_listening [OF u(1)] by simp
  qed simp
  show ?thesis using loop [of "sv_to_disconnected s"] assms by (simp add: cleanupDisconnected_def) (simp add: listening_def)
qed

lemma run_iteration_goes: "run_iteration e s = Some (go, t) \<Longrightarrow> 0 \<le> pe_ready e \<Longrightarrow> go"
  by (erule iteration_phases) auto

lemma run_iteration_listening:
  assumes s: "sound s" and fresh: "accept_fresh s (ev_accept (pe_event e 0))" and quiet: "ev_revents (pe_event e 0) = {}"
    and ready: "0 \<le> pe_ready e" and smooth: "pe_fault e = None" and t: "run_iteration e s = Some (go, t)"
  shows "listening t = (if pe_ready e = 0 \<or> fst ` set (sv_clients t) \<noteq> fst ` set (sv_clients s) then {POLLIN} else listening s)"
proof -
  obtain s1 s2 s3 s4 where 1: "refreshPollEvents s = Some s1"
    and 2: "(if pe_ready e = 0 then listen_events {POLLIN} s1 else Some s1) = Some s2"
    and 3: "each (poll_step (pe_event e)) [0..<length (sv_poll_fds s2)] s2 = Some s3"
    and 4: "cleanupDisconnected s3 = Some s4" and 5: "checkIdleClients (pe_now e) s4 = Some t"
    using t ready by (auto simp: smooth_iteration [OF smooth] bind_eq_Some_conv simp del: upt_Suc)
  have s1: "grows s s1" "sv_clients s1 = sv_clients s" "listening s1 = listening s"
    using refreshPollEvents_sound [OF s] refresh_listening [OF s 1] 1 by simp_all
  have s2: "grows s1 s2" "sv_clients s2 = sv_clients s1" "listening s2 = (if pe_ready e = 0 then {POLLIN} else listening s1)"
    using sound_listen_events [OF grows_sound [OF s1(1)], of "{POLLIN}"] listening_listen [of "{POLLIN}" s1 s2] 2
      grows_refl [OF grows_sound [OF s1(1)]] by (auto split: if_splits)
  have "accept_fresh s2 (ev_accept (pe_event e 0))" using fresh s1 s2 by (simp add: accept_fresh_def grows_def)
  then have "returns (each (poll_step (pe_event e)) [0..<length (sv_poll_fds s2)] s2)
      (\<lambda>t. grows s2 t \<and> listening t = listening s2 \<and> sv_clients t = sv_clients s2)"
    by (rule poll_loop_keeps [OF grows_sound [OF s2(1)], where J = "\<lambda>_ u. listening u = listening s2 \<and> sv_clients u = sv_clients s2"])
      (use poll_step_listening [where event = "pe_event e", OF grows_sound _ quiet] in auto)
  then have s3: "sound s3" "listening s3 = listening s2" "sv_clients s3 = sv_clients s2"
    using 3 grows_sound [of s2 s3] by simp_all
  have s4: "sound s4" "fst ` set (sv_clients s4) = fst ` set (sv_clients s3) - fst ` set (sv_to_disconnected s3)"
    using cleanupDisconnected_removes [OF soundD(1) [OF s3(1)]] 4 soundD(2) [OF s3(1)] by (simp_all add: sound_def)
  have "fst ` set (sv_to_disconnected s3) \<subseteq> fst ` set (sv_clients s3)"
    using goodD(6) [OF soundD(1) [OF s3(1)]] by (simp add: inv_sched_def)
  then have "fst ` set (sv_clients s4) \<noteq> fst ` set (sv_clients s3) \<longleftrightarrow> sv_to_disconnected s3 \<noteq> []"
    unfolding s4(2) by (cases "sv_to_disconnected s3") auto
  moreover have "listening t = listening s4" "sv_clients t = sv_clients s4"
    using checkIdleClients_sound [OF s4(1), of "pe_now e"] 5 net_listening by (simp_all add: net_def listening_def)
  ultimately show ?thesis
    using cleanup_listening [OF 4] s1(2,3) s2(2,3) s3(2,3) by simp
qed

end
