(* ===== verification/Irc_Main.thy ===== *)
theory Irc_Main
  imports Irc_Housekeeping
begin

text \<open>
  \<open>main.cpp\<close>: the check of the arguments, and the life of the server object from construction to destruction.
\<close>

datatype startup = Usage_error | Empty_password | Invalid_port | Start int string

definition check_args :: "string list \<Rightarrow> startup" where
  "check_args argv =
     (if length argv \<noteq> 3 then Usage_error
      else
        let (port, rest) = strtol (argv ! 1); password = argv ! 2 in
        if password = [] then Empty_password
        else if rest \<noteq> [] \<or> port \<le> 0 \<or> port > 65535 then Invalid_port
        else Start port password)"

text \<open>The exit code. The destructor of the server object runs at the end of the \<open>try\<close> block and on the way to the handler.\<close>

definition main :: "init_env \<Rightarrow> poll_env list \<Rightarrow> string list \<Rightarrow> int option" where
  "main ie es argv =
     (case check_args argv of
        Start port password \<Rightarrow>
          (case init ie (new_Server port password) of
             Inl (err, s) \<Rightarrow> do { _ \<leftarrow> destroy s; Some 1 }
           | Inr s \<Rightarrow> do {
               s \<leftarrow> run es s;
               _ \<leftarrow> destroy s;
               Some 0 })
      | _ \<Rightarrow> Some 1)"

section \<open>Running\<close>

text \<open>The descriptors that \<open>accept\<close> returns along a run are fresh.\<close>

fun run_fresh :: "poll_env list \<Rightarrow> server \<Rightarrow> bool" where
  "run_fresh [] s \<longleftrightarrow> True"
| "run_fresh (e # es) s \<longleftrightarrow> accept_fresh s (ev_accept (pe_event e 0)) \<and>
     (case run_iteration e s of Some (True, t) \<Rightarrow> run_fresh es t | _ \<Rightarrow> True)"

lemma run_sound: "sound s \<Longrightarrow> run_fresh es s \<Longrightarrow> returns (run es s) sound"
proof (induction es arbitrary: s)
  case (Cons e es)
  have fresh: "accept_fresh s (ev_accept (pe_event e 0))" using Cons.prems(2) by simp
  obtain continue t where t: "run_iteration e s = Some (continue, t)" "sound t"
    using run_iteration_sound [OF Cons.prems(1) fresh] by (auto elim!: returnsE)
  then show ?case using Cons by (cases continue) simp_all
qed simp

lemma failed_init_empty: "init ie (new_Server port password) = Inl (err, s) \<Longrightarrow> destroy s \<noteq> None"
  by (auto simp: init_def new_Server_def destroy_def Let_def split: if_splits)

text \<open>... along the run that \<open>main\<close> starts\<close>

definition main_fresh :: "init_env \<Rightarrow> poll_env list \<Rightarrow> string list \<Rightarrow> bool" where
  "main_fresh ie es argv \<longleftrightarrow> (case check_args argv of
     Start port password \<Rightarrow> (case init ie (new_Server port password) of Inr s \<Rightarrow> run_fresh es s | Inl _ \<Rightarrow> True)
   | _ \<Rightarrow> True)"

lemma main_returns:
  assumes fresh: "main_fresh ie es argv"
  shows "main ie es argv = Some (case check_args argv of
     Start port password \<Rightarrow> (case init ie (new_Server port password) of Inl _ \<Rightarrow> 1 | Inr _ \<Rightarrow> 0) | _ \<Rightarrow> 1)"
proof (cases "check_args argv")
  case (Start port password)
  show ?thesis
  proof (cases "init ie (new_Server port password)")
    case (Inl r)
    then show ?thesis using Start failed_init_empty by (cases r) (fastforce simp: main_def)
  next
    case (Inr s)
    obtain t where t: "run es s = Some t" "sound t"
      using run_sound [OF init_sound [OF Inr], of es] fresh Start Inr by (auto simp: main_fresh_def elim!: returnsE)
    then show ?thesis using Start Inr destroy_frees [OF soundD(3) [OF t(2)]] by (auto simp: main_def)
  qed
qed (simp_all add: main_def)

section \<open>The port argument\<close>

lemma check_args_port:
  assumes "0 < n" "n \<le> 65535" "pw \<noteq> []"
  shows "check_args [prog, show_int n, pw] = Start n pw"
proof -
  have "list_all isdigit_c (show_nat (nat n))" "show_nat (nat n) \<noteq> []" by (simp_all add: show_nat_digits)
  then have "strtol (show_nat (nat n)) = (min long_max (int (dec_value (show_nat (nat n)))), [])"
    using strtol_digits by blast
  then show ?thesis using assms by (simp add: check_args_def show_int_def show_nat_digits long_max_def)
qed

end
