(* ===== verification/Irc_Modes.thy ===== *)
theory Irc_Modes
  imports Irc_Channel
begin

text \<open>
  What MODE means, as a list of changes: which letters of the mode string take effect on a channel, which are refused with
  which reply, and the one line in which the changes that took effect are announced. The loop of \<open>Channel::handleMode\<close>
  computes this list letter by letter while it builds the line, and \<open>buildModeString\<close> shows the modes of a channel as such a list.
\<close>

section \<open>Changes and their announcement\<close>

text \<open>On or off, the letter, the argument\<close>

type_synonym mode_change = "bool \<times> char \<times> string"

text \<open>A sign where it differs from that of the change before, and the arguments after all the letters\<close>

fun mode_text :: "char \<Rightarrow> mode_change list \<Rightarrow> string" where
  "mode_text prev [] = []"
| "mode_text prev ((on, m, a) # xs) =
     (let sign = (if on then CHR ''+'' else CHR ''-'') in (if sign \<noteq> prev then [sign] else []) @ m # mode_text sign xs)"

fun mode_args :: "mode_change list \<Rightarrow> string list" where
  "mode_args [] = []"
| "mode_args ((on, m, a) # xs) = (if on \<and> m \<in> {CHR ''k'', CHR ''l''} then [a] else []) @ mode_args xs"

definition announced :: "mode_change list \<Rightarrow> string" where
  "announced xs = mode_text NUL xs @ concat (map (\<lambda>a. SP # a) (mode_args xs))"

section \<open>The changes that take effect\<close>

definition change_channel :: "mode_change \<Rightarrow> channel \<Rightarrow> channel" where
  "change_channel x ch = (case x of (on, m, a) \<Rightarrow>
     if m = CHR ''i'' then ch\<lparr>ch_inviteOnly := on\<rparr>
     else if m = CHR ''t'' then ch\<lparr>ch_topicByOpOnly := on\<rparr>
     else if m = CHR ''k'' then ch\<lparr>ch_key := (if on then a else [])\<rparr>
     else ch\<lparr>ch_userLimit := (if on then the (parseLimit a) else 0)\<rparr>)"

text \<open>Whether a change makes a difference\<close>

definition effective :: "mode_change \<Rightarrow> channel \<Rightarrow> bool" where
  "effective x ch \<longleftrightarrow> (case x of (on, m, a) \<Rightarrow>
     if m = CHR ''i'' then ch_inviteOnly ch \<noteq> on
     else if m = CHR ''t'' then ch_topicByOpOnly ch \<noteq> on
     else if m = CHR ''k'' then (if on then isValidKey a \<and> ch_key ch = [] else ch_key ch \<noteq> [])
     else if on then parseLimit a \<noteq> None else ch_userLimit ch > 0)"

text \<open>The reply to one that takes an argument and is refused for it\<close>

definition refusal :: "string \<Rightarrow> mode_change \<Rightarrow> channel \<Rightarrow> string list" where
  "refusal nick x ch = (case x of (on, m, a) \<Rightarrow>
     if m = CHR ''k'' \<and> on then
       (if \<not> isValidKey a then [makeReply ERR_INVALIDKEY nick (ch_name ch @ '' :Key is not well-formed'')]
        else if ch_key ch \<noteq> [] then [makeReply ERR_KEYSET nick (ch_name ch @ '' :Channel key already set'')] else [])
     else if m = CHR ''l'' \<and> on \<and> parseLimit a = None then
       [makeReply ERR_INVALIDMODEPARAM nick (ch_name ch @ '' l '' @ a @ '' :Invalid limit value'')]
     else [])"

text \<open>\<open>requested on ms ps\<close>: the letters with their signs and arguments; a letter that lacks its argument is dropped, an unknown one kept.\<close>

fun requested :: "bool \<Rightarrow> string \<Rightarrow> string list \<Rightarrow> mode_change list" where
  "requested on [] ps = []"
| "requested on (m # ms) ps =
     (if m = CHR ''+'' then requested True ms ps
      else if m = CHR ''-'' then requested False ms ps
      else if on \<and> m \<in> {CHR ''k'', CHR ''l''} then (case ps of [] \<Rightarrow> requested on ms [] | a # ps \<Rightarrow> (on, m, a) # requested on ms ps)
      else (on, m, []) # requested on ms ps)"

text \<open>The changes that take effect, one after the other, and the replies to the others\<close>

fun carried_out :: "string \<Rightarrow> mode_change list \<Rightarrow> channel \<Rightarrow> mode_change list \<times> string list" where
  "carried_out nick [] ch = ([], [])"
| "carried_out nick (x # xs) ch =
     (if fst (snd x) \<notin> {CHR ''i'', CHR ''t'', CHR ''k'', CHR ''l''} then
        apsnd ((#) (makeReply ERR_UNKNOWNMODE nick (fst (snd x) # '' :is unknown mode char to me for '' @ ch_name ch))) (carried_out nick xs ch)
      else if effective x ch then apfst ((#) x) (carried_out nick xs (change_channel x ch))
      else apsnd ((@) (refusal nick x ch)) (carried_out nick xs ch))"

text \<open>The modes a channel has\<close>

definition current_modes :: "channel \<Rightarrow> mode_change list" where
  "current_modes ch =
     (if ch_inviteOnly ch then [(True, CHR ''i'', [])] else []) @ (if ch_topicByOpOnly ch then [(True, CHR ''t'', [])] else []) @
     (if ch_key ch \<noteq> [] then [(True, CHR ''k'', ch_key ch)] else []) @
     (if ch_userLimit ch > 0 then [(True, CHR ''l'', show_int (ch_userLimit ch))] else [])"

lemma buildModeString_announces:
  "buildModeString ch = (if current_modes ch = [] then ''+'' else announced (current_modes ch))"
  by (simp add: buildModeString_def current_modes_def announced_def)

section \<open>The loop\<close>

lemma ml_append_applied:
  "ml_append on m l = l\<lparr>ml_applied := ml_applied l @ (if (if on then CHR ''+'' else CHR ''-'') \<noteq> ml_lastSign l then [if on then CHR ''+'' else CHR ''-''] else []) @ [m],
     ml_lastSign := if on then CHR ''+'' else CHR ''-''\<rparr>"
  by (simp add: ml_append_def appendApplied_def Let_def)

lemma change_channel_apply: "change_channel (on, m, a) ch = (if m = CHR ''i'' then ch\<lparr>ch_inviteOnly := on\<rparr> else if m = CHR ''t'' then ch\<lparr>ch_topicByOpOnly := on\<rparr>
    else if m = CHR ''k'' then ch\<lparr>ch_key := (if on then a else [])\<rparr> else ch\<lparr>ch_userLimit := (if on then the (parseLimit a) else 0)\<rparr>)"
  by (simp add: change_channel_def)

lemma change_name [simp]: "ch_name (change_channel x ch) = ch_name ch"
  by (simp add: change_channel_def split: prod.split)

lemma chan_mode_carried:
  assumes "fold (chan_mode_step nick P) ms (l, ch, out) = (l', ch', out')"
    and "carried_out nick (requested (ml_enable l) ms (drop (ml_paramIndex l) P)) ch = (xs, errs)"
  shows "ch' = fold change_channel xs ch \<and> out' = out @ errs \<and> ml_applied l' = ml_applied l @ mode_text (ml_lastSign l) xs \<and>
    ml_appliedArgs l' = ml_appliedArgs l @ concat (map (\<lambda>a. SP # a) (mode_args xs))"
  using assms
proof (induction ms arbitrary: l ch out xs errs)
  case (Cons m ms)
  obtain l1 ch1 out1 where st: "chan_mode_step nick P m (l, ch, out) = (l1, ch1, out1)" using prod_cases3 by blast
  have arg: "drop (ml_paramIndex l) P = P ! ml_paramIndex l # drop (Suc (ml_paramIndex l)) P" if "ml_paramIndex l < length P"
    using that by (simp add: Cons_nth_drop_Suc)
  obtain xs1 errs1 where rest: "carried_out nick (requested (ml_enable l1) ms (drop (ml_paramIndex l1) P)) ch1 = (xs1, errs1)" by fastforce
  have IH: "ch' = fold change_channel xs1 ch1 \<and> out' = out1 @ errs1 \<and> ml_applied l' = ml_applied l1 @ mode_text (ml_lastSign l1) xs1 \<and>
    ml_appliedArgs l' = ml_appliedArgs l1 @ concat (map (\<lambda>a. SP # a) (mode_args xs1))"
    using Cons.IH [OF _ rest, of out1] Cons.prems(1) st by simp
  note defs = chan_mode_step_def ml_append_applied effective_def change_channel_apply refusal_def Let_def
    setModeInviteOnly_def setModeTopicRestriction_def setModeKey_def setModeUserLimit_def
  consider "m = CHR ''+'' \<or> m = CHR ''-''" | "m = CHR ''i''" | "m = CHR ''t''" | "m = CHR ''k''" | "m = CHR ''l''"
    | "m \<notin> {CHR ''+'', CHR ''-'', CHR ''i'', CHR ''t'', CHR ''k'', CHR ''l''}" by blast
  then show ?case
  proof cases
    case 1
    then show ?thesis using st rest IH Cons.prems(2) by (auto simp: defs)
  next
    case 2
    then show ?thesis using st rest IH Cons.prems(2) by (cases "ml_enable l") (auto simp: defs split: if_splits)
  next
    case 3
    then show ?thesis using st rest IH Cons.prems(2) by (cases "ml_enable l") (auto simp: defs split: if_splits)
  next
    case 4
    then show ?thesis using st rest IH Cons.prems(2) arg
      by (cases "ml_enable l"; cases "ml_paramIndex l < length P") (auto simp: defs split: if_splits)
  next
    case 5
    then show ?thesis using st rest IH Cons.prems(2) arg
      by (cases "ml_enable l"; cases "ml_paramIndex l < length P") (auto simp: defs split: if_splits option.splits)
  next
    case 6
    then show ?thesis using st rest IH Cons.prems(2) by (auto simp: defs)
  qed
qed simp

text \<open>\<open>handleMode\<close> in these terms\<close>

lemma mode_text_empty [simp]: "mode_text prev xs = [] \<longleftrightarrow> xs = []"
  by (cases "(prev, xs)" rule: mode_text.cases) (simp_all add: Let_def)

lemma chan_mode_announced:
  assumes "chan_mode nick P modes ch = (l, ch', out)" "carried_out nick (requested True modes P) ch = (xs, errs)"
  shows "ch' = fold change_channel xs ch" "out = errs" "ml_applied l @ ml_appliedArgs l = announced xs" "ml_applied l = [] \<longleftrightarrow> xs = []"
  using chan_mode_carried [of nick P modes mode_loop0 ch "[]" l ch' out xs errs] assms
  by (simp_all add: chan_mode_def mode_loop0_def announced_def)

lemma handleMode_carried:
  assumes wf: "wf s" and q: "hp_channel s q = Some ch" and p: "hp_client s p = Some c"
  shows "handleMode q p modes modeParams s = Some (
     if modes = [] then
       (if p \<notin> set (ch_members ch) then
          post (to_one p [makeReply ERR_NOTONCHANNEL (cl_nickname c) (ch_name ch @ '' :You're not on that channel'')]) s
        else post (to_one p [makeReply RPL_CHANNELMODEIS (cl_nickname c)
          (ch_name ch @ '' '' @ (if current_modes ch = [] then ''+'' else announced (current_modes ch)))]) s)
     else if p \<notin> set (ch_operators ch) then
       post (to_one p [makeReply ERR_CHANOPRIVSNEEDED (cl_nickname c) (ch_name ch @ '' :You're not channel operator'')]) s
     else (case carried_out (cl_nickname c) (requested True modes modeParams) ch of (xs, replies) \<Rightarrow>
       post (if xs = [] then to_one p replies
             else then_out (to_one p replies) (to_all (ch_members ch) (makeCommand c ''MODE'' (ch_name ch @ '' '' @ announced xs))))
         (set_channel q (fold change_channel xs ch) s)))"
proof -
  obtain l ch' out where mode: "chan_mode (cl_nickname c) modeParams modes ch = (l, ch', out)" using prod_cases3 by blast
  obtain xs errs where xs: "carried_out (cl_nickname c) (requested True modes modeParams) ch = (xs, errs)" by fastforce
  show ?thesis
    using chan_mode_announced [OF mode xs] by (simp add: handleMode_eq [OF wf q p] mode xs buildModeString_announces)
qed

end
