(* ===== verification/Irc_Rooms.thy ===== *)
theory Irc_Rooms
  imports Irc_Dispatch Irc_Modes
begin

text \<open>
  An abstract view of the channels: a table of rooms with sets of members, operators and invited clients, without
  pointers, back links, buffers or replies. One pure function per command says what becomes of the table; the commands
  and the disconnection of the server implement these functions through the abstraction \<open>rooms\<close>.
\<close>

section \<open>Rooms\<close>

text \<open>A table of rooms by lower-case name, and a directory of the registered clients by nickname\<close>

record room =
  rm_name :: string
  rm_topic :: string
  rm_key :: string
  rm_limit :: int
  rm_members :: "cptr set"
  rm_operators :: "cptr set"
  rm_invited :: "cptr set"
  rm_inviteOnly :: bool
  rm_topicByOps :: bool

type_synonym rooms = "string \<Rightarrow> room option"

type_synonym directory = "string \<Rightarrow> cptr option"

text \<open>A new room belongs to its founder.\<close>

definition founded :: "cptr \<Rightarrow> string \<Rightarrow> room" where
  "founded p n = \<lparr>rm_name = n, rm_topic = [], rm_key = [], rm_limit = 0, rm_members = {p}, rm_operators = {p},
     rm_invited = {}, rm_inviteOnly = False, rm_topicByOps = False\<rparr>"

text \<open>The key fits, an invite-only room was opened by an invitation, and the limit is not reached.\<close>

definition admits :: "room \<Rightarrow> cptr \<Rightarrow> string \<Rightarrow> bool" where
  "admits r p key \<longleftrightarrow> (rm_key r = [] \<or> rm_key r = key) \<and> (rm_inviteOnly r \<longrightarrow> p \<in> rm_invited r) \<and>
     (rm_limit r \<le> 0 \<or> int (card (rm_members r)) < rm_limit r)"

definition entered :: "cptr \<Rightarrow> room \<Rightarrow> room" where
  "entered p r = r\<lparr>rm_members := insert p (rm_members r), rm_invited := rm_invited r - {p}\<rparr>"

text \<open>The last member takes the room along.\<close>

definition departed :: "cptr \<Rightarrow> room \<Rightarrow> room option" where
  "departed p r = (if p \<notin> rm_members r then Some r
     else if rm_members r = {p} then None
     else Some (r\<lparr>rm_members := rm_members r - {p}, rm_operators := rm_operators r - {p}\<rparr>))"

definition on_room :: "string \<Rightarrow> (room \<Rightarrow> room option) \<Rightarrow> rooms \<Rightarrow> rooms" where
  "on_room n f R = R(toLower n := Option.bind (R (toLower n)) f)"

definition room_join :: "cptr \<Rightarrow> string \<Rightarrow> string \<Rightarrow> rooms \<Rightarrow> rooms" where
  "room_join p n key R = (case R (toLower n) of
     None \<Rightarrow> R(toLower n \<mapsto> founded p n)
   | Some r \<Rightarrow> if p \<in> rm_members r \<or> \<not> admits r p key then R else R(toLower n \<mapsto> entered p r))"

definition evacuate :: "cptr \<Rightarrow> rooms \<Rightarrow> rooms" where
  "evacuate p R = (\<lambda>k. Option.bind (R k) (departed p))"

definition room_kick :: "cptr \<Rightarrow> cptr option \<Rightarrow> room \<Rightarrow> room option" where
  "room_kick p target r = (case target of
     Some t \<Rightarrow> if p \<in> rm_members r \<and> p \<in> rm_operators r then departed t r else Some r
   | None \<Rightarrow> Some r)"

definition room_topic :: "cptr \<Rightarrow> string \<Rightarrow> room \<Rightarrow> room option" where
  "room_topic p topic r = Some (if p \<in> rm_members r \<and> (rm_topicByOps r \<longrightarrow> p \<in> rm_operators r)
     then r\<lparr>rm_topic := truncateUtf8 topic 300\<rparr> else r)"

definition room_invite :: "cptr \<Rightarrow> cptr \<Rightarrow> room \<Rightarrow> room option" where
  "room_invite p t r = Some (if p \<in> rm_members r \<and> (rm_inviteOnly r \<longrightarrow> p \<in> rm_operators r) \<and> t \<notin> rm_members r
     then r\<lparr>rm_invited := insert t (rm_invited r)\<rparr> else r)"

definition room_quit :: "cptr \<Rightarrow> rooms \<Rightarrow> rooms" where
  "room_quit p R = (\<lambda>k. map_option (\<lambda>r. r\<lparr>rm_invited := rm_invited r - {p}\<rparr>) (evacuate p R k))"

section \<open>Modes\<close>

text \<open>
  A mode string with its parameters is a list of changes: on or off, the letter, the argument. At most three of them
  may be of the kinds that take arguments.
\<close>

primrec mode_changes :: "nat \<Rightarrow> bool \<Rightarrow> string \<Rightarrow> string list \<Rightarrow> mode_change list" where
  "mode_changes n on [] ps = []"
| "mode_changes n on (m # ms) ps =
     (if m = CHR ''+'' then mode_changes n True ms ps
      else if m = CHR ''-'' then mode_changes n False ms ps
      else if m = CHR ''i'' \<or> m = CHR ''t'' then (on, m, []) # mode_changes n on ms ps
      else if m = CHR ''o'' \<or> m = CHR ''k'' \<or> m = CHR ''l'' \<and> on then
        (case ps of
           a # ps \<Rightarrow> if n = 0 then mode_changes n on ms ps else (on, m, a) # mode_changes (n - 1) on ms ps
         | [] \<Rightarrow> if m = CHR ''o'' \<or> on \<or> n = 0 then mode_changes n on ms [] else (on, m, []) # mode_changes (n - 1) on ms [])
      else if m = CHR ''l'' then
        (if n = 0 then mode_changes n on ms ps else (on, m, []) # mode_changes (n - 1) on ms ps)
      else mode_changes n on ms ps)"

definition is_op :: "mode_change \<Rightarrow> bool" where
  "is_op x \<longleftrightarrow> fst (snd x) = CHR ''o''"

definition change_op :: "cptr \<Rightarrow> directory \<Rightarrow> mode_change \<Rightarrow> room \<Rightarrow> room" where
  "change_op p who x r = (case x of (on, _, nick) \<Rightarrow> case who nick of
     None \<Rightarrow> r
   | Some t \<Rightarrow> if t \<in> rm_members r \<and> p \<in> rm_operators r
       then r\<lparr>rm_operators := (if on then insert t (rm_operators r) else rm_operators r - {t})\<rparr> else r)"

definition change_flag :: "mode_change \<Rightarrow> room \<Rightarrow> room" where
  "change_flag x r = (case x of (on, m, a) \<Rightarrow>
     if m = CHR ''i'' then r\<lparr>rm_inviteOnly := on\<rparr>
     else if m = CHR ''t'' then r\<lparr>rm_topicByOps := on\<rparr>
     else if m = CHR ''k'' then
       (if \<not> on then r\<lparr>rm_key := []\<rparr> else if isValidKey a \<and> rm_key r = [] then r\<lparr>rm_key := a\<rparr> else r)
     else if \<not> on then r\<lparr>rm_limit := 0\<rparr>
     else case parseLimit a of None \<Rightarrow> r | Some n \<Rightarrow> r\<lparr>rm_limit := n\<rparr>)"

text \<open>The operator changes come first, and the others need the client to be an operator still.\<close>

definition room_mode :: "cptr \<Rightarrow> directory \<Rightarrow> string \<Rightarrow> string list \<Rightarrow> room \<Rightarrow> room" where
  "room_mode p who modes ps r =
     (if p \<notin> rm_operators r \<or> modes = [] \<or> hd modes \<notin> {CHR ''+'', CHR ''-''} then r
      else let xs = mode_changes 3 True modes ps; r' = fold (change_op p who) (filter is_op xs) r
           in if p \<in> rm_operators r' then fold change_flag (filter (\<lambda>x. \<not> is_op x) xs) r' else r')"

section \<open>Commands\<close>

fun room_command :: "command \<Rightarrow> cptr \<Rightarrow> directory \<Rightarrow> string list \<Rightarrow> rooms \<Rightarrow> rooms" where
  "room_command Join p who (n # ps) R =
     (if n = ''0'' then evacuate p R
      else if isValidChannelName n then room_join p n (case ps of [] \<Rightarrow> [] | key # _ \<Rightarrow> key) R else R)"
| "room_command Part p who (n # ps) R = on_room n (departed p) R"
| "room_command Kick p who (n # nick # ps) R = on_room n (room_kick p (who nick)) R"
| "room_command Topic p who (n # topic # ps) R = on_room n (room_topic p topic) R"
| "room_command Invite p who (nick # n # ps) R =
     (case who nick of None \<Rightarrow> R | Some t \<Rightarrow> on_room n (room_invite p t) R)"
| "room_command Mode p who (n # modes # ps) R = on_room n (\<lambda>r. Some (room_mode p who modes ps r)) R"
| "room_command k p who ps R = R"

section \<open>Abstraction\<close>

definition room_of :: "channel \<Rightarrow> room" where
  "room_of ch = \<lparr>rm_name = ch_name ch, rm_topic = ch_topic ch, rm_key = ch_key ch, rm_limit = ch_userLimit ch,
     rm_members = set (ch_members ch), rm_operators = set (ch_operators ch), rm_invited = set (ch_invitedUsers ch),
     rm_inviteOnly = ch_inviteOnly ch, rm_topicByOps = ch_topicByOpOnly ch\<rparr>"

definition rooms :: "server \<Rightarrow> rooms" where
  "rooms s k = Option.bind (map_of (sv_channels s) k) (\<lambda>q. map_option room_of (hp_channel s q))"

definition directory :: "server \<Rightarrow> directory" where
  "directory s nick = (case findClientByNickname nick s of Some r \<Rightarrow> r | None \<Rightarrow> None)"

lemma room_of_fields [simp]:
  "rm_name (room_of ch) = ch_name ch" "rm_topic (room_of ch) = ch_topic ch" "rm_key (room_of ch) = ch_key ch"
  "rm_limit (room_of ch) = ch_userLimit ch" "rm_members (room_of ch) = set (ch_members ch)"
  "rm_operators (room_of ch) = set (ch_operators ch)" "rm_invited (room_of ch) = set (ch_invitedUsers ch)"
  "rm_inviteOnly (room_of ch) = ch_inviteOnly ch" "rm_topicByOps (room_of ch) = ch_topicByOpOnly ch"
  by (simp_all add: room_of_def)

lemma rooms_cong: "sv_channels t = sv_channels s \<Longrightarrow> hp_channel t = hp_channel s \<Longrightarrow> rooms t = rooms s"
  by (simp add: rooms_def fun_eq_iff)

lemma rooms_heap [simp]: "rooms (post out s) = rooms s" "rooms (set_client p c s) = rooms s"
  "rooms (s\<lparr>sv_closing := m\<rparr>) = rooms s"
  by (simp_all add: rooms_def fun_eq_iff)

lemma rooms_found: "findChannel n s = Some q \<Longrightarrow> hp_channel s q = Some ch \<Longrightarrow> rooms s (toLower n) = Some (room_of ch)"
  by (simp add: rooms_def findChannel_def)

lemma rooms_absent: "findChannel n s = None \<Longrightarrow> rooms s (toLower n) = None"
  by (simp add: rooms_def findChannel_def)

lemma rooms_set_channel:
  assumes wf: "wf s" and q: "hp_channel s q = Some ch" and n: "toLower n = toLower (ch_name ch)"
  shows "rooms (set_channel q ch' s) = (rooms s)(toLower n \<mapsto> room_of ch')"
proof
  fix k
  have key: "map_of (sv_channels s) k = Some q \<longleftrightarrow> k = toLower n"
    using channel_key [OF wfD(2) [OF wf], of k q] q n by auto
  show "rooms (set_channel q ch' s) k = ((rooms s)(toLower n \<mapsto> room_of ch')) k"
    using key by (cases "map_of (sv_channels s) k") (auto simp: rooms_def)
qed

lemma rooms_without_channel:
  assumes wf: "wf s" and q: "hp_channel s q = Some ch"
  shows "rooms (without_channel (toLower (ch_name ch)) q s) = (rooms s)(toLower (ch_name ch) := None)"
proof
  fix k
  have key: "map_of (sv_channels s) k = Some q \<longleftrightarrow> k = toLower (ch_name ch)"
    using channel_key [OF wfD(2) [OF wf], of k q] q by auto
  then show "rooms (without_channel (toLower (ch_name ch)) q s) k = ((rooms s)(toLower (ch_name ch) := None)) k"
    by (cases "map_of (sv_channels s) k") (auto simp: rooms_def without_channel_def)
qed

lemma rooms_with_new_channel:
  assumes wf: "wf s"
  shows "rooms (with_new_channel ch s) = (rooms s)(toLower (ch_name ch) \<mapsto> room_of ch)"
proof
  fix k
  have "hp_channel s (ChPtr (hp_next s)) = None" using wfD(6) [OF wf] by (auto simp: inv_alloc_def)
  then have "map_of (sv_channels s) k \<noteq> Some (ChPtr (hp_next s))" using channel_key [OF wfD(2) [OF wf]] by simp
  moreover have "omap_ok (sv_channels s)" using wfD(2) [OF wf] by (simp add: inv_channels_def)
  ultimately show "rooms (with_new_channel ch s) k = ((rooms s)(toLower (ch_name ch) \<mapsto> room_of ch)) k"
    by (cases "map_of (sv_channels s) k") (auto simp: rooms_def with_new_channel_def)
qed

section \<open>The handlers\<close>

lemma on_room_found:
  "findChannel n s = Some q \<Longrightarrow> hp_channel s q = Some ch \<Longrightarrow> on_room n f (rooms s) = (rooms s)(toLower n := f (room_of ch))"
  by (simp add: on_room_def rooms_found)

lemma on_room_same:
  "findChannel n s = Some q \<Longrightarrow> hp_channel s q = Some ch \<Longrightarrow> f (room_of ch) = Some (room_of ch) \<Longrightarrow> on_room n f (rooms s) = rooms s"
  by (auto simp: on_room_found rooms_found)

lemma on_room_absent: "findChannel n s = None \<Longrightarrow> on_room n f (rooms s) = rooms s"
  by (auto simp: on_room_def rooms_absent)

lemma rooms_on_room:
  assumes "wf s" "findChannel n s = Some q" "hp_channel s q = Some ch" "f (room_of ch) = Some (room_of ch')"
  shows "rooms (set_channel q ch' s) = on_room n f (rooms s)"
proof -
  have "toLower n = toLower (ch_name ch)" using assms(2,3) findChannel_spec [OF assms(1), of n q] by auto
  then show ?thesis
    using rooms_set_channel [OF assms(1,3), of n ch'] on_room_found [OF assms(2,3)] assms(4) by simp
qed

lemma admits_iff:
  assumes "sound s" "hp_channel s q = Some ch"
  shows "admits (room_of ch) p key \<longleftrightarrow> join_refusal ch p c key = None"
proof -
  have "card (set (ch_members ch)) = length (ch_members ch)"
    using good_channelD(2) [OF soundD(1) [OF assms(1)] assms(2)] by (simp add: lists_ok_def distinct_card)
  then show ?thesis by (auto simp: admits_def join_refusal_def isFull_def)
qed

lemma join_rooms:
  assumes s: "sound s" and q: "findChannel n s = Some q" "hp_channel s q = Some ch" and p: "hp_client s p = Some c"
  shows "returns (handleJoin q p key s) (\<lambda>t. rooms t = room_join p n key (rooms s))"
proof -
  note r = rooms_found [OF q] and wf = soundD(3) [OF s]
  have "room_of (joined_channel p ch) = entered p (room_of ch)"
    using populated_member [OF soundD(2) [OF s] q(2)] by (simp add: joined_channel_def entered_def room_of_def)
  moreover have "toLower n = toLower (ch_name ch)" using q findChannel_spec [OF wf, of n q] by auto
  ultimately have "rooms (join_state q ch p c s) = (rooms s)(toLower n \<mapsto> entered p (room_of ch))"
    using rooms_set_channel [OF wf q(2)] by (simp add: join_state_def)
  then show ?thesis
    using r admits_iff [OF s q(2), of p key c] by (auto simp: handleJoin_eq [OF wf q(2) p] room_join_def split: option.split)
qed

lemma found_rooms:
  assumes s: "sound s" and new: "findChannel n s = None" and valid: "isValidChannelName n" and p: "hp_client s p = Some c"
  shows "returns (handleJoin (ChPtr (hp_next s)) p key (with_new_channel (new_Channel n) s)) (\<lambda>t. rooms t = room_join p n key (rooms s))"
proof -
  let ?q = "ChPtr (hp_next s)" and ?s = "with_new_channel (new_Channel n) s" and ?ch = "joined_channel p (new_Channel n)"
  have wf: "wf ?s" using new_channel_keeps(1) [OF s new valid] by (simp add: good_def)
  have q: "hp_channel ?s ?q = Some (new_Channel n)" "hp_client ?s p = Some c" using p by (simp_all add: with_new_channel_def)
  have "room_of ?ch = founded p n" by (simp add: room_of_def joined_channel_def new_Channel_def founded_def erase_remove_def)
  then have "rooms (join_state ?q (new_Channel n) p c ?s) = (rooms s)(toLower n \<mapsto> founded p n)"
    using rooms_set_channel [OF wf q(1), of n ?ch] rooms_with_new_channel [OF soundD(3) [OF s], of "new_Channel n"]
    by (simp add: join_state_def new_Channel_def)
  moreover have "join_refusal (new_Channel n) p c key = None" by (simp add: join_refusal_def new_Channel_def isFull_def)
  ultimately show ?thesis
    using rooms_absent [OF new] by (simp add: handleJoin_eq [OF wf q] room_join_def) (simp add: new_Channel_def)
qed

text \<open>Leaving a channel, and deleting it when it is empty\<close>

definition prune :: "chptr \<Rightarrow> string \<Rightarrow> server \<Rightarrow> server option" where
  "prune q n t = do { ch \<leftarrow> hp_channel t q; if isEmpty ch then deleteChannel n t else Some t }"

lemma prune_stay:
  assumes "sound s" "hp_channel s q = Some ch"
  shows "prune q n (post out s) = Some (post out s)"
  using populated_member [OF soundD(2) [OF assms(1)] assms(2)] assms(2) by (simp add: prune_def isEmpty_def)

lemma prune_leave:
  assumes s: "sound s" and q: "findChannel n s = Some q" "hp_channel s q = Some ch" and p: "hp_client s p = Some c" "p \<in> set (ch_members ch)"
  shows "returns (prune q n (post out (leave_state q ch p c s))) (\<lambda>t. rooms t = on_room n (departed p) (rooms s))"
proof -
  let ?t = "post out (leave_state q ch p c s)"
  note wf = soundD(3) [OF s]
  have n: "toLower n = toLower (ch_name ch)" using q findChannel_spec [OF wf, of n q] by auto
  have g: "wf ?t" using good_leave_state [OF soundD(1) [OF s] q(2) p(1)] by (simp add: good_def)
  have t: "hp_channel ?t q = Some (left_channel p ch)" by (simp add: leave_state_def)
  have R: "rooms ?t = (rooms s)(toLower n \<mapsto> room_of (left_channel p ch))"
    using rooms_set_channel [OF wf q(2) n] by (simp add: leave_state_def)
  have one: "isEmpty (left_channel p ch) \<longleftrightarrow> set (ch_members ch) = {p}"
    using p(2) good_channelD(2) [OF soundD(1) [OF s] q(2)] by (auto simp: isEmpty_def left_channel_def erase_remove_def filter_empty_conv)
  show ?thesis
  proof (cases "set (ch_members ch) = {p}")
    case True
    have "deleteChannel n ?t = Some (without_channel (toLower (ch_name ch)) q ?t)"
      using deleteChannel_eq [OF g t, of n] n by (simp add: left_channel_def)
    moreover have "rooms (without_channel (toLower (ch_name ch)) q ?t) = (rooms s)(toLower n := None)"
      using rooms_without_channel [OF g t] R n by (simp add: left_channel_def)
    ultimately show ?thesis using True one t on_room_found [OF q] by (simp add: prune_def departed_def)
  next
    case False
    have "room_of (left_channel p ch) = (room_of ch)\<lparr>rm_members := set (ch_members ch) - {p}, rm_operators := set (ch_operators ch) - {p}\<rparr>"
      by (simp add: room_of_def left_channel_def)
    then show ?thesis using False one t R p(2) on_room_found [OF q] by (simp add: prune_def departed_def)
  qed
qed

lemma part_rooms:
  assumes s: "sound s" and q: "findChannel n s = Some q" "hp_channel s q = Some ch" and p: "hp_client s p = Some c"
  shows "returns (Option.bind (handlePart q p m s) (prune q n)) (\<lambda>t. rooms t = on_room n (departed p) (rooms s))"
  using prune_leave [OF s q p] prune_stay [OF s q(2)] on_room_same [OF q, of "departed p"]
  by (auto simp: handlePart_eq [OF soundD(3) [OF s] q(2) p] departed_def)

lemma kick_rooms:
  assumes s: "sound s" and q: "findChannel n s = Some q" "hp_channel s q = Some ch" and p: "hp_client s p = Some c"
    and k: "hp_client s k = Some d"
  shows "returns (Option.bind (handleKick q p k m s) (prune q n)) (\<lambda>t. rooms t = on_room n (room_kick p (Some k)) (rooms s))"
proof -
  note r = rooms_found [OF q]
  have "on_room n (room_kick p (Some k)) (rooms s) = on_room n (departed k) (rooms s)"
    if "p \<in> set (ch_members ch)" "p \<in> set (ch_operators ch)"
    using that q by (simp add: on_room_found room_kick_def)
  then show ?thesis
    using prune_leave [OF s q k] prune_stay [OF s q(2)] on_room_same [OF q, of "room_kick p (Some k)"]
    by (auto simp: handleKick_eq [OF soundD(3) [OF s] q(2) p k] room_kick_def departed_def)
qed

lemma topic_rooms:
  assumes s: "sound s" and q: "findChannel n s = Some q" "hp_channel s q = Some ch" and p: "hp_client s p = Some c"
  shows "returns (handleTopic q p topic True s) (\<lambda>t. rooms t = on_room n (room_topic p topic) (rooms s))"
    and "returns (handleTopic q p topic False s) (\<lambda>t. rooms t = rooms s)"
proof -
  note wf = soundD(3) [OF s]
  have "(room_of ch)\<lparr>rm_topic := x\<rparr> = room_of (ch\<lparr>ch_topic := x\<rparr>)" for x by (simp add: room_of_def)
  then show "returns (handleTopic q p topic True s) (\<lambda>t. rooms t = on_room n (room_topic p topic) (rooms s))"
    using rooms_on_room [OF wf q, of "room_topic p topic" "ch\<lparr>ch_topic := truncateUtf8 topic 300\<rparr>"]
      on_room_same [OF q, of "room_topic p topic"]
    by (auto simp: handleTopic_eq [OF wf q(2) p] room_topic_def)
  show "returns (handleTopic q p topic False s) (\<lambda>t. rooms t = rooms s)"
    by (simp add: handleTopic_eq [OF wf q(2) p])
qed

lemma invite_rooms:
  assumes s: "sound s" and q: "findChannel n s = Some q" "hp_channel s q = Some ch" and p: "hp_client s p = Some c"
    and v: "hp_client s v = Some d"
  shows "returns (handleInvite q p v s) (\<lambda>t. rooms t = on_room n (room_invite p v) (rooms s))"
proof -
  let ?ch = "ch\<lparr>ch_invitedUsers := ch_invitedUsers ch @ [v]\<rparr>"
  have room: "(room_of ch)\<lparr>rm_invited := insert v (set (ch_invitedUsers ch))\<rparr> = room_of ?ch" by (simp add: room_of_def)
  have same: "room_of ?ch = room_of ch" if "v \<in> set (ch_invitedUsers ch)" using that by (simp add: room_of_def insert_absorb)
  let ?may = "p \<in> set (ch_members ch) \<and> (ch_inviteOnly ch \<longrightarrow> p \<in> set (ch_operators ch)) \<and> v \<notin> set (ch_members ch)"
  have f: "room_invite p v (room_of ch) = Some (if ?may then room_of ?ch else room_of ch)" unfolding room_invite_def room_of_fields room ..
  show ?thesis
  proof (cases "?may \<and> v \<notin> set (ch_invitedUsers ch)")
    case True
    then show ?thesis
      using rooms_on_room [OF soundD(3) [OF s] q, of "room_invite p v" ?ch] f
      by (simp add: handleInvite_eq [OF q(2) p v] invite_state_def) blast
  next
    case False
    then have "room_invite p v (room_of ch) = Some (room_of ch)" using f same by (auto split: if_splits)
    moreover have "\<exists>out. handleInvite q p v s = Some (post out s) \<or> handleInvite q p v s = Some s"
      using False by (simp add: handleInvite_eq [OF q(2) p v]) blast
    ultimately show ?thesis using on_room_same [OF q, of "room_invite p v"] by auto
  qed
qed

section \<open>MODE\<close>

definition flag_change :: "mode_change \<Rightarrow> bool" where
  "flag_change x \<longleftrightarrow> fst (snd x) \<in> {CHR ''i'', CHR ''t'', CHR ''k'', CHR ''l''}"

lemma ml_append_fields [simp]: "ml_enable (ml_append on m l) = ml_enable l" "ml_paramIndex (ml_append on m l) = ml_paramIndex l"
  by (simp_all add: ml_append_def split: prod.split)

lemma chan_step_change:
  assumes step: "chan_mode_step nick P m (l, ch, out) = (l', ch', out')" and flag: "flag_change (on, m, a)"
    and l: "ml_enable l = on" "drop (ml_paramIndex l) P = mode_args ((on, m, a) # xs)" and ok: "ok_channel ch"
  shows "room_of ch' = change_flag (on, m, a) (room_of ch) \<and> ml_enable l' = on \<and> drop (ml_paramIndex l') P = mode_args xs"
proof -
  have arg: "ml_paramIndex l < length P \<and> P ! ml_paramIndex l = a \<and> drop (Suc (ml_paramIndex l)) P = mode_args xs"
    if "on" "m \<in> {CHR ''k'', CHR ''l''}"
  proof -
    have d: "drop (ml_paramIndex l) P = a # mode_args xs" using l(2) that by simp
    then have "ml_paramIndex l < length P" by (metis drop_eq_Nil2 linorder_not_le list.distinct(1))
    with d show ?thesis using Cons_nth_drop_Suc [of "ml_paramIndex l" P] by simp
  qed
  consider "m = CHR ''i''" | "m = CHR ''t''" | "m = CHR ''k''" | "m = CHR ''l''" using flag by (auto simp: flag_change_def)
  then show ?thesis
  proof cases
    case 1
    then show ?thesis using step l by (auto simp: chan_mode_step_def change_flag_def room_of_def setModeInviteOnly_def split: if_splits)
  next
    case 2
    then show ?thesis using step l by (auto simp: chan_mode_step_def change_flag_def room_of_def setModeTopicRestriction_def split: if_splits)
  next
    case 3
    then show ?thesis using step l arg by (cases on) (auto simp: chan_mode_step_def change_flag_def room_of_def setModeKey_def Let_def split: if_splits)
  next
    case 4
    then show ?thesis using step l arg ok
      by (cases on) (auto simp: chan_mode_step_def change_flag_def room_of_def setModeUserLimit_def ok_channel_def Let_def split: if_splits option.splits)
  qed
qed

lemma chan_mode_sign:
  "chan_mode_step nick P (if on then CHR ''+'' else CHR ''-'') (l, ch, out) = (l\<lparr>ml_enable := on\<rparr>, ch, out)"
  by (cases on) (simp_all add: chan_mode_step_def Let_def)

lemma chan_mode_changes:
  assumes "list_all flag_change xs" "drop (ml_paramIndex l) P = mode_args xs" "ok_channel ch"
    and "prev = (if ml_enable l then CHR ''+'' else CHR ''-'') \<or> prev = NUL"
  shows "\<exists>l' ch' out'. fold (chan_mode_step nick P) (mode_text prev xs) (l, ch, out) = (l', ch', out') \<and>
    room_of ch' = fold change_flag xs (room_of ch)"
  using assms
proof (induction xs arbitrary: l ch out prev)
  case (Cons x xs)
  obtain on m a where x: "x = (on, m, a)" by (cases x)
  let ?sign = "if on then CHR ''+'' else CHR ''-''"
  define l0 where "l0 = l\<lparr>ml_enable := on\<rparr>"
  have "l0 = l" if "?sign = prev" using Cons.prems(4) that by (auto simp: l0_def split: if_splits)
  then have head: "fold (chan_mode_step nick P) (if ?sign \<noteq> prev then [?sign] else []) (l, ch, out) = (l0, ch, out)"
    using chan_mode_sign [of nick P on l ch out] by (simp add: l0_def)
  obtain l1 ch1 out1 where st: "chan_mode_step nick P m (l0, ch, out) = (l1, ch1, out1)" using prod_cases3 by blast
  have step: "room_of ch1 = change_flag x (room_of ch)" "ml_enable l1 = on" "drop (ml_paramIndex l1) P = mode_args xs"
    using chan_step_change [OF st, of on a xs] Cons.prems x by (simp_all add: l0_def)
  obtain l' ch' out' where "fold (chan_mode_step nick P) (mode_text ?sign xs) (l1, ch1, out1) = (l', ch', out')"
      "room_of ch' = fold change_flag xs (room_of ch1)"
    using Cons.IH [of l1 ch1 ?sign out1] Cons.prems(1) step(2,3) chan_mode_step_ok [OF st Cons.prems(3)] by auto
  then show ?case using head st step(1) x by (simp add: Let_def)
qed simp

lemma operator_rooms:
  assumes s: "sound s" and q: "hp_channel s q = Some ch" and p: "hp_client s p = Some c"
    and t: "findClientByNickname nick s = Some (Some t)" "hp_client s t = Some d"
  shows "\<exists>out ch'. handleModeOperator q on t p s = Some (post out (set_channel q ch' s)) \<and>
    room_of ch' = change_op p (directory s) (on, m, nick) (room_of ch) \<and> ch_name ch' = ch_name ch"
proof -
  let ?op = "change_op p (directory s) (on, m, nick) (room_of ch)"
  have dir: "directory s nick = Some t" using t(1) by (simp add: directory_def)
  have send: "post out s = post out (set_channel q ch s)" for out using q by simp
  have stay: "s = post (\<lambda>_. []) (set_channel q ch s)" using q by (simp add: post_none)
  consider "t \<notin> set (ch_members ch) \<or> p \<notin> set (ch_operators ch)" | "t \<in> set (ch_members ch)" "p \<in> set (ch_operators ch)" "(t \<in> set (ch_operators ch)) = on"
    | "t \<in> set (ch_members ch)" "p \<in> set (ch_operators ch)" "(t \<in> set (ch_operators ch)) \<noteq> on" by blast
  then show ?thesis
  proof cases
    case 1
    then have "?op = room_of ch" by (auto simp: change_op_def dir)
    moreover have "\<exists>out. handleModeOperator q on t p s = Some (post out s)"
      using 1 by (auto simp: handleModeOperator_eq [OF soundD(3) [OF s] q t(2) p])
    ultimately show ?thesis using send by metis
  next
    case 2
    have "?op = room_of ch" using 2 by (cases on) (simp_all add: change_op_def dir insert_absorb room_of_def)
    moreover have "handleModeOperator q on t p s = Some s"
      using 2 by (simp add: handleModeOperator_eq [OF soundD(3) [OF s] q t(2) p])
    ultimately show ?thesis using stay by metis
  next
    case 3
    have "?op = room_of (setModeOperator on t ch)" using 3 by (cases on) (simp_all add: change_op_def dir room_of_def setModeOperator_def)
    moreover have "\<exists>out. handleModeOperator q on t p s = Some (post out (set_channel q (setModeOperator on t ch) s))"
      using 3 by (simp add: handleModeOperator_eq [OF soundD(3) [OF s] q t(2) p]) blast
    moreover have "ch_name (setModeOperator on t ch) = ch_name ch" by (simp add: setModeOperator_def)
    ultimately show ?thesis by metis
  qed
qed

definition pending :: "string list \<Rightarrow> mode_exec \<Rightarrow> string \<Rightarrow> mode_change list" where
  "pending ps l ms = mode_changes (3 - me_paramModeCount l) (me_enable l) ms (drop (me_paramIndex l) ps)"

text \<open>What one change adds to the filtered string and parameters\<close>

definition collects :: "mode_change list \<Rightarrow> mode_exec \<Rightarrow> mode_exec \<Rightarrow> bool" where
  "collects ys l l' \<longleftrightarrow> me_filteredModes l' = me_filteredModes l @ mode_text (me_lastAppliedSign l) ys \<and>
     me_filteredParams l' = me_filteredParams l @ mode_args ys \<and>
     me_lastAppliedSign l' = (if ys = [] then me_lastAppliedSign l else if fst (List.last ys) then CHR ''+'' else CHR ''-'')"

lemma mode_text_append:
  "mode_text prev (xs @ ys) = mode_text prev xs @
     mode_text (if xs = [] then prev else if fst (List.last xs) then CHR ''+'' else CHR ''-'') ys"
  by (induction prev xs rule: mode_text.induct) (auto simp: Let_def)

lemma mode_args_append: "mode_args (xs @ ys) = mode_args xs @ mode_args ys"
  by (induction xs rule: mode_args.induct) auto

lemma collects_trans: "collects xs l l' \<Longrightarrow> collects ys l' l'' \<Longrightarrow> collects (xs @ ys) l l''"
  by (auto simp: collects_def mode_text_append mode_args_append)

lemma mode_flags [simp]: "list_all flag_change ys \<Longrightarrow> filter is_op ys = []" "list_all flag_change ys \<Longrightarrow> filter (\<lambda>x. \<not> is_op x) ys = ys"
  by (auto simp: filter_empty_conv filter_id_conv list_all_iff is_op_def flag_change_def)

text \<open>What an iteration on the letters \<open>ms\<close> does: the changes it consumes, and what becomes of the channel\<close>

definition mode_effect :: "cptr \<Rightarrow> string list \<Rightarrow> chptr \<Rightarrow> channel \<Rightarrow> string \<Rightarrow> mode_exec \<times> server \<Rightarrow> mode_exec \<times> server \<Rightarrow> bool" where
  "mode_effect p ps q ch ms = (\<lambda>(l, s) (l', s'). \<exists>out ch' ys. s' = post out (set_channel q ch' s) \<and> ch_name ch' = ch_name ch \<and>
     (\<forall>rest. pending ps l (ms @ rest) = ys @ pending ps l' rest) \<and> list_all flag_change (filter (\<lambda>x. \<not> is_op x) ys) \<and>
     collects (filter (\<lambda>x. \<not> is_op x) ys) l l' \<and> room_of ch' = fold (change_op p (directory s)) (filter is_op ys) (room_of ch))"

lemma mode_effect_flags:
  assumes "hp_channel s q = Some ch" "\<And>rest. pending ps l (ms @ rest) = ys @ pending ps l' rest" "list_all flag_change ys" "collects ys l l'"
  shows "mode_effect p ps q ch ms (l, s) (l', post out s)" "mode_effect p ps q ch ms (l, s) (l', s)"
proof -
  have "mode_effect p ps q ch ms (l, s) (l', post out s)" for out
    unfolding mode_effect_def using assms by (auto intro!: exI [of _ out] exI [of _ ch] exI [of _ ys])
  from this [of out] this [of "\<lambda>_. []"] show "mode_effect p ps q ch ms (l, s) (l', post out s)" "mode_effect p ps q ch ms (l, s) (l', s)"
    by (simp_all add: post_none)
qed

lemma drop_next: "i < length ps \<Longrightarrow> drop i ps = ps ! i # drop (Suc i) ps"
  by (simp add: Cons_nth_drop_Suc)

lemma mode_exec_sign:
  "mode_effect p ps q ch ''+'' (l, s) (l\<lparr>me_enable := True\<rparr>, s)" "mode_effect p ps q ch ''-'' (l, s) (l\<lparr>me_enable := False\<rparr>, s)"
  if "hp_channel s q = Some ch"
  by (rule mode_effect_flags(2) [OF that, where ys = "[]"]; simp add: pending_def collects_def)+

lemma mode_exec_skip:
  assumes "hp_channel s q = Some ch" "m \<noteq> CHR ''+''" "m \<noteq> CHR ''-''" "m \<noteq> CHR ''i''" "m \<noteq> CHR ''t''"
    and "l' = (if (m = CHR ''o'' \<or> m = CHR ''k'' \<or> m = CHR ''l'' \<and> me_enable l) \<and> me_paramIndex l < length ps
       then l\<lparr>me_paramIndex := Suc (me_paramIndex l)\<rparr> else l)"
    and "m \<in> {CHR ''o'', CHR ''k'', CHR ''l''} \<Longrightarrow> 3 \<le> me_paramModeCount l \<or>
      length ps \<le> me_paramIndex l \<and> (m = CHR ''o'' \<or> me_enable l)"
  shows "mode_effect p ps q ch [m] (l, s) (l', post out s)" "mode_effect p ps q ch [m] (l, s) (l', s)"
proof -
  have "pending ps l ([m] @ rest) = [] @ pending ps l' rest" for rest
  proof -
    consider "m = CHR ''o''" | "m = CHR ''k''" | "m = CHR ''l''" | "m \<notin> {CHR ''o'', CHR ''k'', CHR ''l''}" by blast
    then show ?thesis
      by cases (use assms(2-) drop_next [of "me_paramIndex l" ps] in
        \<open>cases "me_paramIndex l < length ps"; cases "3 \<le> me_paramModeCount l"; cases "me_enable l"; simp add: pending_def\<close>)+
  qed
  moreover have "collects [] l l'" using assms(6) by (simp add: collects_def)
  ultimately show "mode_effect p ps q ch [m] (l, s) (l', post out s)" "mode_effect p ps q ch [m] (l, s) (l', s)"
    using mode_effect_flags [OF assms(1), of ps l "[m]" "[]" l' p] by simp_all
qed

lemma mode_exec_flag:
  assumes "m \<in> {CHR ''i'', CHR ''t'', CHR ''k'', CHR ''l''}" "m \<in> {CHR ''k'', CHR ''l''} \<Longrightarrow> me_paramModeCount l < 3"
    "m \<in> {CHR ''k'', CHR ''l''} \<Longrightarrow> me_enable l \<Longrightarrow> given"
  shows "\<exists>l'. mode_exec_apply q p tn m a given (l, s) = Some (l', s) \<and> me_enable l' = me_enable l \<and> me_paramIndex l' = me_paramIndex l \<and>
    me_paramModeCount l' = (if m \<in> {CHR ''k'', CHR ''l''} then Suc (me_paramModeCount l) else me_paramModeCount l) \<and>
    collects [(me_enable l, m, a)] l l'"
proof -
  consider "m = CHR ''i''" | "m = CHR ''t''" | "m = CHR ''k''" "me_paramModeCount l < 3" "me_enable l \<longrightarrow> given"
    | "m = CHR ''l''" "me_paramModeCount l < 3" "me_enable l \<longrightarrow> given" using assms by blast
  then show ?thesis
    by cases (simp_all add: mode_exec_apply_def collects_def Let_def)
qed

lemma collects_index: "collects ys (l\<lparr>me_paramIndex := i\<rparr>) l' \<longleftrightarrow> collects ys l l'"
  by (simp add: collects_def)

lemma mode_exec_change:
  assumes q: "hp_channel s q = Some ch" and m: "m \<in> {CHR ''i'', CHR ''t'', CHR ''k'', CHR ''l''}"
    and room: "m \<in> {CHR ''k'', CHR ''l''} \<Longrightarrow> me_paramModeCount l < 3"
    and fed: "m \<in> {CHR ''k'', CHR ''l''} \<Longrightarrow> me_enable l \<Longrightarrow> me_paramIndex l < length ps"
  shows "returns (mode_exec_step q p tn ps m (l, s)) (mode_effect p ps q ch [m] (l, s))"
proof -
  let ?takes = "(m = CHR ''k'' \<or> m = CHR ''l'' \<and> me_enable l) \<and> me_paramIndex l < length ps"
  let ?a = "if ?takes then ps ! me_paramIndex l else []"
  define l0 where "l0 = (if ?takes then l\<lparr>me_paramIndex := Suc (me_paramIndex l)\<rparr> else l)"
  have step: "mode_exec_step q p tn ps m (l, s) = mode_exec_apply q p tn m ?a ?takes (l0, s)"
    using m fed by (elim insertE) (auto simp: mode_exec_step_def l0_def)
  have l0: "me_enable l0 = me_enable l" "me_paramModeCount l0 = me_paramModeCount l" "collects ys l0 l' \<longleftrightarrow> collects ys l l'" for ys l'
    by (simp_all add: l0_def collects_index)
  obtain l' where l': "mode_exec_apply q p tn m ?a ?takes (l0, s) = Some (l', s)" "me_enable l' = me_enable l" "me_paramIndex l' = me_paramIndex l0"
      "me_paramModeCount l' = (if m \<in> {CHR ''k'', CHR ''l''} then Suc (me_paramModeCount l) else me_paramModeCount l)"
      "collects [(me_enable l, m, ?a)] l l'"
    using mode_exec_flag [of m l0 ?takes q p tn ?a s] m room fed unfolding l0 by blast
  have "pending ps l ([m] @ rest) = [(me_enable l, m, ?a)] @ pending ps l' rest" for rest
  proof -
    consider "m = CHR ''i''" | "m = CHR ''t''" | "m = CHR ''k''" | "m = CHR ''l''" using m by blast
    then show ?thesis
      by cases (use room fed l'(2-4) drop_next [of "me_paramIndex l" ps] in
        \<open>cases "me_paramIndex l < length ps"; cases "me_enable l"; simp add: pending_def l0_def\<close>)+
  qed
  then have "mode_effect p ps q ch [m] (l, s) (l', s)"
    using m l'(5) by (intro mode_effect_flags(2) [OF q, where ys = "[(me_enable l, m, ?a)]"]) (auto simp: flag_change_def)
  then show ?thesis using step l'(1) by simp
qed

lemma pending_op:
  assumes "me_paramIndex l < length ps" "me_paramModeCount l < 3"
  shows "pending ps l (CHR ''o'' # rest) = (me_enable l, CHR ''o'', ps ! me_paramIndex l) #
    pending ps (l\<lparr>me_paramIndex := Suc (me_paramIndex l), me_paramModeCount := Suc (me_paramModeCount l)\<rparr>) rest"
  using assms drop_next [OF assms(1)] by (simp add: pending_def)

lemma mode_exec_oper:
  assumes s: "sound s" and q: "hp_channel s q = Some ch" and p: "hp_client s p = Some c"
    and fed: "me_paramIndex l < length ps" "me_paramModeCount l < 3"
  shows "returns (mode_exec_step q p tn ps CHR ''o'' (l, s)) (mode_effect p ps q ch ''o'' (l, s))"
proof -
  let ?nick = "ps ! me_paramIndex l" and ?x = "(me_enable l, CHR ''o'', ps ! me_paramIndex l)"
  define l' where "l' = l\<lparr>me_paramIndex := Suc (me_paramIndex l), me_paramModeCount := Suc (me_paramModeCount l)\<rparr>"
  have effect: "mode_effect p ps q ch ''o'' (l, s) (l', post out (set_channel q ch' s))"
    if "room_of ch' = change_op p (directory s) ?x (room_of ch)" "ch_name ch' = ch_name ch" for out ch'
    unfolding mode_effect_def using that pending_op [OF fed]
    by (auto intro!: exI [of _ out] exI [of _ ch'] exI [of _ "[?x]"] simp: l'_def is_op_def collects_def)
  show ?thesis
  proof (rule find_cases [OF s, of ?nick])
    assume none: "findClientByNickname ?nick s = Some None"
    then have "change_op p (directory s) ?x (room_of ch) = room_of ch" by (simp add: change_op_def directory_def)
    then have "mode_effect p ps q ch ''o'' (l, s) (l', post out s)" for out using effect [of ch out] q by simp
    then show ?thesis using fed none q p by (simp add: mode_exec_step_def mode_exec_apply_def Let_def heap_simps l'_def)
  next
    fix r d assume r: "findClientByNickname ?nick s = Some (Some r)" "hp_client s r = Some d"
    obtain out ch' where "handleModeOperator q (me_enable l) r p s = Some (post out (set_channel q ch' s))"
        "room_of ch' = change_op p (directory s) ?x (room_of ch)" "ch_name ch' = ch_name ch"
      using operator_rooms [OF s q p r, of "me_enable l" "CHR ''o''"] by blast
    then show ?thesis using fed r effect [of ch' out] by (simp add: mode_exec_step_def mode_exec_apply_def Let_def l'_def)
  qed
qed

lemma mode_exec_step_rooms:
  assumes s: "sound s" and q: "hp_channel s q = Some ch" and p: "hp_client s p = Some c"
  shows "returns (mode_exec_step q p tn ps m (l, s)) (mode_effect p ps q ch [m] (l, s))"
proof -
  let ?fed = "me_paramIndex l < length ps" and ?spent = "3 \<le> me_paramModeCount l"
  consider (sign) "m = CHR ''+'' \<or> m = CHR ''-''"
    | (change) "m \<in> {CHR ''i'', CHR ''t'', CHR ''k'', CHR ''l''}" "m \<in> {CHR ''k'', CHR ''l''} \<longrightarrow> \<not> ?spent \<and> (me_enable l \<longrightarrow> ?fed)"
    | (oper) "m = CHR ''o''" "?fed" "\<not> ?spent"
    | (unknown) "m \<notin> {CHR ''+'', CHR ''-'', CHR ''o'', CHR ''i'', CHR ''t'', CHR ''k'', CHR ''l''}"
    | (spent) "m \<in> {CHR ''o'', CHR ''k'', CHR ''l''}" "?spent" "?fed \<or> m \<noteq> CHR ''o'' \<and> \<not> me_enable l"
    | (hungry) "m \<in> {CHR ''o'', CHR ''k'', CHR ''l''}" "\<not> ?fed" "m = CHR ''o'' \<or> me_enable l" by blast
  then show ?thesis
  proof cases
    case sign
    then show ?thesis using mode_exec_sign [OF q] by (auto simp: mode_exec_step_def)
  next
    case change
    then show ?thesis by (intro mode_exec_change [OF q]) auto
  next
    case oper
    then show ?thesis using mode_exec_oper [OF s q p] by simp
  next
    case unknown
    then show ?thesis using q p mode_exec_skip(1) [OF q, of m l] by (simp add: mode_exec_step_def heap_simps)
  next
    case spent
    let ?l = "if (m = CHR ''o'' \<or> m = CHR ''k'' \<or> m = CHR ''l'' \<and> me_enable l) \<and> ?fed then l\<lparr>me_paramIndex := Suc (me_paramIndex l)\<rparr> else l"
    consider "m = CHR ''o''" "?fed" | "m = CHR ''k''" "?fed" | "m = CHR ''l''" "?fed" "me_enable l"
      | "m = CHR ''k''" "\<not> ?fed" "\<not> me_enable l" | "m = CHR ''l''" "\<not> me_enable l" using spent(1,3) by blast
    then have "mode_exec_step q p tn ps m (l, s) = Some (?l, s)"
      by cases (use spent(2,3) in \<open>simp_all add: mode_exec_step_def mode_exec_apply_def Let_def\<close>)
    moreover have "mode_effect p ps q ch [m] (l, s) (?l, s)"
      by (rule mode_exec_skip(2) [OF q]) (use spent(1,2) in auto)
    ultimately show ?thesis by simp
  next
    case hungry
    have "m = CHR ''o'' \<or> m = CHR ''k'' \<and> me_enable l \<or> m = CHR ''l'' \<and> me_enable l" using hungry by blast
    then have "\<exists>out. mode_exec_step q p tn ps m (l, s) = Some (l, post out s)"
      using p hungry(2) by (elim disjE conjE) (simp_all add: mode_exec_step_def heap_simps, blast+)
    then obtain out where "mode_exec_step q p tn ps m (l, s) = Some (l, post out s)" by blast
    moreover have "mode_effect p ps q ch [m] (l, s) (l, post out s)"
      by (rule mode_exec_skip(1) [OF q]) (use hungry in auto)
    ultimately show ?thesis by simp
  qed
qed

lemma find_loop_moved: "find_loop nick cs (post out (set_channel q ch s)) = find_loop nick cs s"
proof (induction cs)
  case (Cons it cs)
  then show ?case by (cases "hp_client s (snd it)") simp_all
qed simp

lemma directory_moved [simp]: "directory (post out (set_channel q ch s)) = directory s"
  by (simp add: fun_eq_iff directory_def findClientByNickname_def find_loop_moved)

lemma mode_effect_trans:
  assumes "mode_effect p ps q ch ms (l, s) (l', s')" "hp_channel s' q = Some ch'" "mode_effect p ps q ch' ms' (l', s') st"
  shows "mode_effect p ps q ch (ms @ ms') (l, s) st"
proof -
  obtain l'' s'' where st: "st = (l'', s'')" by (cases st)
  obtain out xs where 1: "s' = post out (set_channel q ch' s)" "ch_name ch' = ch_name ch"
      "\<forall>rest. pending ps l (ms @ rest) = xs @ pending ps l' rest" "list_all flag_change (filter (\<lambda>x. \<not> is_op x) xs)"
      "collects (filter (\<lambda>x. \<not> is_op x) xs) l l'" "room_of ch' = fold (change_op p (directory s)) (filter is_op xs) (room_of ch)"
    using assms(1,2) by (auto simp: mode_effect_def)
  obtain out' ch'' ys where 2: "s'' = post out' (set_channel q ch'' s')" "ch_name ch'' = ch_name ch'"
      "\<forall>rest. pending ps l' (ms' @ rest) = ys @ pending ps l'' rest" "list_all flag_change (filter (\<lambda>x. \<not> is_op x) ys)"
      "collects (filter (\<lambda>x. \<not> is_op x) ys) l' l''" "room_of ch'' = fold (change_op p (directory s')) (filter is_op ys) (room_of ch')"
    using assms(3) by (auto simp: mode_effect_def st)
  have "s'' = post (then_out out out') (set_channel q ch'' s)" by (simp add: 1(1) 2(1) post_simps)
  then show ?thesis
    unfolding mode_effect_def st using 1 2(2-) collects_trans [OF 1(5) 2(5)]
    by (auto intro!: exI [of _ "then_out out out'"] exI [of _ ch''] exI [of _ "xs @ ys"])
qed

lemma mode_loop_rooms:
  assumes "sound s" "hp_channel s q = Some ch" "hp_client s p = Some c"
  shows "returns (each (mode_exec_step q p tn ps) ms (l, s)) (mode_effect p ps q ch ms (l, s))"
  using assms
proof (induction ms arbitrary: l s ch c)
  case Nil
  have "mode_effect p ps q ch [] (l, s) (l, s)"
    by (rule mode_effect_flags(2) [OF Nil(2), where ys = "[]"]) (simp_all add: collects_def)
  then show ?case by simp
next
  case (Cons m ms)
  have "mode_inv s q (l, s)" using keeps_refl [OF Cons.prems(1)] Cons.prems(2) by simp
  then have "returns (mode_exec_step q p tn ps m (l, s)) (\<lambda>st. mode_inv s q st \<and> mode_effect p ps q ch [m] (l, s) st)"
    using mode_exec_step_inv [OF _ Cons.prems(3)] mode_exec_step_rooms [OF Cons.prems] by (intro returns_conj) auto
  moreover have "returns (each (mode_exec_step q p tn ps) ms st) (mode_effect p ps q ch (m # ms) (l, s))"
    if i: "mode_inv s q st" and e: "mode_effect p ps q ch [m] (l, s) st" for st
  proof -
    obtain l' s' ch' where st: "st = (l', s')" "keeps s s'" "hp_channel s' q = Some ch'" using i by (cases st) auto
    obtain c' where "hp_client s' p = Some c'" using keeps_client [OF st(2) Cons.prems(3)] by blast
    then have "returns (each (mode_exec_step q p tn ps) ms (l', s')) (mode_effect p ps q ch' ms (l', s'))"
      using Cons.IH [of s' ch' c' l'] st by (simp add: keeps_but_def)
    then show ?thesis
      using mode_effect_trans [OF e [unfolded st(1)] st(3)] unfolding st(1) by (auto elim: returns_mono)
  qed
  ultimately show ?case by (auto elim!: returns_mono)
qed

lemma mode_text_Nil: "mode_text prev xs = [] \<longleftrightarrow> xs = []"
  by (cases xs) (auto simp: Let_def)

text \<open>The last call of \<open>handleMode\<close>, on the channel as the operator changes left it\<close>

lemma mode_flags_rooms:
  assumes s: "sound s" and q: "findChannel n s = Some q" "hp_channel s q = Some ch" and p: "hp_client s p = Some c"
    and xs: "list_all flag_change xs"
  shows "returns (if mode_text NUL xs \<noteq> [] then handleMode q p (mode_text NUL xs) (mode_args xs) s else Some s)
    (\<lambda>t. rooms t = (rooms s)(toLower n \<mapsto> (if p \<in> set (ch_operators ch) then fold change_flag xs (room_of ch) else room_of ch)))"
proof -
  have r: "(rooms s)(toLower n \<mapsto> room_of ch) = rooms s" using rooms_found [OF q] by auto
  have nm: "toLower n = toLower (ch_name ch)" using q findChannel_spec [OF soundD(3) [OF s], of n q] by auto
  obtain l' ch' out' where cm: "chan_mode (cl_nickname c) (mode_args xs) (mode_text NUL xs) ch = (l', ch', out')"
      "room_of ch' = fold change_flag xs (room_of ch)"
    using chan_mode_changes [OF xs, of mode_loop0 "mode_args xs" ch NUL "cl_nickname c" "[]"] good_channelD(1) [OF soundD(1) [OF s] q(2)]
    by (auto simp: chan_mode_def mode_loop0_def)
  have "rooms (set_channel q ch' s) = (rooms s)(toLower n \<mapsto> room_of ch')" by (rule rooms_set_channel [OF soundD(3) [OF s] q(2) nm])
  then show ?thesis
    using r cm handleMode_eq [OF soundD(3) [OF s] q(2) p, of "mode_text NUL xs" "mode_args xs"] by (auto simp: mode_text_Nil)
qed

end
