(* ===== verification/Irc_Room_Commands.thy ===== *)
theory Irc_Room_Commands
  imports Irc_Rooms
begin

text \<open>
  The commands implement the abstract functions on rooms: whatever state a command is run in, the rooms of the state it
  returns are those \<open>room_command\<close> computes from the rooms before.
\<close>

section \<open>MODE\<close>

lemma lowerChar_prefix: "lowerChar c = CHR ''#'' \<longleftrightarrow> c = CHR ''#''" "lowerChar c = CHR ''&'' \<longleftrightarrow> c = CHR ''&''"
proof -
  have "lowerChar c = c \<or> lowerChar c \<in> {CHR ''{'', CHR ''}'', CHR ''|'', CHR ''^''} \<or> islower_c (lowerChar c)"
    using tolower_c_cases [of c] by (simp add: lowerChar_def) blast
  moreover have "\<not> islower_c (CHR ''#'')" "\<not> islower_c (CHR ''&'')" by (simp_all add: ctype_defs)
  moreover have "lowerChar (CHR ''#'') = CHR ''#''" "lowerChar (CHR ''&'') = CHR ''&''" by code_simp+
  ultimately show "lowerChar c = CHR ''#'' \<longleftrightarrow> c = CHR ''#''" "lowerChar c = CHR ''&'' \<longleftrightarrow> c = CHR ''&''" by auto
qed

lemma channel_prefix:
  assumes "toLower n = toLower m" "isValidChannelName m"
  shows "n \<noteq> []" "hd n = CHR ''#'' \<or> hd n = CHR ''&''"
proof -
  have m: "m \<noteq> []" "hd m = CHR ''#'' \<or> hd m = CHR ''&''" using assms(2) by (auto simp: isValidChannelName_def split: if_splits)
  have "length n = length m" using arg_cong [OF assms(1), of length] by simp
  then show n: "n \<noteq> []" using m(1) by auto
  have "lowerChar (hd n) = lowerChar (hd m)" using arg_cong [OF assms(1), of hd] m(1) n by (simp add: toLower_def hd_map)
  then show "hd n = CHR ''#'' \<or> hd n = CHR ''&''" using m(2) lowerChar_prefix by metis
qed

lemma mode_rooms:
  assumes s: "sound s" and q: "findChannel n s = Some q" "hp_channel s q = Some ch" and p: "hp_client s p = Some c"
    and op: "p \<in> set (ch_operators ch)" and modes: "modes \<noteq> []" "hd modes \<in> {CHR ''+'', CHR ''-''}"
  shows "returns (do { (l, s) \<leftarrow> each (mode_exec_step q p tn ps) modes (mode_exec0, s);
      if me_filteredModes l \<noteq> [] then handleMode q p (me_filteredModes l) (me_filteredParams l) s else Some s })
    (\<lambda>t. rooms t = on_room n (\<lambda>r. Some (room_mode p (directory s) modes ps r)) (rooms s))"
proof -
  let ?xs = "mode_changes 3 True modes ps"
  let ?flags = "filter (\<lambda>x. \<not> is_op x) ?xs"
  have "mode_inv s q (mode_exec0, s)" using keeps_refl [OF s] q(2) by simp
  then have "returns (each (mode_exec_step q p tn ps) modes (mode_exec0, s)) (mode_inv s q)"
    by (rule returns_each) (use mode_exec_step_inv [OF _ p] in blast)
  then obtain l t where loop: "each (mode_exec_step q p tn ps) modes (mode_exec0, s) = Some (l, t)" "keeps s t"
      "mode_effect p ps q ch modes (mode_exec0, s) (l, t)"
    using mode_loop_rooms [OF s q(2) p, of tn ps modes mode_exec0] by (auto simp: returns_def)
  obtain out ch' ys where t: "t = post out (set_channel q ch' s)" "ch_name ch' = ch_name ch"
      "pending ps mode_exec0 modes = ys @ pending ps l []" "list_all flag_change (filter (\<lambda>x. \<not> is_op x) ys)"
      "collects (filter (\<lambda>x. \<not> is_op x) ys) mode_exec0 l" "room_of ch' = fold (change_op p (directory s)) (filter is_op ys) (room_of ch)"
    using loop(3) by (simp add: mode_effect_def) (metis append_Nil2)
  have ys: "ys = ?xs" using t(3) by (simp add: pending_def mode_exec0_def)
  have filtered: "me_filteredModes l = mode_text NUL ?flags" "me_filteredParams l = mode_args ?flags"
    using t(5) by (simp_all add: collects_def mode_exec0_def ys)
  have st: "sound t" using loop(2) by (simp add: keeps_but_def)
  have qt: "findChannel n t = Some q" "hp_channel t q = Some ch'" using q by (simp_all add: t(1) findChannel_def)
  obtain c' where c': "hp_client t p = Some c'" using keeps_client [OF loop(2) p] by blast
  have nm: "toLower n = toLower (ch_name ch)" using q findChannel_spec [OF soundD(3) [OF s], of n q] by auto
  have R: "rooms t = (rooms s)(toLower n \<mapsto> room_of ch')" using rooms_set_channel [OF soundD(3) [OF s] q(2) nm] by (simp add: t(1))
  have "room_mode p (directory s) modes ps (room_of ch) =
      (if p \<in> set (ch_operators ch') then fold change_flag ?flags (room_of ch') else room_of ch')"
    using op modes t(6) unfolding ys room_mode_def Let_def by (simp only: room_of_fields) (metis room_of_fields(6))
  moreover have "do { (l, s) \<leftarrow> each (mode_exec_step q p tn ps) modes (mode_exec0, s);
      if me_filteredModes l \<noteq> [] then handleMode q p (me_filteredModes l) (me_filteredParams l) s else Some s } =
      (if mode_text NUL ?flags \<noteq> [] then handleMode q p (mode_text NUL ?flags) (mode_args ?flags) t else Some t)"
    by (simp add: loop(1) filtered)
  moreover have "list_all flag_change ?flags" using t(4) ys by simp
  ultimately show ?thesis
    using mode_flags_rooms [OF st qt c', of ?flags] by (simp only: on_room_found [OF q] R fun_upd_upd)
qed

lemma Mode_rooms:
  assumes s: "sound s" and p: "hp_client s p = Some c"
  shows "returns (Mode_execute now p msg s) (\<lambda>t. rooms t = room_command Mode p (directory s) (m_parameter msg) (rooms s))"
proof (cases "m_parameter msg")
  case Nil
  then show ?thesis using p by (simp add: Mode_execute_def heap_simps)
next
  case (Cons n rest)
  show ?thesis
  proof (rule channel_cases [OF s, of n])
    assume "findChannel n s = None"
    then have "rooms t = rooms s \<Longrightarrow> rooms t = room_command Mode p (directory s) (m_parameter msg) (rooms s)" for t
      using Cons by (cases rest) (simp_all add: on_room_absent)
    then show ?thesis using Cons p \<open>findChannel n s = None\<close> by (simp add: Mode_execute_def Let_def heap_simps)
  next
    fix q ch assume q: "findChannel n s = Some q" "hp_channel s q = Some ch" and nm: "toLower n = toLower (ch_name ch)"
    have "isValidChannelName (ch_name ch)" using good_channelD(1) [OF soundD(1) [OF s] q(2)] by (simp add: ok_channel_def)
    then have hd: "n \<noteq> []" "hd n = CHR ''#'' \<or> hd n = CHR ''&''" using channel_prefix [OF nm] by blast+
    show ?thesis
    proof (cases rest)
      case Nil
      then show ?thesis using Cons p q hd handleMode_eq [OF soundD(3) [OF s] q(2) p, of "[]" "[]"] by (simp add: Mode_execute_def Let_def)
    next
      case (Cons modes ps)
      note par = \<open>m_parameter msg = n # rest\<close> Cons
      let ?spec = "on_room n (\<lambda>r. Some (room_mode p (directory s) modes ps r)) (rooms s)"
      have stay: "?spec = rooms s" if "p \<notin> set (ch_operators ch) \<or> modes = [] \<or> hd modes \<notin> {CHR ''+'', CHR ''-''}"
        by (rule on_room_same [OF q]) (use that in \<open>auto simp: room_mode_def\<close>)
      show ?thesis
      proof (cases "p \<in> set (ch_operators ch) \<and> modes \<noteq> [] \<and> hd modes \<in> {CHR ''+'', CHR ''-''}")
        case True
        then show ?thesis
          using mode_rooms [OF s q p, of modes "if cl_is_registered c then cl_nickname c else ''*''" ps] par p q hd
          by (simp add: Mode_execute_def Let_def del: returns_bind) blast
      next
        case False
        then have "?spec = rooms s" using stay by blast
        then show ?thesis using False par p q hd handleMode_eq [OF soundD(3) [OF s] q(2) p, of "[]" ps]
          by (auto simp: Mode_execute_def Let_def heap_simps)
      qed
    qed
  qed
qed

section \<open>The commands\<close>

lemma part_step_rooms:
  assumes s: "sound s" and p: "hp_client s p = Some c" and q: "hp_channel s (snd it) = Some ch" "ch_name ch = fst it"
  shows "returns (part_step p it s) (\<lambda>t. rooms t = on_room (fst it) (departed p) (rooms s))"
proof -
  have "findChannel (fst it) s = Some (snd it)" using q findChannel_spec [OF soundD(3) [OF s]] by simp
  from part_rooms [OF s this q(1) p, of "[]"] show ?thesis by (simp add: part_step_def prune_def)
qed

lemma part_all_rooms:
  assumes "sound s" "hp_client s p = Some c" "\<forall>it \<in> set es. \<exists>ch. hp_channel s (snd it) = Some ch \<and> ch_name ch = fst it" "distinct (map snd es)"
  shows "returns (each (part_step p) es s) (\<lambda>t. rooms t = fold (\<lambda>it. on_room (fst it) (departed p)) es (rooms s))"
  using assms
proof (induction es arbitrary: s c)
  case (Cons it es)
  obtain ch where q: "hp_channel s (snd it) = Some ch" "ch_name ch = fst it" using Cons.prems(3) by auto
  have step: "returns (part_step p it s) (\<lambda>u. (keeps s u \<and> (\<forall>q'. q' \<noteq> snd it \<longrightarrow> hp_channel u q' = hp_channel s q')) \<and>
      rooms u = on_room (fst it) (departed p) (rooms s))"
    by (rule returns_conj [OF part_step_keeps [OF Cons.prems(1,2) q] part_step_rooms [OF Cons.prems(1,2) q]])
  have "returns (each (part_step p) es u) (\<lambda>t. rooms t = fold (\<lambda>it. on_room (fst it) (departed p)) es (rooms u))"
    if u: "keeps s u" "\<forall>q'. q' \<noteq> snd it \<longrightarrow> hp_channel u q' = hp_channel s q'" for u
  proof -
    have ne: "snd x \<noteq> snd it" if "x \<in> set es" for x
      using Cons.prems(4) that by (metis distinct.simps(2) image_eqI list.set_map list.simps(9))
    obtain c' where "hp_client u p = Some c'" using keeps_client [OF u(1) Cons.prems(2)] by blast
    then show ?thesis using Cons.prems(3,4) u ne by (intro Cons.IH) (auto simp: keeps_but_def)
  qed
  then show ?case unfolding each.simps returns_bind fold.simps comp_apply by (intro returns_mono [OF step]) metis
qed simp

lemma departed_out: "departed p r = Some r' \<Longrightarrow> p \<notin> rm_members r'"
  by (cases "p \<in> rm_members r"; cases "rm_members r = {p}") (auto simp: departed_def)

lemma departed_twice: "departed p r = Some r' \<Longrightarrow> departed p r' = Some r'"
  by (drule departed_out) (simp add: departed_def)

lemma fold_departed:
  "fold (\<lambda>it. on_room (fst it) (departed p)) es R k =
     (if k \<in> toLower ` fst ` set es then Option.bind (R k) (departed p) else R k)"
proof (induction es arbitrary: R)
  case (Cons it es)
  have "Option.bind (Option.bind (R k) (departed p)) (departed p) = Option.bind (R k) (departed p)"
    by (cases "Option.bind (R k) (departed p)") (auto simp: bind_eq_Some_conv departed_twice)
  then show ?case using Cons by (simp add: on_room_def) (metis (no_types, lifting))
qed simp

lemma leave_all_rooms:
  assumes s: "sound s" and p: "hp_client s p = Some c"
  shows "returns (each (part_step p) (cl_joinedChannels c) s) (\<lambda>t. rooms t = evacuate p (rooms s))"
proof -
  note j = joined_entries [OF soundD(3) [OF s] p]
  have "Option.bind (rooms s k) (departed p) = rooms s k" if k: "k \<notin> toLower ` fst ` set (cl_joinedChannels c)" for k
  proof (cases "map_of (sv_channels s) k")
    case (Some q)
    then obtain ch where ch: "hp_channel s q = Some ch" "toLower (ch_name ch) = k"
      using channel_key [OF wfD(2) [OF soundD(3) [OF s]]] by blast
    have "p \<notin> set (ch_members ch)"
    proof
      assume "p \<in> set (ch_members ch)"
      then have "map_of (cl_joinedChannels c) (ch_name ch) = Some q"
        using inv_joinedD(2) [OF wfD(4) [OF soundD(3) [OF s]] p] ch by (simp add: in_channel_iff)
      then have "ch_name ch \<in> fst ` set (cl_joinedChannels c)" by (metis image_eqI map_of_SomeD fst_conv)
      then show False using k ch(2) by blast
    qed
    then show ?thesis using Some ch by (simp add: rooms_def departed_def)
  qed (simp add: rooms_def)
  then have "fold (\<lambda>it. on_room (fst it) (departed p)) (cl_joinedChannels c) (rooms s) = evacuate p (rooms s)"
    by (auto simp: fun_eq_iff fold_departed evacuate_def)
  then show ?thesis using part_all_rooms [OF s p _ j(2)] j(1) by auto
qed

lemma Join_rooms:
  assumes s: "sound s" and p: "hp_client s p = Some c"
  shows "returns (Join_execute now p msg s) (\<lambda>t. rooms t = room_command Join p (directory s) (m_parameter msg) (rooms s))"
proof (cases "m_parameter msg")
  case Nil
  then show ?thesis using p by (simp add: Join_execute_def heap_simps)
next
  case (Cons n rest)
  let ?key = "case rest of [] \<Rightarrow> [] | key # _ \<Rightarrow> key"
  have key: "(if length (m_parameter msg) > 1 then m_parameter msg ! 1 else []) = ?key" using Cons by (cases rest) simp_all
  have join: "returns (case findOrCreateChannel n s of (q, t) \<Rightarrow> handleJoin q p ?key t) (\<lambda>t. rooms t = room_join p n ?key (rooms s))"
    if "isValidChannelName n"
  proof (rule channel_cases [OF s, of n])
    assume new: "findChannel n s = None"
    then show ?thesis using found_rooms [OF s new that p, of ?key] by (simp add: findOrCreateChannel_eq)
  next
    fix q ch assume q: "findChannel n s = Some q" "hp_channel s q = Some ch"
    then show ?thesis using join_rooms [OF s q p, of ?key] by (simp add: findOrCreateChannel_eq)
  qed
  have "Join_execute now p msg s = (if n = ''0'' then each (part_step p) (cl_joinedChannels c) s
      else if \<not> isValidChannelName n then reply p (makeReply ERR_BADCHANMASK (if cl_is_registered c then cl_nickname c else ''*'') (n @ '' :Bad Channel Mask'')) s
      else case findOrCreateChannel n s of (q, t) \<Rightarrow> handleJoin q p ?key t)"
    unfolding Join_execute_def Let_def key using p Cons by simp
  then show ?thesis using Cons join leave_all_rooms [OF s p] p by (simp add: heap_simps)
qed

text \<open>The commands that do not concern the channels\<close>

lemma on_client_rooms: "on_client p f s = Some t \<Longrightarrow> rooms t = rooms s"
  by (auto simp: on_client_def bind_eq_Some_conv)

lemma notify_rooms:
  "notify_members m ms notified s = Some (n, t) \<Longrightarrow> rooms t = rooms s"
  "notify_channels m js notified s = Some (n, t) \<Longrightarrow> rooms t = rooms s"
proof -
  show members: "notify_members m ms notified s = Some (n, t) \<Longrightarrow> rooms t = rooms s" for ms notified n s t
    by (induction ms arbitrary: notified s)
      (auto simp: bind_eq_Some_conv Let_def dest!: on_client_rooms split: if_splits prod.splits)
  show "notify_channels m js notified s = Some (n, t) \<Longrightarrow> rooms t = rooms s"
    by (induction js arbitrary: notified s) (auto simp: bind_eq_Some_conv dest!: members)
qed

lemma broadcast_rooms: "broadcastNickChange p m s = Some t \<Longrightarrow> rooms t = rooms s"
  by (auto simp: broadcastNickChange_def bind_eq_Some_conv dest!: on_client_rooms notify_rooms)

lemma disconnectClient_rooms: "disconnectClient now p r s = Some t \<Longrightarrow> rooms t = rooms s"
  by (auto simp: disconnectClient_def disconnectAfterFlush_def bind_eq_Some_conv Let_def dest!: on_client_rooms)

lemmas quiet_rooms = on_client_rooms broadcast_rooms disconnectClient_rooms

definition calm :: "server \<Rightarrow> server option \<Rightarrow> bool" where
  "calm s m \<longleftrightarrow> (\<forall>t. m = Some t \<longrightarrow> rooms t = rooms s)"

lemma calm_step:
  "rooms u = rooms s \<Longrightarrow> calm s (on_client p f u)" "rooms u = rooms s \<Longrightarrow> calm s (broadcastNickChange p r u)"
  "rooms u = rooms s \<Longrightarrow> calm s (disconnectClient now p r u)"
  unfolding calm_def by (metis on_client_rooms, metis broadcast_rooms, metis disconnectClient_rooms)

lemma calm_bind:
  assumes "rooms u = rooms s" and k: "\<And>t. rooms t = rooms s \<Longrightarrow> calm s (k t)"
  shows "calm s (Option.bind (on_client p f u) k)"
proof (cases "on_client p f u")
  case (Some t)
  have "calm s (k t)" by (rule k) (simp only: on_client_rooms [OF Some] assms(1))
  then show ?thesis by (simp add: Some)
qed (simp add: calm_def)

lemma calm_if: "(b \<Longrightarrow> calm s m) \<Longrightarrow> (\<not> b \<Longrightarrow> calm s m') \<Longrightarrow> calm s (if b then m else m')"
  by simp

lemma calm_read: "(\<And>c. calm s (k c)) \<Longrightarrow> calm s (Option.bind (hp_client u p) k)"
  "(\<And>b. calm s (k' b)) \<Longrightarrow> calm s (Option.bind (isNicknameTaken n p u) k')"
  by (auto simp: calm_def bind_eq_Some_conv)

lemma calm_same: "rooms t = rooms s \<Longrightarrow> calm s (Some t)"
  by (simp add: calm_def)

lemmas calms = calm_if calm_read calm_bind calm_same calm_step

lemma registration_rooms:
  "calm s (Nick_execute now p msg s)" "calm s (Pass_execute now p msg s)" "calm s (User_execute now p msg s)"
  "calm s (Ping_execute now p msg s)" "calm s (Pong_execute now p msg s)" "calm s (Quit_execute now p msg s)"
  unfolding Nick_execute_def Pass_execute_def User_execute_def Ping_execute_def Pong_execute_def Quit_execute_def reply_def Let_def
  by ((rule calms | assumption | rule refl)+)

lemma Privmsg_rooms:
  assumes s: "sound s" and p: "hp_client s p = Some c"
  shows "returns (Privmsg_execute now p msg s) (\<lambda>t. rooms t = rooms s)"
proof (rule find_cases [OF s, of "m_parameter msg ! 0"]; rule channel_cases [OF s, of "m_parameter msg ! 0"])
qed (use p handleChannelPrivmsg_eq [OF soundD(3) [OF s] _ p] in
     \<open>simp_all add: Privmsg_execute_def handlePersonalPrivmsg_def Let_def heap_simps\<close>)

lemma Topic_rooms:
  assumes s: "sound s" and p: "hp_client s p = Some c"
  shows "returns (Topic_execute now p msg s) (\<lambda>t. rooms t = room_command Topic p (directory s) (m_parameter msg) (rooms s))"
proof (cases "m_parameter msg")
  case Nil
  then show ?thesis using p by (simp add: Topic_execute_def heap_simps)
next
  case (Cons n rest)
  show ?thesis
    by (rule channel_cases [OF s, of n]; cases rest)
      (use p Cons topic_rooms [OF s _ _ p] on_room_absent in \<open>simp_all add: Topic_execute_def Let_def heap_simps\<close>)
qed

lemma Part_rooms:
  assumes s: "sound s" and p: "hp_client s p = Some c"
  shows "returns (Part_execute now p msg s) (\<lambda>t. rooms t = room_command Part p (directory s) (m_parameter msg) (rooms s))"
proof (cases "m_parameter msg")
  case Nil
  then show ?thesis using p by (simp add: Part_execute_def heap_simps)
next
  case (Cons n rest)
  show ?thesis
  proof (rule channel_cases [OF s, of n])
    fix q ch assume q: "findChannel n s = Some q" "hp_channel s q = Some ch"
    then have "\<exists>m. Part_execute now p msg s = Option.bind (handlePart q p m s) (prune q n)"
      using p Cons by (simp add: Part_execute_def Let_def prune_def [abs_def] cong: if_cong) blast
    then obtain m where m: "Part_execute now p msg s = Option.bind (handlePart q p m s) (prune q n)" by blast
    show ?thesis unfolding m using part_rooms [OF s q p, of m] Cons by (simp del: returns_bind)
  qed (use p Cons on_room_absent in \<open>simp add: Part_execute_def heap_simps\<close>)
qed

lemma Invite_rooms:
  assumes s: "sound s" and p: "hp_client s p = Some c"
  shows "returns (Invite_execute now p msg s) (\<lambda>t. rooms t = room_command Invite p (directory s) (m_parameter msg) (rooms s))"
proof (cases "length (m_parameter msg) < 2")
  case True
  then have "room_command Invite p (directory s) (m_parameter msg) (rooms s) = rooms s"
    by (cases "m_parameter msg"; cases "tl (m_parameter msg)") simp_all
  then show ?thesis using True p by (simp add: Invite_execute_def heap_simps)
next
  case False
  then obtain nick n rest where par: "m_parameter msg = nick # n # rest"
    by (cases "m_parameter msg"; cases "tl (m_parameter msg)") auto
  show ?thesis
    by (rule find_cases [OF s, of nick]; rule channel_cases [OF s, of n])
      (use p par invite_rooms [OF s _ _ p] on_room_absent in
        \<open>simp_all add: Invite_execute_def Let_def heap_simps directory_def\<close>)
qed

lemma Kick_rooms:
  assumes s: "sound s" and p: "hp_client s p = Some c"
  shows "returns (Kick_execute now p msg s) (\<lambda>t. rooms t = room_command Kick p (directory s) (m_parameter msg) (rooms s))"
proof (cases "length (m_parameter msg) < 2")
  case True
  then have "room_command Kick p (directory s) (m_parameter msg) (rooms s) = rooms s"
    by (cases "m_parameter msg"; cases "tl (m_parameter msg)") simp_all
  then show ?thesis using True p by (simp add: Kick_execute_def heap_simps)
next
  case False
  then obtain n nick rest where par: "m_parameter msg = n # nick # rest"
    by (cases "m_parameter msg"; cases "tl (m_parameter msg)") auto
  have none: "on_room n (room_kick p None) (rooms s) = rooms s"
    by (cases "rooms s (toLower n)") (auto simp: on_room_def room_kick_def)
  show ?thesis
  proof (rule channel_cases [OF s, of n])
    fix q ch assume q: "findChannel n s = Some q" "hp_channel s q = Some ch"
    show ?thesis
    proof (rule find_cases [OF s, of nick])
      fix r d assume r: "findClientByNickname nick s = Some (Some r)" "hp_client s r = Some d"
      then have "\<exists>m. Kick_execute now p msg s = Option.bind (handleKick q p r m s) (prune q n)"
        using p par q by (simp add: Kick_execute_def Let_def prune_def [abs_def] cong: if_cong) blast
      then obtain m where m: "Kick_execute now p msg s = Option.bind (handleKick q p r m s) (prune q n)" by blast
      show ?thesis unfolding m using kick_rooms [OF s q p r(2), of m] par r(1) by (simp add: directory_def del: returns_bind)
    qed (use p par q none in \<open>simp add: Kick_execute_def directory_def Let_def heap_simps\<close>)
  qed (use p par on_room_absent in \<open>simp add: Kick_execute_def heap_simps\<close>)
qed

lemma execute_rooms:
  assumes s: "sound s" and p: "hp_client s p = Some c" and login: "needLogin k \<Longrightarrow> cl_is_registered c"
  shows "returns (execute k now p msg s) (\<lambda>t. rooms t = room_command k p (directory s) (m_parameter msg) (rooms s))"
proof -
  obtain t where "execute k now p msg s = Some t"
    using cmd.execute_keeps [OF s p, of k now msg] login by (auto simp: returns_def)
  then have calm: "calm s (execute k now p msg s) \<Longrightarrow> returns (execute k now p msg s) (\<lambda>t. rooms t = rooms s)"
    by (simp add: calm_def)
  show ?thesis
    using Mode_rooms [OF s p] Join_rooms [OF s p] Topic_rooms [OF s p] Part_rooms [OF s p] Invite_rooms [OF s p]
      Kick_rooms [OF s p] Privmsg_rooms [OF s p] calm
    by (cases k) (simp_all add: registration_rooms)
qed

end
