(* ===== verification/Irc_Room_Steps.thy ===== *)
theory Irc_Room_Steps
  imports Irc_Room_Commands Irc_Safety
begin

text \<open>
  Disconnections and authority. A disconnection is a \<open>room_quit\<close>, and the other operations of the server leave the rooms
  as they are. What a command may change in a room is bounded by the command, its parameters and the standing of the client that sends it.
\<close>

section \<open>Disconnection\<close>

lemma rooms_iff:
  assumes "wf s"
  shows "rooms s k = Some r \<longleftrightarrow> (\<exists>q ch. hp_channel s q = Some ch \<and> toLower (ch_name ch) = k \<and> r = room_of ch)"
  using channel_key [OF wfD(2) [OF assms], of k] by (auto simp: rooms_def bind_eq_Some_conv) blast+

lemma quit_room:
  assumes "lists_ok ch" "ch_members ch \<noteq> []"
  shows "map_option (\<lambda>r. r\<lparr>rm_invited := rm_invited r - {p}\<rparr>) (departed p (room_of ch)) =
    (if ch_members ch = [p] then None else Some (room_of (removeMemberfromInvitedUsers p (left_channel p ch))))"
proof -
  have one: "set (ch_members ch) = {p} \<longleftrightarrow> ch_members ch = [p]"
    using assms by (cases "ch_members ch"; cases "tl (ch_members ch)") (auto simp: lists_ok_def)
  have "set (ch_operators ch) \<subseteq> set (ch_members ch)" using assms(1) by (simp add: lists_ok_def)
  then show ?thesis
    using one by (auto simp: departed_def room_of_def removeMemberfromInvitedUsers_def left_channel_def)
qed

lemma gone_rooms:
  assumes s: "sound s" and t: "good t" "gone p fd notice s t"
  shows "rooms t = room_quit p (rooms s)"
proof
  fix k
  have step: "rooms t k = Some r \<longleftrightarrow> room_quit p (rooms s) k = Some r" for r
  proof -
    have q: "map_option (\<lambda>r. r\<lparr>rm_invited := rm_invited r - {p}\<rparr>) (departed p (room_of ch)) =
        (if lonely p s q then None else Some (room_of (removeMemberfromInvitedUsers p (left_channel p ch))))"
      if "hp_channel s q = Some ch" for q ch
      using quit_room [OF good_channelD(2) [OF soundD(1) [OF s] that] populated_member [OF soundD(2) [OF s] that]] that
      by (simp add: lonely_def)
    have "rooms t k = Some r \<longleftrightarrow> (\<exists>q ch. hp_channel s q = Some ch \<and> \<not> lonely p s q \<and> toLower (ch_name ch) = k \<and>
        r = room_of (removeMemberfromInvitedUsers p (left_channel p ch)))"
    proof -
      let ?f = "\<lambda>ch. removeMemberfromInvitedUsers p (left_channel p ch)"
      have "hp_channel t q = Some ch' \<longleftrightarrow> (\<exists>ch. hp_channel s q = Some ch \<and> \<not> lonely p s q \<and> ch' = ?f ch)" for q ch'
        using t(2) by (cases "hp_channel s q") (auto simp: gone_def surviving_channels_def)
      moreover have "ch_name (?f ch) = ch_name ch" for ch by (simp add: removeMemberfromInvitedUsers_def left_channel_def)
      ultimately show ?thesis unfolding rooms_iff [OF goodD(1) [OF t(1)]] by (metis (no_types, lifting))
    qed
    also have "\<dots> \<longleftrightarrow> room_quit p (rooms s) k = Some r"
    proof (cases "rooms s k")
      case None
      then have "hp_channel s q = Some ch \<Longrightarrow> toLower (ch_name ch) \<noteq> k" for q ch
        using rooms_iff [OF soundD(3) [OF s], of k "room_of ch"] by auto
      then show ?thesis using None by (auto simp: room_quit_def evacuate_def)
    next
      case (Some r0)
      then obtain q ch where ch: "hp_channel s q = Some ch" "toLower (ch_name ch) = k" "r0 = room_of ch"
        using rooms_iff [OF soundD(3) [OF s]] by blast
      have uniq: "q' = q" if "hp_channel s q' = Some ch'" "toLower (ch_name ch') = k" for q' ch'
        using channel_unique [OF wfD(2) [OF soundD(3) [OF s]] that(1) ch(1)] that(2) ch(2) by simp
      have "room_quit p (rooms s) k = (if lonely p s q then None else Some (room_of (removeMemberfromInvitedUsers p (left_channel p ch))))"
        using Some ch(3) q [OF ch(1)] by (simp add: room_quit_def evacuate_def)
      then show ?thesis using ch(1,2) uniq by (metis (no_types, lifting) option.distinct(1) option.inject)
    qed
    finally show ?thesis .
  qed
  show "rooms t k = room_quit p (rooms s) k" using step by (metis not_None_eq)
qed

section \<open>What leaves all rooms as they are\<close>

lemma rooms_mark [simp]: "rooms (markForDisconnection fd r s) = rooms s"
  by (simp add: rooms_def fun_eq_iff markForDisconnection_def)

lemma sendData_rooms: "sendData fd sent s = Some t \<Longrightarrow> rooms t = rooms s"
  by (auto simp: sendData_def bind_eq_Some_conv Let_def dest!: on_client_rooms split: option.splits if_splits)

lemma listen_rooms: "listen_events ev s = Some t \<Longrightarrow> rooms t = rooms s"
  by (auto simp: listen_eq rooms_def fun_eq_iff split: if_splits)

lemma accept_rooms: "acceptNewClient now e s = Some t \<Longrightarrow> rooms t = rooms s"
  by (auto simp: acceptNewClient_def new_client_def accept_rollback_def delete_client_def on_client_def set_client_def
      rooms_def fun_eq_iff Let_def dest!: listen_rooms split: if_splits)

lemma refresh_rooms: "refresh_loop es s = Some (es', t) \<Longrightarrow> rooms (t\<lparr>sv_poll_fds := fds\<rparr>) = rooms s"
proof -
  assume "refresh_loop es s = Some (es', t)"
  then have "rooms t = rooms s"
    by (induction es arbitrary: s es') (auto simp: bind_eq_Some_conv split: if_splits option.splits)
  then show ?thesis by (simp add: rooms_def fun_eq_iff)
qed

lemma idle_rooms: "idle_first n now s = Some t \<Longrightarrow> rooms t = rooms s"
proof -
  have step: "rooms u = rooms s" if "idle_step now it s = Some u" for it s u
    using that unfolding idle_step_def Let_def
    by (auto simp: bind_eq_Some_conv disconnectClient_def [symmetric] dest!: on_client_rooms disconnectClient_rooms split: option.splits if_splits)
  have "rooms u = rooms s" if "each (idle_step now) es s = Some u" for es s u
    using that by (induction es arbitrary: s) (auto simp: bind_eq_Some_conv dest!: step)
  then show "idle_first n now s = Some t \<Longrightarrow> rooms t = rooms s" by (simp add: idle_first_def)
qed

section \<open>Authority\<close>

text \<open>The key a JOIN gives, and the commands by which a client gives up its own membership\<close>

definition given_key :: "string list \<Rightarrow> string" where
  "given_key ps = (case tl ps of [] \<Rightarrow> [] | key # _ \<Rightarrow> key)"

definition resigns :: "command \<Rightarrow> string list \<Rightarrow> bool" where
  "resigns c ps \<longleftrightarrow> c = Part \<or> c = Join \<and> hd ps = ''0''"

text \<open>
  What the client \<open>p\<close> may make of a room by the command \<open>c\<close> with the parameters \<open>ps\<close>: only \<open>p\<close> itself enters, by a JOIN whose
  key, invitation and the limit admit it; nobody else leaves unless \<open>p\<close> is an operator and kicks; operators and modes change by the MODE of an
  operator; the topic by the TOPIC of a member, and of an operator where it is restricted; an invitation is
  given by the INVITE of a member, and of an operator where the room is invite-only, and used up by the invited client that enters.
\<close>

definition authorised :: "command \<Rightarrow> string list \<Rightarrow> cptr \<Rightarrow> room \<Rightarrow> room option \<Rightarrow> bool" where
  "authorised c ps p r r' \<longleftrightarrow>
     (case r' of
        None \<Rightarrow> rm_members r = {p} \<and> (resigns c ps \<or> c = Kick \<and> p \<in> rm_operators r)
      | Some r' \<Rightarrow>
          (\<forall>x \<in> rm_members r' - rm_members r. c = Join \<and> x = p \<and> admits r p (given_key ps)) \<and>
          (\<forall>x \<in> rm_members r - rm_members r'. resigns c ps \<and> x = p \<or> c = Kick \<and> p \<in> rm_operators r) \<and>
          (\<forall>x \<in> rm_operators r' - rm_operators r. c = Mode \<and> p \<in> rm_operators r) \<and>
          (\<forall>x \<in> rm_operators r - rm_operators r'. x \<notin> rm_members r' \<or> c = Mode \<and> p \<in> rm_operators r) \<and>
          (rm_key r' = rm_key r \<and> rm_limit r' = rm_limit r \<and> rm_inviteOnly r' = rm_inviteOnly r \<and>
             rm_topicByOps r' = rm_topicByOps r \<or> c = Mode \<and> p \<in> rm_operators r) \<and>
          (rm_topic r' = rm_topic r \<or> c = Topic \<and> p \<in> rm_members r \<and> (rm_topicByOps r \<longrightarrow> p \<in> rm_operators r)) \<and>
          (\<forall>x \<in> rm_invited r' - rm_invited r. c = Invite \<and> p \<in> rm_members r \<and> (rm_inviteOnly r \<longrightarrow> p \<in> rm_operators r) \<and>
             x \<notin> rm_members r) \<and>
          (\<forall>x \<in> rm_invited r - rm_invited r'. c = Join \<and> x = p \<and> p \<in> rm_members r' - rm_members r) \<and>
          rm_name r' = rm_name r)"

lemma authorised_same [simp]: "authorised c ps p r (Some r)"
  by (simp add: authorised_def)

lemma authorised_departed:
  "resigns c ps \<Longrightarrow> authorised c ps p r (departed p r)"
  "rm_operators r \<subseteq> rm_members r \<Longrightarrow> p \<in> rm_operators r \<Longrightarrow> authorised Kick ps p r (departed t r)"
  by (auto simp: departed_def authorised_def)

lemma authorised_entered: "admits r p (given_key ps) \<Longrightarrow> p \<notin> rm_members r \<Longrightarrow> authorised Join ps p r (Some (entered p r))"
  by (auto simp: entered_def authorised_def)

lemma authorised_invite: "authorised Invite ps p r (room_invite p t r)"
  by (auto simp: room_invite_def authorised_def)

lemma authorised_topic: "authorised Topic ps p r (room_topic p topic r)"
  by (simp add: room_topic_def authorised_def)

lemma authorised_kick: "rm_operators r \<subseteq> rm_members r \<Longrightarrow> authorised Kick ps p r (room_kick p t r)"
  using authorised_departed(2) by (simp add: room_kick_def split: option.split)

lemma fold_change_op:
  "rm_members (fold (change_op p who) xs r) = rm_members r \<and> rm_topic (fold (change_op p who) xs r) = rm_topic r \<and>
   rm_name (fold (change_op p who) xs r) = rm_name r \<and> rm_invited (fold (change_op p who) xs r) = rm_invited r"
  by (induction xs arbitrary: r) (auto simp: change_op_def split: prod.splits option.splits)

lemma fold_change_flag:
  "rm_members (fold change_flag xs r) = rm_members r \<and> rm_topic (fold change_flag xs r) = rm_topic r \<and>
   rm_name (fold change_flag xs r) = rm_name r \<and> rm_operators (fold change_flag xs r) = rm_operators r \<and>
   rm_invited (fold change_flag xs r) = rm_invited r"
proof (induction xs arbitrary: r)
  case (Cons x xs)
  have "rm_members (change_flag x r) = rm_members r \<and> rm_topic (change_flag x r) = rm_topic r \<and>
      rm_name (change_flag x r) = rm_name r \<and> rm_operators (change_flag x r) = rm_operators r \<and> rm_invited (change_flag x r) = rm_invited r"
    by (simp add: change_flag_def split: prod.split option.split)
  then show ?case using Cons by simp
qed simp

lemma authorised_mode: "authorised Mode ps p r (Some (room_mode p who modes args r))"
proof (cases "p \<in> rm_operators r")
  case True
  then show ?thesis using fold_change_op [of p who] fold_change_flag by (simp add: authorised_def room_mode_def Let_def)
qed (simp add: room_mode_def)

lemma authorised_join: "R k = Some r \<Longrightarrow> authorised Join (n # ps) p r (room_join p n (case ps of [] \<Rightarrow> [] | key # _ \<Rightarrow> key) R k)"
  by (auto simp: room_join_def given_key_def intro!: authorised_entered split: option.splits)

lemma authorised_on_room: "R k = Some r \<Longrightarrow> authorised c ps p r (f r) \<Longrightarrow> authorised c ps p r (on_room n f R k)"
  by (auto simp: on_room_def)

lemma command_authorised:
  assumes r: "R k = Some r" "rm_operators r \<subseteq> rm_members r"
  shows "authorised c ps p r (room_command c p who ps R k)"
proof -
  have "authorised Join (''0'' # ps) p r (departed p r)" "authorised Part ps p r (departed p r)" for ps
    by (auto simp: resigns_def intro: authorised_departed)
  then show ?thesis
    using r
    by (cases "(c, p, who, ps, R)" rule: room_command.cases)
      (auto simp: evacuate_def authorised_mode authorised_topic authorised_kick authorised_invite authorised_join
        intro!: authorised_on_room split: option.splits)
qed

lemma rooms_operators:
  assumes "sound s" "rooms s k = Some r"
  shows "rm_operators r \<subseteq> rm_members r"
proof -
  obtain q ch where "hp_channel s q = Some ch" "r = room_of ch" using assms rooms_iff [OF soundD(3) [OF assms(1)]] by blast
  then show ?thesis using good_channelD(2) [OF soundD(1) [OF assms(1)]] by (simp add: lists_ok_def room_of_def)
qed

lemma command_founds:
  assumes "R k = None"
  shows "room_command c p who ps R k = None \<or> (\<exists>n. c = Join \<and> toLower n = k \<and> isValidChannelName n \<and> room_command c p who ps R k = Some (founded p n))"
  using assms
  by (cases "(c, p, who, ps, R)" rule: room_command.cases)
    (auto simp: on_room_def evacuate_def room_join_def split: option.splits)

end
