(* ===== verification/Irc_Output.thy ===== *)
theory Irc_Output
  imports Irc_Safety
begin

text \<open>
  What an iteration of the event loop does to one client. A client that is not removed keeps its descriptor and the time
  of its connection, and its output buffer is a queue of whole lines: the loop appends lines at the end, and only
  \<open>sendData\<close> on its own entry of the poll set takes bytes, from the front. The invariant \<open>kept\<close> is an interpretation of
  the locale \<open>turn\<close> for the entries of other clients and of \<open>receiving\<close> for its own.
\<close>

section \<open>What a client keeps\<close>

definition kept :: "cptr \<Rightarrow> client \<Rightarrow> server \<Rightarrow> bool" where
  "kept p c s \<longleftrightarrow> (\<exists>c'. hp_client s p = Some c' \<and> tied c c')"

lemma keptI: "hp_client s p = Some c' \<Longrightarrow> tied c c' \<Longrightarrow> kept p c s"
  by (auto simp: kept_def)

lemma kept_self: "hp_client s p = Some c \<Longrightarrow> kept p c s"
  by (auto simp: kept_def)

lemma kept_step:
  assumes "kept p c s" "\<And>d. hp_client s p = Some d \<Longrightarrow> \<exists>d'. hp_client t p = Some d' \<and> tied d d'"
  shows "kept p c t"
proof -
  obtain d where d: "hp_client s p = Some d" "tied c d" using assms(1) by (auto simp: kept_def)
  then obtain d' where "hp_client t p = Some d'" "tied d d'" using assms(2) by blast
  then show ?thesis using d(2) tied_trans by (auto simp: kept_def)
qed

lemma kept_cong: "hp_client t p = hp_client s p \<Longrightarrow> kept p c t \<longleftrightarrow> kept p c s"
  by (simp add: kept_def)

lemma frame_tied: "frame_but V s t \<Longrightarrow> hp_client s p = Some c \<Longrightarrow> \<exists>c'. hp_client t p = Some c' \<and> tied c c'"
  using frameD(7) [of V s t p] by (cases "hp_client t p") auto

lemma operate_frame:
  assumes "sound u" "hp_client u q = Some c" "operate now q l u = Some (ok, v)"
  shows "frame_but (line_grants q l u) u v"
  using operate_keeps [OF assms(1,2), of now l] assms(3) by (simp add: keeps_but_def)

lemma input_only_tied: "input_only c c' \<Longrightarrow> tied c c'"
  by (auto simp: input_only_def tied_def)

lemma kept_set: "kept p c u \<Longrightarrow> hp_client u q = Some d \<Longrightarrow> tied d d' \<Longrightarrow> kept p c (set_client q d' u)"
  by (erule kept_step) auto

lemma kept_operate: "sound u \<Longrightarrow> kept p c u \<Longrightarrow> hp_client u q = Some d \<Longrightarrow> operate now q l u = Some (ok, v) \<Longrightarrow> kept p c v"
  using kept_step frame_tied operate_frame by meson

lemma kept_mark [simp]: "kept p c (markForDisconnection fd r u) \<longleftrightarrow> kept p c u"
  by (simp add: kept_def)

interpretation kept_receiving: receiving "kept p c" e fd for p c e fd
  by unfold_locales (auto intro: kept_set input_only_tied kept_operate)

text \<open>\<open>sendData\<close> takes what the socket accepted from the front of the output of one client.\<close>

lemma sendData_takes:
  assumes "sendData fd k u = Some v" "map_of (sv_clients u) fd = Some q" "hp_client u q = Some d"
  shows "hp_client v = (hp_client u)(q \<mapsto> d\<lparr>cl_write_buffer := drop (nat k) (cl_write_buffer d)\<rparr>)"
proof (cases "cl_write_buffer d = [] \<or> k < 0")
  case True
  then have "hp_client v = hp_client u" using assms by (auto simp: sendData_def split: if_splits)
  moreover have "drop (nat k) (cl_write_buffer d) = cl_write_buffer d" using True by auto
  ultimately show ?thesis using assms(3) by (simp add: map_upd_triv)
next
  case False
  then show ?thesis using assms by (auto simp: sendData_def heap_simps Let_def split: if_splits option.splits)
qed

lemma sendData_client:
  assumes "sendData fd k u = Some v" "map_of (sv_clients u) fd = Some q" "hp_client u q = Some d"
  shows "\<exists>n \<in> {0, nat k}. hp_client v = (hp_client u)(q \<mapsto> d\<lparr>cl_write_buffer := drop n (cl_write_buffer d)\<rparr>)"
  using sendData_takes [OF assms] by blast

lemma sendData_absent: "map_of (sv_clients u) fd = None \<Longrightarrow> sendData fd k u = Some u"
  by (simp add: sendData_def)

lemma owner:
  assumes "sound s" "hp_client s p = Some c"
  shows "map_of (sv_clients s) (cl_fd c) = Some p" and "map_of (sv_clients s) fd = Some p \<Longrightarrow> fd = cl_fd c"
proof -
  have "inv_clients s" by (rule wfD(1) [OF soundD(3) [OF assms(1)]])
  then have "map_of (sv_clients s) fd = Some p \<longleftrightarrow> (\<exists>c. hp_client s p = Some c \<and> cl_fd c = fd)" for fd
    by (simp add: inv_clients_def)
  then show "map_of (sv_clients s) (cl_fd c) = Some p" "map_of (sv_clients s) fd = Some p \<Longrightarrow> fd = cl_fd c"
    using assms(2) by auto
qed

lemma server_fd_apart: "sound s \<Longrightarrow> sv_server_fd s \<notin> fst ` set (sv_clients s)"
proof -
  assume s: "sound s"
  obtain e es where e: "sv_poll_fds s = e # es" "pf_fd e = sv_server_fd s" "pf_fd ` set es = fst ` set (sv_clients s)"
    "distinct (map pf_fd (e # es))" by (rule inv_pollE [OF goodD(7) [OF soundD(1) [OF s]]])
  from e(4) have "pf_fd e \<notin> pf_fd ` set es" by simp
  then show ?thesis unfolding e(2,3) .
qed

lemma client_fd_apart: "sound s \<Longrightarrow> hp_client s p = Some c \<Longrightarrow> cl_fd c \<noteq> sv_server_fd s"
  using owner(1) [of s p c] server_fd_apart [of s] by (metis domI dom_map_of_conv_image_fst)

lemma kept_sends:
  assumes "sound u" "kept p c u" "sendData fd k u = Some v" "fd \<noteq> cl_fd c"
  shows "kept p c v"
proof (cases "map_of (sv_clients u) fd")
  case None
  then show ?thesis using sendData_absent [OF None] assms(2,3) by simp
next
  case (Some q)
  obtain d where d: "hp_client u q = Some d" using client_of_fd [OF assms(1) Some] by metis
  obtain n where "hp_client v = (hp_client u)(q \<mapsto> d\<lparr>cl_write_buffer := drop n (cl_write_buffer d)\<rparr>)"
    using sendData_client [OF assms(3) Some d] by blast
  moreover obtain c' where "hp_client u p = Some c'" "cl_fd c' = cl_fd c" using assms(2) unfolding kept_def tied_def by blast
  then have "q \<noteq> p" using assms(4) Some owner(2) [OF assms(1)] by metis
  ultimately show ?thesis using assms(2) kept_cong [of v p u c] by simp
qed

interpretation kept_turn: turn "\<lambda>u. fd = cl_fd c \<or> kept p c u" e fd for p c e fd
proof unfold_locales
  show "fd = cl_fd c \<or> kept p c v" if "sound u" "fd = cl_fd c \<or> kept p c u" "sendData fd (ev_send e) u = Some v" for u v
    using that kept_sends by blast
qed (auto intro: kept_set input_only_tied kept_operate)

lemma accept_client:
  assumes s: "sound s" and p: "hp_client s p = Some c" and t: "acceptNewClient now e s = Some t"
  shows "hp_client t p = Some c"
proof -
  have "p \<noteq> CPtr (hp_next s)" using wfD(6) [OF soundD(3) [OF s]] p unfolding inv_alloc_def by force
  then show ?thesis using t p
    by (auto simp: acceptNewClient_def new_client_def accept_rollback_def delete_client_def on_client_def set_client_def Let_def listen_eq
        split: if_splits)
qed

text \<open>The entry of the poll set of another client, and the client's own\<close>

lemma kept_accept: "sound u \<Longrightarrow> kept p c u \<Longrightarrow> acceptNewClient now e u = Some v \<Longrightarrow> kept p c v"
  using accept_client unfolding kept_def by blast

lemma poll_step_others:
  assumes u: "sound u" and k: "kept p c u" and step: "poll_step event i u = Some v" and fd: "pf_fd (sv_poll_fds u ! i) \<noteq> cl_fd c"
  shows "kept p c v"
proof -
  let ?fd = "pf_fd (sv_poll_fds u ! i)"
  have "kept p c w" if "client_turn (event i) ?fd u = Some w" for w using kept_turn.turned [OF u _ that, of c p] k fd by simp
  then show ?thesis using step k kept_accept [OF u k]
    by (auto simp: poll_step_def Let_def split: if_splits)
qed

text \<open>\<open>n\<close> bytes are sent, and whole frames are appended before and after.\<close>

definition flows :: "nat \<Rightarrow> client \<Rightarrow> client \<Rightarrow> bool" where
  "flows n c c' \<longleftrightarrow> cl_fd c' = cl_fd c \<and> cl_connectedAt c' = cl_connectedAt c \<and>
     (\<exists>before after. cl_write_buffer c' = drop n (cl_write_buffer c @ frames before) @ frames after)"

lemma flows_tied:
  "tied a b \<Longrightarrow> flows n b d \<Longrightarrow> flows n a d" "flows n a b \<Longrightarrow> tied b d \<Longrightarrow> flows n a d"
  unfolding flows_def tied_def by (metis append.assoc frames_append)+

lemma tied_flows: "tied a b \<Longrightarrow> flows 0 a b"
  unfolding flows_def tied_def by (metis append.right_neutral drop_0 frames_simps(1))

lemma sent_flows: "flows n d (d\<lparr>cl_write_buffer := drop n (cl_write_buffer d)\<rparr>)"
  unfolding flows_def by (simp, intro exI [of _ "[]"]) simp

definition sent_by :: "event \<Rightarrow> nat \<Rightarrow> bool" where
  "sent_by e n \<longleftrightarrow> n = 0 \<or> POLLOUT \<in> ev_revents e \<and> n = nat (ev_send e)"

lemma poll_step_own:
  assumes u: "sound u" and p: "hp_client u p = Some d" and step: "poll_step event i u = Some v" and fd: "pf_fd (sv_poll_fds u ! i) = cl_fd d"
  shows "\<exists>n d'. sent_by (event i) n \<and> hp_client v p = Some d' \<and> flows n d d'"
proof -
  have unsent: ?thesis if "kept p d v" using that tied_flows unfolding kept_def sent_by_def by blast
  have k: "kept p d u" by (rule kept_self [OF p])
  show ?thesis
  proof (cases "client_turn (event i) (cl_fd d) u = Some v")
    case False
    then have "kept p d v" using step fd k kept_accept [OF u k] by (auto simp: poll_step_def Let_def split: if_splits)
    then show ?thesis by (rule unsent)
  next
    case True
    then obtain thrown w where w: "(if POLLIN \<in> ev_revents (event i) \<or> POLLHUP \<in> ev_revents (event i) then receive_turn (event i) (cl_fd d) u
          else Some (False, u)) = Some (thrown, w)"
        "(if thrown then Some (markForDisconnection (cl_fd d) ''Internal error'' w)
          else if POLLOUT \<in> ev_revents (event i) \<and> \<not> isMarked (cl_fd d) w then sendData (cl_fd d) (ev_send (event i)) w else Some w) = Some v"
      unfolding client_turn_def by (auto simp: bind_eq_Some_conv)
    have w': "sound w \<and> kept p d w"
    proof (cases "POLLIN \<in> ev_revents (event i) \<or> POLLHUP \<in> ev_revents (event i)")
      case True
      then have r: "receive_turn (event i) (cl_fd d) u = Some (thrown, w)" using w(1) by simp
      then show ?thesis using receive_turn_sound [OF u, of "event i" "cl_fd d"] kept_receiving.received [OF u k r] by simp
    qed (use w(1) u k in simp)
    then obtain d1 where d1: "hp_client w p = Some d1" "tied d d1" by (auto simp: kept_def)
    show ?thesis
    proof (cases "\<not> thrown \<and> POLLOUT \<in> ev_revents (event i) \<and> \<not> isMarked (cl_fd d) w")
      case True
      then have send: "sendData (cl_fd d) (ev_send (event i)) w = Some v" using w(2) by simp
      have "map_of (sv_clients w) (cl_fd d) = Some p" using owner(1) [of w p d1] w' d1 by (simp add: tied_def)
      from sendData_client [OF send this d1(1)] obtain n where n: "n \<in> {0, nat (ev_send (event i))}"
        "hp_client v = (hp_client w)(p \<mapsto> d1\<lparr>cl_write_buffer := drop n (cl_write_buffer d1)\<rparr>)" by blast
      then have "sent_by (event i) n" using True by (auto simp: sent_by_def)
      then show ?thesis using n(2) flows_tied(1) [OF d1(2) sent_flows] by auto
    next
      case False
      then have "kept p d v" using w(2) w' by (cases thrown) auto
      then show ?thesis by (rule unsent)
    qed
  qed
qed

text \<open>Housekeeping and clean-up\<close>

lemma refresh_loop_same: "refresh_loop es s = Some (es', u) \<Longrightarrow> hp_client u = hp_client s \<and> sv_closing u = sv_closing s \<and> hp_next u = hp_next s"
proof (induction es arbitrary: s es')
  case (Cons e es)
  then obtain e' s' es1 where "refresh_loop es s' = Some (es1, u)"
    "hp_client s' = hp_client s \<and> sv_closing s' = sv_closing s \<and> hp_next s' = hp_next s"
    by (auto simp: bind_eq_Some_conv markForDisconnection_def split: if_splits option.splits)
  then show ?case using Cons.IH by metis
qed simp

lemma gone_tied:
  "gone q fd notice u v \<Longrightarrow> hp_client v p = Some c' \<Longrightarrow> \<exists>c. hp_client u p = Some c \<and> tied c c' \<and> cl_closingSince c' = cl_closingSince c"
  by (auto simp: gone_def survivor_def tied_def split: if_splits)

lemma cleanup_tied:
  assumes s: "sound s" and p: "hp_client s p = Some c" and t: "disconnect_first n s = Some t" and alive: "hp_client t p = Some c'"
  shows "tied c c'"
proof -
  have "\<forall>c'. hp_client t p = Some c' \<longrightarrow> tied c c'"
  proof (rule disconnect_first_keeps [where J = "\<lambda>u. \<forall>c'. hp_client u p = Some c' \<longrightarrow> tied c c'", OF s _ t])
    show "\<forall>c'. hp_client v p = Some c' \<longrightarrow> tied c c'"
      if "\<forall>c'. hp_client u p = Some c' \<longrightarrow> tied c c'" "gone q fd notice u v" for u v q fd notice
      using that gone_tied tied_trans by metis
  qed (use p in simp)
  then show ?thesis using alive by simp
qed

lemma tied_farewell: "tied f (markClosing now (emit ms f))" and tied_ping: "tied f (setPingSent True (emit ms f))"
  by (auto simp: tied_def markClosing_def setPingSent_def)

lemma idle_step_kept:
  assumes k: "kept p c s" and t: "idle_step now it s = Some t"
  shows "kept p c t"
proof -
  obtain f where f: "hp_client s (snd it) = Some f" using t by (auto simp: idle_step_def bind_eq_Some_conv)
  have set: "kept p c (set_client (snd it) f' s)" if "tied f f'" for f' using k f that by (rule kept_set)
  note farewell = set [OF tied_farewell] and ping = set [OF tied_ping, unfolded set_client_def]
  show ?thesis
    using t f k farewell ping by (auto simp: idle_step_def disconnectAfterFlush_eq [OF f] on_client_def sendReply_emit set_client_def kept_def Let_def
        split: if_splits option.splits)
qed

lemma idle_first_kept: "kept p c s \<Longrightarrow> idle_first n now s = Some t \<Longrightarrow> kept p c t"
proof -
  have "kept p c t" if "each (idle_step now) es s = Some t" "kept p c s" for es s
    using that by (induction es arbitrary: s) (auto simp: bind_eq_Some_conv dest: idle_step_kept)
  then show "kept p c s \<Longrightarrow> idle_first n now s = Some t \<Longrightarrow> kept p c t" by (auto simp: idle_first_def)
qed

section \<open>The output of a client as a stream\<close>

definition streamed :: "event \<Rightarrow> cptr \<Rightarrow> client \<Rightarrow> server \<Rightarrow> bool" where
  "streamed e p c s \<longleftrightarrow> (\<exists>n c'. sent_by e n \<and> hp_client s p = Some c' \<and> flows n c c')"

lemma streamed_kept:
  assumes "kept p d u \<Longrightarrow> kept p d v" "streamed e p c u" "hp_client u p = Some d"
  shows "streamed e p c v"
proof -
  obtain n where n: "sent_by e n" "flows n c d" using assms(2,3) by (auto simp: streamed_def)
  obtain d' where "hp_client v p = Some d'" "tied d d'" using assms(1) kept_self [OF assms(3)] by (auto simp: kept_def)
  then show ?thesis using n flows_tied(2) unfolding streamed_def by blast
qed

lemma streamed_client: "streamed e p c u \<Longrightarrow> \<exists>d. hp_client u p = Some d \<and> cl_fd d = cl_fd c"
  by (auto simp: streamed_def flows_def)

lemma kept_streamed: "kept p c u \<Longrightarrow> streamed e p c u"
  using tied_flows unfolding kept_def streamed_def sent_by_def by blast

lemma other_entry:
  assumes s: "sound s" and i: "i < length (sv_poll_fds s)" "pf_fd (sv_poll_fds s ! i) = fd" and k: "k < length (sv_poll_fds s)" "k \<noteq> i" and u: "grows s u"
  shows "pf_fd (sv_poll_fds u ! k) \<noteq> fd"
proof -
  have "distinct (map pf_fd (sv_poll_fds s))" by (rule inv_pollE [OF goodD(7) [OF soundD(1) [OF s]]]) simp
  then have "map pf_fd (sv_poll_fds s) ! k \<noteq> map pf_fd (sv_poll_fds s) ! i" using i(1) k by (subst nth_eq_iff_index_eq) simp_all
  then show ?thesis using grows_nth(2) [OF u k(1)] i k(1) by simp
qed

lemma poll_phase_stream:
  assumes s: "sound s" and fresh: "accept_fresh s (ev_accept (event 0))" and c: "hp_client s p = Some c"
    and i: "i < length (sv_poll_fds s)" "pf_fd (sv_poll_fds s ! i) = cl_fd c"
    and t: "poll_phase f event (length (sv_poll_fds s)) s = Some (thrown, t)"
  shows "streamed (event i) p c t" "sound t"
proof -
  define J where "J k u \<longleftrightarrow> (if k \<le> i then kept p c u else streamed (event i) p c u)" for k u
  have J: "streamed (event i) p c u" if "J k u" for k u using that kept_streamed by (auto simp: J_def split: if_splits)
  have step: "J (Suc k) v" if u: "grows s u" "k < length (sv_poll_fds s)" "J k u" "poll_step event k u = Some v" for k u v
  proof (cases "k = i")
    case True
    then obtain d where d: "hp_client u p = Some d" "tied c d" using u(3) by (auto simp: J_def kept_def)
    have "pf_fd (sv_poll_fds u ! i) = cl_fd d" using grows_nth(2) [OF u(1) i(1)] i(2) d(2) by (simp add: tied_def)
    then obtain n d' where "sent_by (event i) n" "hp_client v p = Some d'" "flows n d d'"
      using poll_step_own [OF grows_sound [OF u(1)] d(1)] u(4) True by blast
    then show ?thesis using True flows_tied(1) [OF d(2)] by (auto simp: J_def streamed_def)
  next
    case False
    have fd: "pf_fd (sv_poll_fds u ! k) \<noteq> cl_fd c" by (rule other_entry [OF s i u(2) False u(1)])
    obtain d where d: "hp_client u p = Some d" "cl_fd d = cl_fd c" using streamed_client [OF J [OF u(3)]] by blast
    have "kept p d v" if "kept p d u"
      by (rule poll_step_others [OF grows_sound [OF u(1)] that u(4)]) (use fd d(2) in simp)
    moreover have "kept p c v" if "kept p c u" by (rule poll_step_others [OF grows_sound [OF u(1)] that u(4) fd])
    ultimately show ?thesis using u(3) False streamed_kept [OF _ _ d(1)] by (auto simp: J_def)
  qed
  have "J 0 s" using kept_self [OF c] by (simp add: J_def)
  then have phase: "\<exists>b w. poll_phase f event (length (sv_poll_fds s)) s = Some (b, w) \<and> grows s w \<and>
      (\<not> b \<longrightarrow> J (length (sv_poll_fds s)) w \<and> each (poll_step event) [0..<length (sv_poll_fds s)] s = Some w) \<and>
      (b \<longrightarrow> (\<exists>k u. k < length (sv_poll_fds s) \<and> grows s u \<and> J k u \<and> entry_throws (event k) (pf_fd (sv_poll_fds s ! k)) u = Some (True, w)))"
    by (rule poll_phase_keeps [where J = J and event = event and f = f, OF s fresh _ refl]) (rule step)
  then show "sound t" using t grows_sound by auto
  consider "J (length (sv_poll_fds s)) t" | k u where "grows s u" "J k u" "entry_throws (event k) (pf_fd (sv_poll_fds s ! k)) u = Some (True, t)"
    using phase t by (cases thrown) auto
  then show "streamed (event i) p c t"
  proof cases
    case 2
    then obtain d where d: "hp_client u p = Some d" using streamed_client [OF J [OF 2(2)]] by blast
    show "streamed (event i) p c t" by (rule streamed_kept [OF kept_receiving.threw [OF grows_sound [OF 2(1)] _ 2(3)] J [OF 2(2)] d])
  qed (rule J)
qed

lemma idle_first_alive:
  assumes s: "sound s" and t: "idle_first n now s = Some t" and p: "hp_client t p \<noteq> None"
  shows "hp_client s p \<noteq> None"
proof -
  obtain c where c: "hp_client t p = Some c" using p by blast
  have "sound t" "sv_clients t = sv_clients s" using idle_first_sound [OF s, of n now] t by (simp_all add: net_def)
  then have "map_of (sv_clients s) (cl_fd c) = Some p" using owner(1) [OF _ c] by simp
  then show ?thesis using client_of_fd [OF s] by (metis option.discI)
qed

lemma iteration_stream:
  assumes s: "sound s" and fresh: "accept_fresh s (ev_accept (pe_event e 0))" and t: "run_iteration e s = Some (go, t)"
    and c: "hp_client s p = Some c" and i: "i < length (sv_poll_fds s)" "pf_fd (sv_poll_fds s ! i) = cl_fd c"
    and c': "hp_client t p = Some c'"
  shows "\<exists>n. sent_by (pe_event e i) n \<and> flows n c c'"
proof -
  have refresh: "grows s s1 \<and> sv_clients s1 = sv_clients s \<and> hp_client s1 p = Some c" if "refresh_phase (pe_fault e) s = Some (b, s1)" for b s1
    using refresh_phase_loop [OF s, of "pe_fault e"] that c by (auto dest!: refresh_loop_same)
  from t have "streamed (pe_event e i) p c t"
  proof (cases rule: iteration_phases)
    case early
    then show ?thesis using refresh kept_streamed kept_self by blast
  next
    case (polled s1 s2 b3 s3)
    note s1 = refresh [OF polled(2)]
    have s2: "grows s1 s2 \<and> sv_clients s2 = sv_clients s1 \<and> hp_client s2 p = Some c"
      using sound_listen_events [OF grows_sound, of s s1 "{POLLIN}"] polled(4) s1 grows_refl [OF grows_sound, of s s1]
      by (auto simp: listen_eq split: if_splits)
    have g: "grows s s2" using grows_trans s1 s2 by blast
    have fresh2: "accept_fresh s2 (ev_accept (pe_event e 0))" using fresh g s1 s2 by (simp add: accept_fresh_def grows_def)
    have fd: "pf_fd (sv_poll_fds s2 ! i) = cl_fd c" "i < length (sv_poll_fds s2)" using grows_nth [OF g i(1)] i(2) by simp_all
    have c2: "hp_client s2 p = Some c" using s2 by simp
    have s3: "streamed (pe_event e i) p c s3" "sound s3"
      by (rule poll_phase_stream [OF grows_sound [OF g] fresh2 c2 fd(2,1) polled(5)])+
    have clean: "sound s4 \<and> (hp_client s4 p \<noteq> None \<longrightarrow> streamed (pe_event e i) p c s4)" if run: "cleanup_phase (pe_fault e) s3 = Some (b4, s4)" for b4 s4
    proof -
      have "\<exists>n. disconnect_first n s3 = Some s4" using cleanup_phase_first [OF s3(2), of "pe_fault e"] run by auto
      then obtain n where n: "disconnect_first n s3 = Some s4" ..
      have "streamed (pe_event e i) p c s4" if d4: "hp_client s4 p = Some d4" for d4
      proof -
        obtain d where d: "hp_client s3 p = Some d" using streamed_client [OF s3(1)] by blast
        show ?thesis by (rule streamed_kept [OF keptI [OF d4 cleanup_tied [OF s3(2) d n d4]] s3(1) d])
      qed
      then show ?thesis using disconnect_first_sound [OF s3(2), of n] n by auto
    qed
    have idle: "streamed (pe_event e i) p c t" if s4: "sound s4" "hp_client s4 p \<noteq> None \<longrightarrow> streamed (pe_event e i) p c s4"
        and run: "idle_phase (pe_fault e) (pe_now e) s4 = Some (b5, t)" for s4 b5
    proof -
      have "\<exists>n. idle_first n (pe_now e) s4 = Some t" using idle_phase_first [OF s4(1), of "pe_fault e" "pe_now e"] run by auto
      then obtain n where n: "idle_first n (pe_now e) s4 = Some t" ..
      obtain d where d: "hp_client s4 p = Some d" using idle_first_alive [OF s4(1) n, of p] c' by auto
      have "streamed (pe_event e i) p c s4" using s4(2) d by simp
      then show ?thesis using streamed_kept [of p d s4 t "pe_event e i" c] idle_first_kept [OF _ n] d by blast
    qed
    show ?thesis
    proof (cases b3)
      case False
      then obtain b4 s4 where s4: "cleanup_phase (pe_fault e) s3 = Some (b4, s4)" "b4 \<and> t = s4 \<or> (\<exists>b5. idle_phase (pe_fault e) (pe_now e) s4 = Some (b5, t))"
        using polled(6) by (auto split: if_splits)
      note s5 = clean [OF s4(1)]
      from s4(2) show ?thesis
      proof (elim disjE exE)
        assume "b4 \<and> t = s4"
        then show ?thesis using s5 c' by simp
      next
        fix b5 assume "idle_phase (pe_fault e) (pe_now e) s4 = Some (b5, t)"
        then show ?thesis using idle [OF conjunct1 [OF s5] conjunct2 [OF s5]] by simp
      qed
    qed (use polled(6) s3 in simp)
  qed
  then show ?thesis using c' by (auto simp: streamed_def)
qed

end
