(* ===== verification/Irc_Buffering.thy ===== *)
theory Irc_Buffering
  imports Irc_Safety
begin

text \<open>
  How the input stream is cut into pieces makes no difference. A command reads and writes only some fields of the
  clients; a change of the other fields, such as the arrival of more input, can be made before or after it. This is
  proved once, for every change that satisfies the locale \<open>unobserved\<close>, and carried through the primitives, the
  handlers, the commands and the line loop.
\<close>

section \<open>Moving a change of the clients through a computation\<close>

definition view :: "(cptr \<Rightarrow> client \<Rightarrow> client) \<Rightarrow> server \<Rightarrow> server" where
  "view g s = s\<lparr>hp_client := (\<lambda>p. map_option (g p) (hp_client s p))\<rparr>"

lemma view_fields [simp]:
  "sv_port (view g s) = sv_port s" "sv_server_fd (view g s) = sv_server_fd s"
  "sv_password (view g s) = sv_password s" "sv_poll_fds (view g s) = sv_poll_fds s"
  "sv_clients (view g s) = sv_clients s" "sv_channels (view g s) = sv_channels s"
  "sv_to_disconnected (view g s) = sv_to_disconnected s" "sv_closing (view g s) = sv_closing s"
  "hp_client (view g s) p = map_option (g p) (hp_client s p)"
  "hp_channel (view g s) = hp_channel s" "hp_next (view g s) = hp_next s"
  by (simp_all add: view_def)

lemma map_opt_bind: "map_option f (Option.bind m k) = Option.bind m (\<lambda>x. map_option f (k x))"
  by (cases m) simp_all

lemma map_opt_if: "map_option f (if b then m else m') = (if b then map_option f m else map_option f m')"
  by simp

lemma map_opt_pair: "map_option f (case z of (x, y) \<Rightarrow> m x y) = (case z of (x, y) \<Rightarrow> map_option f (m x y))"
  by (cases z) simp

lemma map_opt_case: "map_option f (case z of None \<Rightarrow> a | Some x \<Rightarrow> m x) = (case z of None \<Rightarrow> map_option f a | Some x \<Rightarrow> map_option f (m x))"
  by (cases z) simp_all

lemmas deep = if_cong option.case_cong prod.case_cong

lemma bind_if: "Option.bind (if b then m else m') k = (if b then Option.bind m k else Option.bind m' k)"
  by simp

lemma bind_case: "Option.bind (case z of None \<Rightarrow> a | Some x \<Rightarrow> m x) k = (case z of None \<Rightarrow> Option.bind a k | Some x \<Rightarrow> Option.bind (m x) k)"
  by (cases z) simp_all

lemma case_moved: "(case map_prod id f z of (x, y) \<Rightarrow> k x y) = (case z of (x, y) \<Rightarrow> k x (f y))"
  by (cases z) simp

lemmas push = bind_if bind_case case_moved bind_map_opt map_opt_bind map_opt_if map_opt_pair map_opt_case Let_def

lemma each_view:
  assumes "\<And>x s. f x (h s) = map_option h (f x s)"
  shows "each f xs (h s) = map_option h (each f xs s)"
  by (induction xs arbitrary: s) (simp_all add: assms push)

section \<open>Changes that no command observes\<close>

text \<open>
  The fields a command reads are kept, and the methods it calls on a client commute with the change. \<open>now\<close> is the
  clock during the command and \<open>me\<close> the client that sends it, the only one whose link it may begin to close.
\<close>

locale unobserved =
  fixes g :: "cptr \<Rightarrow> client \<Rightarrow> client" and now :: int and me :: cptr
  assumes reads [simp]: "cl_fd (g p c) = cl_fd c" "cl_ip (g p c) = cl_ip c" "cl_nickname (g p c) = cl_nickname c"
      "cl_username (g p c) = cl_username c" "cl_is_registered (g p c) = cl_is_registered c"
      "cl_is_password_verified (g p c) = cl_is_password_verified c"
      "cl_joinedChannels (g p c) = cl_joinedChannels c" "cl_invitedChannels (g p c) = cl_invitedChannels c"
    and writes [simp]: "setNickname n (g p c) = g p (setNickname n c)" "setUsername n (g p c) = g p (setUsername n c)"
      "setRealname n (g p c) = g p (setRealname n c)" "setRegistered b (g p c) = g p (setRegistered b c)"
      "setPasswordVerified b (g p c) = g p (setPasswordVerified b c)"
      "addJoinedChannels n q (g p c) = g p (addJoinedChannels n q c)"
      "removeJoinedChannels n (g p c) = g p (removeJoinedChannels n c)"
      "addInvitedChannel q (g p c) = g p (addInvitedChannel q c)"
      "removeInvitedChannel q (g p c) = g p (removeInvitedChannel q c)"
      "sendReply m (g p c) = g p (sendReply m c)" "markClosing t (g me c) = g me (markClosing t c)"
      "updateLastActivity now (g p c) = g p (updateLastActivity now c)"
begin

lemma pures [simp]: "targetname (g p c) = targetname c" "makeCommand (g p c) = makeCommand c"
  "isMissingPassword (g p c) = isMissingPassword c"
  by (simp_all add: targetname_def makeCommand_def isMissingPassword_def fun_eq_iff)

lemma register [simp]: "tryCompleteRegistration (g p c) = g p (tryCompleteRegistration c)"
  unfolding tryCompleteRegistration_def setRegistered_def [symmetric] by (simp add: Let_def)

lemma on_client_view: "(\<And>c. f (g p c) = g p (f c)) \<Longrightarrow> on_client p f (view g s) = map_option (view g) (on_client p f s)"
  by (cases "hp_client s p") (auto simp: on_client_def set_client_def view_def fun_eq_iff)

lemma on_channel_view: "on_channel q f (view g s) = map_option (view g) (on_channel q f s)"
  by (cases "hp_channel s q") (auto simp: on_channel_def set_channel_def view_def fun_eq_iff)

lemma delete_channel_view: "delete_channel q (view g s) = map_option (view g) (delete_channel q s)"
  by (cases "hp_channel s q") (auto simp: delete_channel_def view_def fun_eq_iff)

lemmas prims = on_client_view on_channel_view delete_channel_view reply_def sendToOne_def

lemma lookups: "taken_loop n p cs (view g s) = taken_loop n p cs s" "find_loop n cs (view g s) = find_loop n cs s"
  by (induction cs) (simp_all add: push cong: deep)

lemma lookup_view [simp]: "isNicknameTaken n p (view g s) = isNicknameTaken n p s"
  "findClientByNickname n (view g s) = findClientByNickname n s" "findChannel n (view g s) = findChannel n s"
  "checkPassword pw (view g s) = checkPassword pw s"
  by (simp_all add: isNicknameTaken_def findClientByNickname_def findChannel_def checkPassword_def lookups)

lemma sends: "sendToAll q m (view g s) = map_option (view g) (sendToAll q m s)"
  "sendToAllExcept q ex m (view g s) = map_option (view g) (sendToAllExcept q ex m s)"
  by (simp_all add: sendToAll_def sendToAllExcept_def push prims each_view)

lemma members: "addMember q p (view g s) = map_option (view g) (addMember q p s)"
  "removeMember q p (view g s) = map_option (view g) (removeMember q p s)"
  by (simp_all add: addMember_def removeMember_def push prims cong: deep)

lemma names: "names_loop ch u pre lim ms us (view g s) = map_option (map_prod id (view g)) (names_loop ch u pre lim ms us s)"
  by (induction ms arbitrary: us s) (simp_all add: push prims cong: deep)

lemma table: "deleteChannel n (view g s) = map_option (view g) (deleteChannel n s)"
proof -
  have "s'\<lparr>sv_channels := m\<rparr> = view g (s\<lparr>sv_channels := m\<rparr>)" if "s' = view g s" for m s' using that by (simp add: view_def)
  then show ?thesis by (simp add: deleteChannel_def clearInvitedUsers_def push prims each_view cong: deep)
qed

lemma creates: "findOrCreateChannel n (view g s) = map_prod id (view g) (findOrCreateChannel n s)"
  by (simp add: findOrCreateChannel_def new_channel_def set_channel_def Let_def split: option.split)
    (simp add: view_def)

lemmas moves = push prims sends members names table

lemma handlers: "handleJoin q p k (view g s) = map_option (view g) (handleJoin q p k s)"
  "handlePart q p m (view g s) = map_option (view g) (handlePart q p m s)"
  "handleKick q p r m (view g s) = map_option (view g) (handleKick q p r m s)"
  "handleTopic q p m b (view g s) = map_option (view g) (handleTopic q p m b s)"
  "handleInvite q p r (view g s) = map_option (view g) (handleInvite q p r s)"
  "handleModeOperator q b r p (view g s) = map_option (view g) (handleModeOperator q b r p s)"
  "handleChannelPrivmsg q p m (view g s) = map_option (view g) (handleChannelPrivmsg q p m s)"
  "handlePersonalPrivmsg p r m (view g s) = map_option (view g) (handlePersonalPrivmsg p r m s)"
  by (simp_all add: handleJoin_def handlePart_def handleKick_def handleTopic_def handleInvite_def
      handleModeOperator_def handleChannelPrivmsg_def handlePersonalPrivmsg_def moves cong: deep)

lemma mode_step_view:
  "mode_step q p ps m (map_prod id (view g) st) = map_option (map_prod id (view g)) (mode_step q p ps m st)"
  by (cases st) (simp add: mode_step_def moves cong: deep)

lemma handleMode_view: "handleMode q p ms ps (view g s) = map_option (view g) (handleMode q p ms ps s)"
proof -
  have "each (mode_step q p ps) ms (l, view g s) = map_option (map_prod id (view g)) (each (mode_step q p ps) ms (l, s))" for l
    using each_view [of "mode_step q p ps" "map_prod id (view g)" ms "(l, s)", OF mode_step_view] by simp
  then show ?thesis by (simp add: handleMode_def moves cong: deep)
qed

lemma mode_exec_step_view:
  "mode_exec_step q p n ps m (map_prod id (view g) st) = map_option (map_prod id (view g)) (mode_exec_step q p n ps m st)"
  by (cases st) (simp add: mode_exec_step_def mode_exec_apply_def moves handlers cong: deep)

lemma notify_members_view:
  "notify_members m ms done (view g s) = map_option (map_prod id (view g)) (notify_members m ms done s)"
  by (induction ms arbitrary: "done" s) (simp_all add: moves cong: deep)

lemma notify_channels_view:
  "notify_channels m js done (view g s) = map_option (map_prod id (view g)) (notify_channels m js done s)"
  by (induction js arbitrary: "done" s) (simp_all add: moves notify_members_view cong: deep)

lemma broadcasts: "broadcastNickChange p m (view g s) = map_option (view g) (broadcastNickChange p m s)"
  by (simp add: broadcastNickChange_def moves notify_channels_view cong: deep)

lemma flush: "disconnectClient now' me r (view g s) = map_option (view g) (disconnectClient now' me r s)"
proof -
  have "(view g s)\<lparr>sv_closing := m\<rparr> = view g (s\<lparr>sv_closing := m\<rparr>)" for m s by (simp add: view_def)
  then show ?thesis by (simp add: disconnectClient_def disconnectAfterFlush_def moves cong: deep)
qed

lemma execute_view: "execute k now me msg (view g s) = map_option (view g) (execute k now me msg s)"
proof (cases k)
  case Mode
  have "each (mode_exec_step q me n ps) ms (l, view g s) =
      map_option (map_prod id (view g)) (each (mode_exec_step q me n ps) ms (l, s))" for q n ps ms l
    using each_view [of "mode_exec_step q me n ps" "map_prod id (view g)" ms "(l, s)", OF mode_exec_step_view] by simp
  then show ?thesis by (simp add: Mode Mode_execute_def moves handleMode_view cong: deep)
next
  case Join
  have "part_step me it (view g s) = map_option (view g) (part_step me it s)" for it s
    by (simp add: part_step_def moves handlers cong: deep)
  then show ?thesis by (simp add: Join Join_execute_def moves handlers each_view creates cong: deep)
qed (simp_all add: Nick_execute_def Pass_execute_def User_execute_def Ping_execute_def Pong_execute_def Quit_execute_def
    Invite_execute_def Kick_execute_def Part_execute_def Privmsg_execute_def Topic_execute_def
    moves handlers broadcasts flush cong: deep)

lemma operate_view: "operate now me raw (view g s) = map_option (map_prod id (view g)) (operate now me raw s)"
  by (simp add: operate_def dispatch_def moves execute_view cong: deep)

end

section \<open>The arrival of input\<close>

text \<open>What \<open>receiveData\<close> does to the client before it looks for lines\<close>

definition feed :: "int \<Rightarrow> string \<Rightarrow> client \<Rightarrow> client" where
  "feed now bytes c = updateLastActivity now (c\<lparr>cl_read_buffer := cl_read_buffer c @ bytes\<rparr>)"

definition arrive :: "cptr \<Rightarrow> int \<Rightarrow> string \<Rightarrow> server \<Rightarrow> server" where
  "arrive p now bytes = view (\<lambda>r. if r = p then feed now bytes else id)"

lemmas client_sets = setNickname_def setUsername_def setRealname_def setRegistered_def setPasswordVerified_def
  addJoinedChannels_def removeJoinedChannels_def addInvitedChannel_def removeInvitedChannel_def sendReply_def
  markClosing_def updateLastActivity_def

interpretation arrival: unobserved "\<lambda>r. if r = p then feed now bytes else id" now me for p now bytes me
  by unfold_locales (simp_all add: feed_def client_sets)

interpretation pending: unobserved "\<lambda>r c. c\<lparr>cl_read_buffer := f r\<rparr>" now me for f now me
  by unfold_locales (simp_all add: client_sets)

text \<open>No command touches the input that is waiting.\<close>

lemma operate_input:
  assumes o: "operate now p raw s = Some (ok, t)" and r: "hp_client t r = Some d"
  shows "\<exists>c. hp_client s r = Some c \<and> cl_read_buffer d = cl_read_buffer c"
proof -
  let ?g = "\<lambda>x r c. c\<lparr>cl_read_buffer := (case hp_client s r of None \<Rightarrow> x | Some c \<Rightarrow> cl_read_buffer c)\<rparr>"
  have "view (?g x) s = s" for x
  proof -
    have "map_option (?g x r) (hp_client s r) = hp_client s r" for r by (cases "hp_client s r") simp_all
    then show ?thesis by (simp add: view_def)
  qed
  then have "map_option (map_prod id (view (?g x))) (operate now p raw s) = operate now p raw s" for x
    using pending.operate_view [of now p raw "\<lambda>r. case hp_client s r of None \<Rightarrow> x | Some c \<Rightarrow> cl_read_buffer c" s] by simp
  then have "view (?g x) t = t" for x using o by simp
  then have "map_option (?g x r) (hp_client t r) = hp_client t r" for x by (metis view_fields(9))
  then have "?g x r d = d" for x using r by simp
  then have "cl_read_buffer d = (case hp_client s r of None \<Rightarrow> x | Some c \<Rightarrow> cl_read_buffer c)" for x
    by (metis client.select_convs(10) client.surjective client.update_convs(10))
  from this [of "[]"] this [of "''x''"] show ?thesis by (cases "hp_client s r") simp_all
qed

lemma arrive_client [simp]: "hp_client (arrive p now bytes s) r = (if r = p then map_option (feed now bytes) (hp_client s p) else hp_client s r)"
  by (simp add: arrive_def option.map_id)

lemma arrive_tables [simp]: "sv_closing (arrive p now bytes s) = sv_closing s" "isMarked fd (arrive p now bytes s) = isMarked fd s"
  "sv_clients (arrive p now bytes s) = sv_clients s"
  by (simp_all add: arrive_def isMarked_def)

lemma operate_arrive:
  "operate now p raw (arrive r now bytes s) = map_option (map_prod id (arrive r now bytes)) (operate now p raw s)"
  unfolding arrive_def by (rule arrival.operate_view)

lemma feed_line:
  assumes "hasCompleteLine c"
  shows "hasCompleteLine (feed now bytes c)" "popLine (feed now bytes c) = map_prod id (feed now bytes) (popLine c)"
proof -
  obtain l rest where c: "cl_read_buffer c = l @ LF # rest" "LF \<notin> set l"
    using popLine_complete [OF assms] by metis
  have f: "cl_read_buffer (feed now bytes c) = l @ LF # (rest @ bytes)" by (simp add: feed_def updateLastActivity_def c)
  then show "hasCompleteLine (feed now bytes c)" by (simp add: hasCompleteLine_iff)
  show "popLine (feed now bytes c) = map_prod id (feed now bytes) (popLine c)"
    unfolding popLine_split [OF c] popLine_split [OF f c(2)] by (simp add: feed_def updateLastActivity_def)
qed

lemma set_arrive: "set_client p (feed now bytes c) (arrive p now bytes s) = arrive p now bytes (set_client p c s)"
  by (simp add: set_client_def arrive_def view_def fun_eq_iff)

section \<open>The line loop\<close>

lemma looping_feed: "looping fd s c \<Longrightarrow> looping fd (arrive p now bytes s) (feed now bytes c)"
  by (simp add: looping_def feed_line)

text \<open>Input that arrives after the loop might as well have arrived before it.\<close>

lemma line_loop_arrive:
  "line_loop now fd p s = Some t \<Longrightarrow>
     line_loop now fd p (arrive p now bytes s) = line_loop now fd p (arrive p now bytes t)"
proof (induction rule: line_loop_induct)
  case (blank s c c' t)
  then show ?case
    using line_loop_unfold(2) [of "arrive p now bytes s" p "feed now bytes c" fd "feed now bytes c'"]
    by (simp add: looping_feed feed_line looping_def set_arrive)
next
  case (line s c l c' ok u t)
  then show ?case
    using line_loop_unfold(3) [of "arrive p now bytes s" p "feed now bytes c" fd l "feed now bytes c'"]
    by (simp add: looping_feed feed_line looping_def set_arrive operate_arrive)
qed simp

lemma popLine_rest:
  assumes "hasCompleteLine c" "popLine c = (l, c')"
  shows "\<exists>pre. cl_read_buffer c = pre @ cl_read_buffer c'"
proof (rule popLine_complete [OF assms(1)])
  fix l' rest
  assume "cl_read_buffer c = l' @ LF # rest"
    "popLine c = (if l' \<noteq> [] \<and> last l' = CR then butlast l' else l', c\<lparr>cl_read_buffer := rest\<rparr>)"
  then show ?thesis using assms(2) by (auto intro: exI [of _ "l' @ [LF]"])
qed

text \<open>The bytes that are left are the end of the buffer.\<close>

lemma line_loop_input:
  assumes "line_loop now fd p s = Some t"
  shows "hp_client t p = Some d \<Longrightarrow> \<exists>c pre. hp_client s p = Some c \<and> cl_read_buffer c = pre @ cl_read_buffer d"
  using assms
proof (induction rule: line_loop_induct)
  case (blank s c c' t)
  then show ?case using popLine_rest [of c "[]" c'] by (auto simp: looping_def)
next
  case (line s c l c' ok u t)
  then obtain e pre where e: "hp_client u p = Some e" "cl_read_buffer e = pre @ cl_read_buffer d" by auto
  then have "cl_read_buffer e = cl_read_buffer c'" using operate_input [OF line(5) e(1)] by simp
  moreover obtain pre' where "cl_read_buffer c = pre' @ cl_read_buffer c'"
    using line(2,3) popLine_rest [of c l c'] by (auto simp: looping_def)
  ultimately have "cl_read_buffer c = (pre' @ pre) @ cl_read_buffer d" using e(2) by simp
  then show ?case using line(1) by blast
qed auto

text \<open>A client that was active now still is.\<close>

lemma line_loop_active:
  assumes l: "line_loop now fd p s = Some t" and s: "arrive p now [] s = s"
  shows "arrive p now [] t = t"
proof -
  obtain c where c: "hp_client t p = Some c" "\<not> looping fd t c" using line_loop_stops [OF l] by blast
  then have "line_loop now fd p (arrive p now [] t) = Some (arrive p now [] t)"
    by (intro line_loop_unfold(1) [where c = "feed now [] c"]) (auto simp: looping_def feed_def updateLastActivity_def hasCompleteLine_def)
  then show ?thesis using line_loop_arrive [OF l, of "[]"] l s by simp
qed

lemma feed_feed [simp]: "feed now b (feed now a c) = feed now (a @ b) c"
  by (simp add: feed_def updateLastActivity_def)

lemma arrive_arrive: "arrive p now b (arrive p now a s) = arrive p now (a @ b) s"
proof -
  have "hp_client (arrive p now b (arrive p now a s)) = hp_client (arrive p now (a @ b) s)"
    by (simp add: fun_eq_iff option.map_comp o_def)
  then show ?thesis by (simp add: arrive_def view_def)
qed

section \<open>Receiving\<close>

lemma receiveData_arrive:
  assumes "map_of (sv_clients s) fd = Some p" "hp_client s p = Some c" "bytes \<noteq> []"
    and "fd \<notin> fst ` set (sv_closing s)" and "length (cl_read_buffer c) + length bytes \<le> 8192"
  shows "receiveData now fd (Recv bytes) s = line_loop now fd p (arrive p now bytes s)"
proof -
  have "set_client p (feed now bytes c) s = arrive p now bytes s"
    using assms(2) by (auto simp: set_client_def arrive_def view_def fun_eq_iff option.map_id)
  then show ?thesis using assms by (simp add: receiveData_def heap_simps feed_def updateLastActivity_def)
qed


lemma receive_left:
  assumes "line_loop now fd p (arrive p now a s) = Some t" and "hp_client s p = Some c"
  shows "\<exists>d. hp_client t p = Some d \<and> length (cl_read_buffer d) \<le> length (cl_read_buffer c) + length a"
proof -
  obtain d where d: "hp_client t p = Some d" using line_loop_stops [OF assms(1)] by blast
  obtain pre where "cl_read_buffer c @ a = pre @ cl_read_buffer d"
    using line_loop_input [OF assms(1) d] assms(2) by (auto simp: feed_def updateLastActivity_def)
  from arg_cong [OF this, of length] show ?thesis using d by simp
qed

text \<open>Two pieces, and their concatenation\<close>

lemma receive_two:
  assumes fd: "map_of (sv_clients s) fd = Some p" "hp_client s p = Some c"
    and ne: "a \<noteq> []" "b \<noteq> []" and len: "length (cl_read_buffer c) + length a + length b \<le> 8192"
    and opened: "fd \<notin> fst ` set (sv_closing s)"
    and a: "receiveData now fd (Recv a) s = Some t" "sv_clients t = sv_clients s"
  shows "receiveData now fd (Recv (a @ b)) s =
    (if fd \<in> fst ` set (sv_closing t) then Some (arrive p now b t) else receiveData now fd (Recv b) t)"
proof -
  have loop: "line_loop now fd p (arrive p now a s) = Some t"
    using receiveData_arrive [OF fd ne(1) opened] len a(1) by simp
  have whole: "receiveData now fd (Recv (a @ b)) s = line_loop now fd p (arrive p now b t)"
    using receiveData_arrive [OF fd _ opened, of "a @ b"] ne len line_loop_arrive [OF loop, of b]
    by (simp add: arrive_arrive)
  obtain d where d: "hp_client t p = Some d" and "length (cl_read_buffer d) \<le> length (cl_read_buffer c) + length a"
    using receive_left [OF loop fd(2)] by blast
  then have left: "length (cl_read_buffer d) + length b \<le> 8192" using len by linarith
  have "receiveData now fd (Recv b) t = line_loop now fd p (arrive p now b t)" if "fd \<notin> fst ` set (sv_closing t)"
    using receiveData_arrive [OF _ d ne(2) that left] a(2) fd(1) by simp
  moreover have "line_loop now fd p (arrive p now b t) = Some (arrive p now b t)" if "fd \<in> fst ` set (sv_closing t)"
    using line_loop_unfold(1) [of "arrive p now b t" p "feed now b d" fd] that d by (simp add: looping_def)
  ultimately show ?thesis using whole by simp
qed

text \<open>Any number of pieces\<close>

lemma receive_chunks:
  assumes "sound s" and "map_of (sv_clients s) fd = Some p" "hp_client s p = Some c"
    and "\<forall>b \<in> set (a # bs). b \<noteq> []" and "length (cl_read_buffer c) + length (concat (a # bs)) \<le> 8192"
    and "fd \<notin> fst ` set (sv_closing s)"
    and "receiveData now fd (Recv (concat (a # bs))) s = Some t" and "fd \<notin> fst ` set (sv_closing t)"
  shows "each (\<lambda>b. receiveData now fd (Recv b)) (a # bs) s = Some t"
  using assms
proof (induction bs arbitrary: a s c)
  case (Cons b bs)
  obtain u where u: "receiveData now fd (Recv a) s = Some u" "sound u" "net s u"
    using receiveData_sound [OF Cons.prems(1), of now fd "Recv a"] by (auto simp: returns_def)
  have cl: "sv_clients u = sv_clients s" using u(3) by (simp add: net_def)
  have ne: "a \<noteq> []" "concat (b # bs) \<noteq> []" using Cons.prems(4) by auto
  have split: "receiveData now fd (Recv (a @ concat (b # bs))) s =
      (if fd \<in> fst ` set (sv_closing u) then Some (arrive p now (concat (b # bs)) u) else receiveData now fd (Recv (concat (b # bs))) u)"
    by (rule receive_two [OF Cons.prems(2,3) ne _ Cons.prems(6) u(1) cl]) (use Cons.prems(5) in simp)
  have opened: "fd \<notin> fst ` set (sv_closing u)"
    using split Cons.prems(7,8) by (auto split: if_splits)
  have loop: "line_loop now fd p (arrive p now a s) = Some u"
    using receiveData_arrive [OF Cons.prems(2,3) ne(1) Cons.prems(6)] Cons.prems(5) u(1) by simp
  obtain d where d: "hp_client u p = Some d" and "length (cl_read_buffer d) \<le> length (cl_read_buffer c) + length a"
    using receive_left [OF loop Cons.prems(3)] by blast
  then have "each (\<lambda>b. receiveData now fd (Recv b)) (b # bs) u = Some t"
    using Cons.prems split opened u(2) cl d by (intro Cons.IH [where c = d]) auto
  then show ?case using u(1) by simp
qed simp

end
