(* ===== verification/Irc_Departure.thy ===== *)
theory Irc_Departure
  imports Irc_Output Irc_Buffering Irc_Housekeeping
begin

text \<open>
  How a client leaves. A link that is being closed stays in that state, since the same time, until it is marked, and a
  mark stays until \<open>cleanupDisconnected\<close> removes the client: the relation \<open>onward\<close>, carried through the polled part of an
  iteration by an interpretation of the locale \<open>turn\<close>. So what \<open>checkIdleClients\<close> finds overdue in one iteration is gone
  after the next one.
\<close>

section \<open>How a client leaves\<close>

lemma closing_other: "p \<noteq> me \<Longrightarrow> unobserved (\<lambda>r c. if r = p then c\<lparr>cl_closingSince := x\<rparr> else c) now me"
  by unfold_locales (simp_all add: client_sets)

text \<open>A command begins to close no link but that of its sender.\<close>

lemma operate_closing:
  assumes o: "operate now me raw s = Some (ok, t)" and p: "p \<noteq> me" "hp_client s p = Some c" "hp_client t p = Some d"
  shows "cl_closingSince d = cl_closingSince c"
proof -
  let ?g = "\<lambda>r c'. if r = p then c'\<lparr>cl_closingSince := cl_closingSince c\<rparr> else c'"
  have "view ?g s = s"
  proof -
    have "map_option (?g r) (hp_client s r) = hp_client s r" for r using p(2) by (cases "hp_client s r") auto
    then show ?thesis by (simp add: view_def)
  qed
  moreover have "operate now me raw (view ?g s) = map_option (map_prod id (view ?g)) (operate now me raw s)"
    by (rule unobserved.operate_view [OF closing_other [OF p(1)]])
  ultimately have "operate now me raw s = Some (ok, view ?g t)" using o by simp
  then have "t = view ?g t" unfolding o by simp
  then have "hp_client t p = hp_client (view ?g t) p" by (rule arg_cong)
  then have "d = d\<lparr>cl_closingSince := cl_closingSince c\<rparr>" using p(3) by simp
  then have "cl_closingSince d = cl_closingSince (d\<lparr>cl_closingSince := cl_closingSince c\<rparr>)" by (rule arg_cong)
  then show ?thesis by simp
qed

text \<open>
  From \<open>s\<close> to \<open>t\<close> the address \<open>p\<close> is not given to another client, marks stay, and a link that was being closed still is,
  since the same time, or is marked for removal.
\<close>

definition marks :: "server \<Rightarrow> int set" where
  "marks s = fst ` set (sv_to_disconnected s)"

definition closings :: "server \<Rightarrow> int set" where
  "closings s = fst ` set (sv_closing s)"

lemma table_sets [simp]:
  "marks (set_client p c s) = marks s" "marks (s\<lparr>sv_closing := m\<rparr>) = marks s" "marks (s\<lparr>sv_poll_fds := fds\<rparr>) = marks s"
  "marks (s\<lparr>hp_client := h\<rparr>) = marks s" "closings (s\<lparr>hp_client := h\<rparr>) = closings s"
  "closings (set_client p c s) = closings s" "closings (markForDisconnection fd r s) = closings s"
  "closings (s\<lparr>sv_closing := omap_put fd r (sv_closing t)\<rparr>) = insert fd (closings t)"
  "closings (s\<lparr>sv_closing := omap_erase fd (sv_closing t)\<rparr>) = closings t - {fd}"
  by (simp_all add: marks_def closings_def set_client_def markForDisconnection_def keys_omap_erase del: set_omap_erase)

lemma mark_next [simp]: "hp_next (markForDisconnection fd r s) = hp_next s"
  by (simp add: markForDisconnection_def)

lemma marks_mark [simp]: "marks (markForDisconnection fd r s) = insert fd (marks s)"
proof (cases "map_of (sv_to_disconnected s) fd = None")
  case False
  then obtain r' where r': "map_of (sv_to_disconnected s) fd = Some r'" by auto
  then have "fd \<in> marks s" unfolding marks_def by (metis domI dom_map_of_conv_image_fst)
  then show ?thesis using r' by (simp add: markForDisconnection_def insert_absorb)
qed (simp add: markForDisconnection_def marks_def)

lemma closings_iff: "map_of (sv_closing s) fd = None \<longleftrightarrow> fd \<notin> closings s"
  by (simp add: closings_def map_of_eq_None_iff)

definition onward :: "cptr \<Rightarrow> server \<Rightarrow> server \<Rightarrow> bool" where
  "onward p s t \<longleftrightarrow> hp_next s \<le> hp_next t \<and> marks s \<subseteq> marks t \<and>
     (cptr_addr p < hp_next s \<longrightarrow> (\<forall>d'. hp_client t p = Some d' \<longrightarrow> (\<exists>d. hp_client s p = Some d \<and>
        cl_fd d' = cl_fd d \<and> cl_connectedAt d' = cl_connectedAt d \<and>
        (cl_fd d \<in> closings s \<longrightarrow> cl_fd d \<in> marks t \<or> cl_fd d \<in> closings t \<and> cl_closingSince d' = cl_closingSince d))))"

lemma onwardI:
  assumes "hp_next s \<le> hp_next t" "marks s \<subseteq> marks t"
    and "\<And>d'. cptr_addr p < hp_next s \<Longrightarrow> hp_client t p = Some d' \<Longrightarrow> \<exists>d. hp_client s p = Some d \<and>
        cl_fd d' = cl_fd d \<and> cl_connectedAt d' = cl_connectedAt d \<and>
        (cl_fd d \<in> closings s \<longrightarrow> cl_fd d \<in> marks t \<or> cl_fd d \<in> closings t \<and> cl_closingSince d' = cl_closingSince d)"
  shows "onward p s t"
  using assms unfolding onward_def by blast

lemma isMarked_iff: "isMarked fd s \<longleftrightarrow> fd \<in> marks s"
  by (simp add: isMarked_def marks_def map_of_eq_None_iff del: not_None_eq)

lemma onward_refl [simp]: "onward p s s"
  by (simp add: onward_def)

lemma onward_trans:
  assumes "onward p s t" "onward p t u"
  shows "onward p s u"
proof (rule onwardI)
  show "hp_next s \<le> hp_next u" "marks s \<subseteq> marks u" using assms unfolding onward_def by auto
  fix d' assume p: "cptr_addr p < hp_next s" and u: "hp_client u p = Some d'"
  then have "cptr_addr p < hp_next t" using assms(1) by (simp add: onward_def)
  then obtain d where d: "hp_client t p = Some d" "cl_fd d' = cl_fd d" "cl_connectedAt d' = cl_connectedAt d"
      "cl_fd d \<in> closings t \<longrightarrow> cl_fd d \<in> marks u \<or> cl_fd d \<in> closings u \<and> cl_closingSince d' = cl_closingSince d"
    using assms(2) u unfolding onward_def by blast
  obtain b where "hp_client s p = Some b" "cl_fd d = cl_fd b" "cl_connectedAt d = cl_connectedAt b"
      "cl_fd b \<in> closings s \<longrightarrow> cl_fd b \<in> marks t \<or> cl_fd b \<in> closings t \<and> cl_closingSince d = cl_closingSince b"
    using assms(1) p d(1) unfolding onward_def by blast
  moreover have "marks t \<subseteq> marks u" using assms(2) by (simp add: onward_def)
  ultimately show "\<exists>b. hp_client s p = Some b \<and> cl_fd d' = cl_fd b \<and> cl_connectedAt d' = cl_connectedAt b \<and>
      (cl_fd b \<in> closings s \<longrightarrow> cl_fd b \<in> marks u \<or> cl_fd b \<in> closings u \<and> cl_closingSince d' = cl_closingSince b)"
    using d(2-4) by (intro exI [of _ b]) auto
qed

lemma onward_same: "hp_client t = hp_client s \<Longrightarrow> hp_next t = hp_next s \<Longrightarrow> sv_closing t = sv_closing s \<Longrightarrow> marks s \<subseteq> marks t \<Longrightarrow> onward p s t"
  by (simp add: onward_def closings_def)

text \<open>The change of one client\<close>

lemma onward_set:
  assumes "hp_client u q = Some d" "cl_fd d' = cl_fd d" "cl_connectedAt d' = cl_connectedAt d" "cl_closingSince d' = cl_closingSince d"
  shows "onward p u (set_client q d' u)"
  using assms by (intro onwardI) (auto simp: set_client_def split: if_splits)

lemma onward_mark [simp]: "onward p u (markForDisconnection fd r u)"
  by (rule onward_same) auto

lemma onward_operate:
  assumes u: "sound u" and q: "hp_client u q = Some c" "map_of (sv_clients u) fd = Some q" "fd \<notin> closings u" and o: "operate now q l u = Some (ok, v)"
  shows "onward p u v"
proof (rule onwardI)
  note f = frameD [OF operate_frame [OF u q(1) o]]
  show "hp_next u \<le> hp_next v" "marks u \<subseteq> marks v" using f(2,9) by (simp_all add: marks_def)
  fix d' assume v: "hp_client v p = Some d'"
  then obtain d where d: "hp_client u p = Some d" "tied d d'" using f(7) [of p] by (cases "hp_client u p") auto
  have "cl_closingSince d' = cl_closingSince d" if "cl_fd d \<in> closings u"
    using operate_closing [OF o _ d(1) v] q client_of_fd [OF u q(2)] d(1) that by (cases "p = q") auto
  then show "\<exists>d. hp_client u p = Some d \<and> cl_fd d' = cl_fd d \<and> cl_connectedAt d' = cl_connectedAt d \<and>
        (cl_fd d \<in> closings u \<longrightarrow> cl_fd d \<in> marks v \<or> cl_fd d \<in> closings v \<and> cl_closingSince d' = cl_closingSince d)"
    using d f(8) by (auto simp: tied_def closings_def)
qed

lemma onward_touch:
  assumes "onward p s u" "hp_client u q = Some d" "input_only d d'"
  shows "onward p s (set_client q d' u)"
  using assms(3) by (intro onward_trans [OF assms(1)] onward_set [OF assms(2)]) (auto simp: input_only_def)

lemma onward_send:
  assumes u: "sound u" and v: "sendData fd k u = Some v"
  shows "onward p u v"
proof (cases "map_of (sv_clients u) fd")
  case None
  then show ?thesis using v by (simp add: sendData_absent)
next
  case (Some q)
  obtain d where d: "hp_client u q = Some d" "cl_fd d = fd" using client_of_fd [OF u Some] by metis
  obtain n where n: "hp_client v = (hp_client u)(q \<mapsto> d\<lparr>cl_write_buffer := drop n (cl_write_buffer d)\<rparr>)"
    using sendData_client [OF v Some d(1)] by blast
  have tables: "hp_next v = hp_next u \<and> marks u \<subseteq> marks v \<and> (\<forall>fd \<in> closings u. fd \<in> marks v \<or> fd \<in> closings v)"
    using v Some d by (auto simp: sendData_def heap_simps Let_def split: if_splits option.splits)
  show ?thesis using n tables d(1) by (intro onwardI) (auto split: if_splits)
qed

interpretation onward_turn: turn "onward p s" e fd for p s e fd
proof unfold_locales
  show "onward p s v" if "sound u" "onward p s u" "hp_client u q = Some c" "map_of (sv_clients u) fd = Some q" "fd \<notin> fst ` set (sv_closing u)"
    "operate (ev_now e) q l u = Some (ok, v)" for u q c l ok v
    by (rule onward_trans [OF that(2) onward_operate [OF that(1,3,4) _ that(6)]]) (use that(5) in \<open>simp add: closings_def\<close>)
  show "onward p s v" if "sound u" "onward p s u" "sendData fd (ev_send e) u = Some v" for u v
    by (rule onward_trans [OF that(2) onward_send [OF that(1,3)]])
qed (auto intro: onward_touch onward_trans)

lemma onward_accept:
  assumes t: "acceptNewClient now e u = Some v"
  shows "onward p u v"
proof (rule onwardI)
  show "hp_next u \<le> hp_next v" "marks u \<subseteq> marks v"
    using t by (auto simp: acceptNewClient_def new_client_def accept_rollback_def delete_client_def on_client_def set_client_def Let_def listen_eq
        marks_def split: if_splits)
  have tables: "closings v = closings u \<and> (cptr_addr p < hp_next u \<longrightarrow> hp_client v p = hp_client u p)"
    using t by (auto simp: acceptNewClient_def new_client_def accept_rollback_def delete_client_def on_client_def set_client_def Let_def listen_eq
        closings_def split: if_splits)
  show "\<exists>d. hp_client u p = Some d \<and> cl_fd d' = cl_fd d \<and> cl_connectedAt d' = cl_connectedAt d \<and>
      (cl_fd d \<in> closings u \<longrightarrow> cl_fd d \<in> marks v \<or> cl_fd d \<in> closings v \<and> cl_closingSince d' = cl_closingSince d)"
    if "cptr_addr p < hp_next u" "hp_client v p = Some d'" for d'
    using that tables by simp
qed

lemma onward_poll_step: "sound u \<Longrightarrow> poll_step event i u = Some v \<Longrightarrow> onward p u v"
  using onward_turn.turned [of u p u "event i" "pf_fd (sv_poll_fds u ! i)" v] onward_accept [of _ _ u v]
  by (auto simp: poll_step_def Let_def split: if_splits)

lemma onward_refresh: "sound s \<Longrightarrow> refreshPollEvents s = Some t \<Longrightarrow> onward p s t"
proof -
  have marks: "marks s \<subseteq> marks u" if "refresh_loop es s = Some (es', u)" for es es' s u
    using that by (induction es arbitrary: s es') (fastforce simp: bind_eq_Some_conv split: if_splits option.splits)+
  assume "refreshPollEvents s = Some t"
  then obtain es u where u: "refresh_loop (sv_poll_fds s) s = Some (es, u)" "t = u\<lparr>sv_poll_fds := es\<rparr>"
    by (auto simp: refreshPollEvents_def bind_eq_Some_conv)
  show ?thesis using refresh_loop_same [OF u(1)] marks [OF u(1)] u(2) by (intro onward_same) simp_all
qed

lemma onward_idle_step:
  assumes s: "sound s" and it: "it \<in> set (sv_clients s)" and t: "idle_step now it s = Some t"
  shows "onward p s t"
proof -
  obtain c where c: "hp_client s (snd it) = Some c" "cl_fd c = fst it" by (rule client_entry [OF soundD(3) [OF s] it])
  show ?thesis
  proof (rule onwardI)
    show "hp_next s \<le> hp_next t" "marks s \<subseteq> marks t"
      using t c(1) by (auto simp: idle_step_def disconnectAfterFlush_eq [OF c(1)] on_client_def Let_def split: if_splits option.splits)
    fix d' assume "hp_client t p = Some d'"
    then show "\<exists>d. hp_client s p = Some d \<and> cl_fd d' = cl_fd d \<and> cl_connectedAt d' = cl_connectedAt d \<and>
        (cl_fd d \<in> closings s \<longrightarrow> cl_fd d \<in> marks t \<or> cl_fd d \<in> closings t \<and> cl_closingSince d' = cl_closingSince d)"
      using t c by (auto simp: idle_step_def disconnectAfterFlush_eq [OF c(1)] on_client_def Let_def client_sets closings_iff
          sendReply_emit setPingSent_def split: if_splits option.splits)
  qed
qed

lemma onward_idle:
  assumes s: "sound s" and t: "checkIdleClients now s = Some t"
  shows "onward p s t"
proof -
  have "returns (each (idle_step now) (sv_clients s) s) (\<lambda>t. (sound t \<and> net s t) \<and> onward p s t)"
  proof (rule returns_each [where I = "\<lambda>t. (sound t \<and> net s t) \<and> onward p s t"])
    fix it u assume it: "it \<in> set (sv_clients s)" and u: "(sound u \<and> net s u) \<and> onward p s u"
    then have "it \<in> set (sv_clients u)" by (simp add: net_def)
    then show "returns (idle_step now it u) (\<lambda>t. (sound t \<and> net s t) \<and> onward p s t)"
      using idle_step_sound [of u it now] onward_idle_step [of u it now] u onward_trans net_trans by (fastforce simp: returns_def)
  qed (use s in simp)
  then show ?thesis using t by (simp add: checkIdleClients_def)
qed

text \<open>The marked clients are gone after the clean-up; a link of another one that is being closed still is.\<close>

lemma cleanup_leaves:
  assumes s: "sound s" and t: "cleanupDisconnected s = Some t" and p: "hp_client t p = Some d'"
  shows "\<exists>d. hp_client s p = Some d \<and> cl_fd d' = cl_fd d \<and> cl_connectedAt d' = cl_connectedAt d \<and> cl_fd d \<notin> marks s \<and>
    (cl_fd d \<in> closings s \<longrightarrow> cl_fd d \<in> closings t \<and> cl_closingSince d' = cl_closingSince d)"
    (is "\<exists>d. ?same d d' \<and> _ \<and> ?closed d d' t")
proof -
  let ?J = "\<lambda>u. \<forall>d'. hp_client u p = Some d' \<longrightarrow> (\<exists>d. hp_client s p = Some d \<and> cl_fd d' = cl_fd d \<and> cl_connectedAt d' = cl_connectedAt d \<and>
    (cl_fd d \<in> closings s \<longrightarrow> cl_fd d \<in> closings u \<and> cl_closingSince d' = cl_closingSince d))"
  have first: "disconnect_first (length (sv_to_disconnected s)) s = Some t" using t by (simp add: disconnect_first_def cleanupDisconnected_def)
  have "?J t"
  proof (rule disconnect_first_keeps [where J = ?J, OF s _ first])
    show "?J (s\<lparr>sv_to_disconnected := []\<rparr>)" by (simp add: closings_def)
    show "?J v" if u: "sound u" "?J u" "hp_client u q = Some c" "cl_fd c = fd" "gone q fd notice u v" for u v q c fd notice
    proof (intro allI impI)
      fix d' assume v: "hp_client v p = Some d'"
      then have "p \<noteq> q" using u(5) by (auto simp: gone_def)
      obtain b where b: "hp_client u p = Some b" "tied b d'" "cl_closingSince d' = cl_closingSince b" using gone_tied [OF u(5) v] by blast
      then have "cl_fd b \<noteq> fd" using owner(1) [OF u(1,3)] owner(1) [OF u(1) b(1)] u(4) \<open>p \<noteq> q\<close> by auto
      then have "cl_fd b \<in> closings u \<Longrightarrow> cl_fd b \<in> closings v" using u(5) by (simp add: gone_def closings_def keys_omap_erase del: set_omap_erase)
      moreover obtain d where "hp_client s p = Some d" "cl_fd b = cl_fd d" "cl_connectedAt b = cl_connectedAt d"
          "cl_fd d \<in> closings s \<longrightarrow> cl_fd d \<in> closings u \<and> cl_closingSince b = cl_closingSince d" using u(2) b(1) by blast
      ultimately show "\<exists>d. hp_client s p = Some d \<and> cl_fd d' = cl_fd d \<and> cl_connectedAt d' = cl_connectedAt d \<and>
          (cl_fd d \<in> closings s \<longrightarrow> cl_fd d \<in> closings v \<and> cl_closingSince d' = cl_closingSince d)"
        using b(2,3) by (intro exI [of _ d]) (auto simp: tied_def)
    qed
  qed
  then obtain d where d: "hp_client s p = Some d" "cl_fd d' = cl_fd d" "cl_connectedAt d' = cl_connectedAt d"
    "cl_fd d \<in> closings s \<longrightarrow> cl_fd d \<in> closings t \<and> cl_closingSince d' = cl_closingSince d" using p by blast
  have removed: "good t" "populated t" "fst ` set (sv_clients t) = fst ` set (sv_clients s) - marks s"
    using cleanupDisconnected_removes [OF soundD(1) [OF s]] t soundD(2) [OF s] by (simp_all add: marks_def)
  then have "sound t" by (simp add: sound_def)
  then have "map_of (sv_clients t) (cl_fd d) = Some p" using owner(1) [of t p d'] p d(2) by simp
  then have "cl_fd d \<in> fst ` set (sv_clients t)" by (metis domI dom_map_of_conv_image_fst)
  then show ?thesis using d removed(3) by blast
qed

text \<open>A quiet iteration: the polled part, the clean-up, and the housekeeping\<close>

lemma quiet_iteration:
  assumes s: "sound s" and smooth: "pe_fault e = None" and ready: "0 \<le> pe_ready e" and fresh: "accept_fresh s (ev_accept (pe_event e 0))"
  obtains s3 s4 t where "run_iteration e s = Some (True, t)" "sound s3" "onward p s s3" "cleanupDisconnected s3 = Some s4" "sound s4"
    "hp_next s3 \<le> hp_next s4" "checkIdleClients (pe_now e) s4 = Some t" "sound t" "onward p s4 t"
proof -
  obtain s1 where s1: "refreshPollEvents s = Some s1" "grows s s1" "sv_clients s1 = sv_clients s"
    using refreshPollEvents_sound [OF s] by (auto elim!: returnsE)
  obtain s2 where s2: "(if pe_ready e = 0 then listen_events {POLLIN} s1 else Some s1) = Some s2" "grows s1 s2" "sv_clients s2 = sv_clients s1" "onward p s1 s2"
    using sound_listen_events [OF grows_sound [OF s1(2)], of "{POLLIN}"] grows_refl [OF grows_sound [OF s1(2)]]
    by (cases "pe_ready e = 0") (auto elim!: returnsE simp: listen_eq onward_def closings_def marks_def split: if_splits)
  have "accept_fresh s2 (ev_accept (pe_event e 0))" using fresh s1(2,3) s2(2,3) by (simp add: accept_fresh_def grows_def)
  then have "returns (each (poll_step (pe_event e)) [0..<length (sv_poll_fds s2)] s2) (\<lambda>t. grows s2 t \<and> onward p s2 t)"
  proof (rule poll_loop_keeps [OF grows_sound [OF s2(2)], where J = "\<lambda>_. onward p s2" and event = "pe_event e"])
    show "onward p s2 v" if "grows s2 u" "onward p s2 u" "poll_step (pe_event e) i u = Some v" for i u v
      by (rule onward_trans [OF that(2) onward_poll_step [OF grows_sound [OF that(1)] that(3)]])
  qed simp_all
  then obtain s3 where s3: "each (poll_step (pe_event e)) [0..<length (sv_poll_fds s2)] s2 = Some s3" "sound s3" "onward p s2 s3"
    using grows_sound by (auto elim!: returnsE)
  obtain s4 where s4: "cleanupDisconnected s3 = Some s4" "sound s4"
    using cleanupDisconnected_removes [OF soundD(1) [OF s3(2)]] soundD(2) [OF s3(2)] by (auto simp: sound_def elim!: returnsE)
  have addr: "hp_next s3 \<le> hp_next s4"
  proof (rule disconnect_first_keeps [where J = "\<lambda>u. hp_next s3 \<le> hp_next u", OF s3(2)])
    show "disconnect_first (length (sv_to_disconnected s3)) s3 = Some s4" using s4(1) by (simp add: disconnect_first_def cleanupDisconnected_def)
  qed (auto simp: gone_def)
  obtain t where t: "checkIdleClients (pe_now e) s4 = Some t" "sound t" using checkIdleClients_sound [OF s4(2)] by (auto elim!: returnsE)
  have "run_iteration e s = Some (True, t)" using s1(1) s2(1) s3(1) s4(1) t(1) ready by (simp add: smooth_iteration [OF smooth] del: upt_Suc)
  moreover have "onward p s s3" using onward_refresh [OF s s1(1)] s2(4) s3(3) onward_trans by blast
  ultimately show thesis using that s3(2) s4 addr t onward_idle [OF s4(2) t(1)] by blast
qed

lemma idle_registered:
  assumes "registered_at p s" "checkIdleClients now s = Some t"
  shows "registered_at p t"
proof -
  have step: "registered_at p v" if "idle_step now it u = Some v" "registered_at p u" for it u v
    using that by (auto simp: idle_step_def disconnectAfterFlush_def on_client_def set_client_def bind_eq_Some_conv Let_def client_sets setPingSent_def
        registered_at_def split: if_splits option.splits)
  have "registered_at p v" if "each (idle_step now) es u = Some v" "registered_at p u" for es u v
    using that by (induction es arbitrary: u) (auto simp: bind_eq_Some_conv dest: step)
  then show ?thesis using assms by (simp add: checkIdleClients_def)
qed

lemma client_addr: "sound s \<Longrightarrow> hp_client s p = Some c \<Longrightarrow> cptr_addr p < hp_next s"
  using wfD(6) [of s] soundD(3) [of s] by (auto simp: inv_alloc_def)

lemma leaving_iteration:
  assumes s: "sound s" and smooth: "pe_fault e = None" and ready: "0 \<le> pe_ready e" and fresh: "accept_fresh s (ev_accept (pe_event e 0))"
    and p: "hp_client s p = Some c"
  shows "\<exists>t. run_iteration e s = Some (True, t) \<and> sound t \<and> cptr_addr p < hp_next t \<and>
    (\<forall>d. hp_client t p = Some d \<longrightarrow> cl_fd d = cl_fd c \<and> cl_fd c \<notin> marks s \<and>
      (cl_fd c \<in> closings s \<and> getClosingTime (pe_now e) c > 5 \<longrightarrow> cl_fd c \<in> marks t) \<and>
      (getConnectTime (pe_now e) c > TIMEOUT_REGISTRATION \<longrightarrow> registered_at p t \<or> cl_fd c \<in> closings t \<or> cl_fd c \<in> marks t))"
proof (rule quiet_iteration [OF s smooth ready fresh])
  fix s3 s4 t
  assume run: "run_iteration e s = Some (True, t)" and s3: "sound s3" "onward p s s3" and s4: "cleanupDisconnected s3 = Some s4" "sound s4" "hp_next s3 \<le> hp_next s4"
    and t: "checkIdleClients (pe_now e) s4 = Some t" "sound t" "onward p s4 t"
  have addr: "cptr_addr p < hp_next s" "cptr_addr p < hp_next s3" "cptr_addr p < hp_next s4"
    using client_addr [OF s p] s3(2) s4(3) by (auto simp: onward_def)
  then have "cptr_addr p < hp_next t" using t(3) by (simp add: onward_def)
  moreover have "cl_fd d = cl_fd c \<and> cl_fd c \<notin> marks s \<and>
      (cl_fd c \<in> closings s \<and> getClosingTime (pe_now e) c > 5 \<longrightarrow> cl_fd c \<in> marks t) \<and>
      (getConnectTime (pe_now e) c > TIMEOUT_REGISTRATION \<longrightarrow> registered_at p t \<or> cl_fd c \<in> closings t \<or> cl_fd c \<in> marks t)"
    if d: "hp_client t p = Some d" for d
  proof -
    obtain d4 where d4: "hp_client s4 p = Some d4" "cl_fd d = cl_fd d4" using t(3) addr(3) d unfolding onward_def by blast
    obtain d3 where d3: "hp_client s3 p = Some d3" "cl_fd d4 = cl_fd d3" "cl_connectedAt d4 = cl_connectedAt d3" "cl_fd d3 \<notin> marks s3"
        "cl_fd d3 \<in> closings s3 \<longrightarrow> cl_fd d3 \<in> closings s4 \<and> cl_closingSince d4 = cl_closingSince d3"
      using cleanup_leaves [OF s3(1) s4(1) d4(1)] by blast
    have c: "cl_fd d3 = cl_fd c" "cl_connectedAt d3 = cl_connectedAt c" "marks s \<subseteq> marks s3"
        "cl_fd c \<in> closings s \<longrightarrow> cl_fd c \<in> marks s3 \<or> cl_fd c \<in> closings s3 \<and> cl_closingSince d3 = cl_closingSince c"
      using s3(2) addr(1) d3(1) p unfolding onward_def by auto
    have "map_of (sv_clients s4) (cl_fd c) = Some p" using owner(1) [OF s4(2) d4(1)] d3(2) c(1) by simp
    note idle = checkIdleClients_effect [OF s4(2) t(1) this, unfolded idle_view_def]
    note mark = isMarked_iff [of "cl_fd c" t]
    have closed: "cl_fd c \<in> marks t" if "cl_fd c \<in> closings s" "getClosingTime (pe_now e) c > 5"
    proof -
      have k: "cl_fd c \<in> closings s4" "cl_closingSince d4 = cl_closingSince c" using c d3(4,5) that(1) by auto
      obtain r where "map_of (sv_closing s4) (cl_fd c) = Some r" using k(1) closings_iff [of s4 "cl_fd c"] by auto
      moreover have "getClosingTime (pe_now e) d4 > 5" using that(2) k(2) by (simp add: getClosingTime_def split: if_splits)
      ultimately show ?thesis using idle(1) mark d4(1) by (simp add: overdue_def)
    qed
    have "registered_at p t \<or> cl_fd c \<in> closings t \<or> cl_fd c \<in> marks t" if late: "getConnectTime (pe_now e) c > TIMEOUT_REGISTRATION"
    proof (cases "map_of (sv_closing s4) (cl_fd c)")
      case None
      show ?thesis
      proof (cases "cl_is_registered d4")
        case True
        then have "registered_at p s4" using d4(1) by (simp add: registered_at_def)
        then show ?thesis using idle_registered [OF _ t(1)] by simp
      next
        case False
        then show ?thesis using idle(1) mark None d4(1) c(2) d3(3) late by (simp add: overdue_def getConnectTime_def)
      qed
    next
      case (Some r)
      then have "cl_fd c \<in> closings s4" using closings_iff [of s4 "cl_fd c"] by auto
      then show ?thesis using idle(3) by (auto simp: closings_def)
    qed
    then show ?thesis using closed d4(2) d3(2,4) c by auto
  qed
  ultimately show ?thesis using run t(2) by blast
qed

text \<open>A client that is still there after an iteration was there before, and not marked.\<close>

lemma next_iteration:
  assumes s: "sound s" and smooth: "pe_fault e = None" and ready: "0 \<le> pe_ready e" and fresh: "accept_fresh s (ev_accept (pe_event e 0))"
    and p: "cptr_addr p < hp_next s"
  shows "\<exists>t. run_iteration e s = Some (True, t) \<and> (hp_client t p \<noteq> None \<longrightarrow> (\<exists>c. hp_client s p = Some c \<and> cl_fd c \<notin> marks s))"
proof (cases "hp_client s p")
  case None
  show ?thesis
  proof (rule quiet_iteration [OF s smooth ready fresh])
    fix s3 s4 t
    assume run: "run_iteration e s = Some (True, t)" and s3: "sound s3" "onward p s s3" and s4: "cleanupDisconnected s3 = Some s4" "hp_next s3 \<le> hp_next s4"
      and t: "onward p s4 t"
    have "hp_client s3 p = None" using s3(2) p None unfolding onward_def by fastforce
    then have "hp_client s4 p = None" using cleanup_leaves [OF s3(1) s4(1), of p] by (cases "hp_client s4 p") auto
    moreover have "cptr_addr p < hp_next s4" using s3(2) s4(2) p by (simp add: onward_def)
    ultimately have "hp_client t p = None" using t unfolding onward_def by fastforce
    then show ?thesis using run by blast
  qed
next
  case (Some c)
  then show ?thesis using leaving_iteration [OF s smooth ready fresh Some] by blast
qed

section \<open>What a client's socket takes\<close>

text \<open>
  In an iteration without failures a client whose socket takes output either goes, or its output buffer has lost exactly the bytes
  the socket took.
\<close>

text \<open>The bytes a socket takes in one turn\<close>

definition offered :: "event \<Rightarrow> nat" where
  "offered e = (if POLLOUT \<in> ev_revents e then nat (ev_send e) else 0)"

text \<open>The client is marked, and goes, or its socket has taken exactly what it offered to take.\<close>

definition drained :: "event \<Rightarrow> cptr \<Rightarrow> client \<Rightarrow> server \<Rightarrow> bool" where
  "drained e p c s \<longleftrightarrow> (\<exists>d. hp_client s p = Some d \<and> cl_fd d = cl_fd c \<and> (cl_fd c \<in> marks s \<or> flows (offered e) c d))"

lemma drained_step:
  assumes "onward p u v" "drained e p c u" "hp_client u p = Some d" "kept p d v"
  shows "drained e p c v"
proof -
  obtain d' where d': "hp_client v p = Some d'" "tied d d'" using assms(4) by (auto simp: kept_def)
  moreover have "marks u \<subseteq> marks v" using assms(1) by (simp add: onward_def)
  ultimately show ?thesis using assms(2,3) flows_tied(2) [OF _ d'(2)] by (auto simp: drained_def tied_def)
qed

lemma poll_step_drains:
  assumes u: "sound u" and p: "hp_client u p = Some d" and step: "poll_step event i u = Some v"
    and fd: "pf_fd (sv_poll_fds u ! i) = cl_fd d" "cl_fd d \<noteq> sv_server_fd u"
  shows "drained (event i) p d v"
proof -
  let ?e = "event i"
  have k: "kept p d u" by (rule kept_self [OF p])
  have unsent: "drained ?e p d w" if "kept p d w" "cl_fd d \<in> marks w \<or> POLLOUT \<notin> ev_revents ?e" for w
    using that tied_flows unfolding kept_def drained_def offered_def by (auto simp: tied_def)
  show ?thesis
  proof (cases "client_turn ?e (cl_fd d) u = Some v \<and> POLLERR \<notin> ev_revents ?e \<and> POLLNVAL \<notin> ev_revents ?e")
    case False
    then have "v = u \<and> ev_revents ?e = {} \<or> (\<exists>r. v = markForDisconnection (cl_fd d) r u)"
      using step fd by (auto simp: poll_step_def Let_def split: if_splits)
    then show ?thesis using unsent [of v] k by auto
  next
    case True
    then obtain thrown w where w: "(if POLLIN \<in> ev_revents ?e \<or> POLLHUP \<in> ev_revents ?e then receive_turn ?e (cl_fd d) u
          else Some (False, u)) = Some (thrown, w)"
        "(if thrown then Some (markForDisconnection (cl_fd d) ''Internal error'' w)
          else if POLLOUT \<in> ev_revents ?e \<and> \<not> isMarked (cl_fd d) w then sendData (cl_fd d) (ev_send ?e) w else Some w) = Some v"
      unfolding client_turn_def by (auto simp: bind_eq_Some_conv)
    have w': "sound w \<and> kept p d w"
    proof (cases "POLLIN \<in> ev_revents ?e \<or> POLLHUP \<in> ev_revents ?e")
      case True
      then have r: "receive_turn ?e (cl_fd d) u = Some (thrown, w)" using w(1) by simp
      then show ?thesis using receive_turn_sound [OF u, of ?e "cl_fd d"] kept_receiving.received [OF u k r] by simp
    qed (use w(1) u k in simp)
    then obtain d1 where d1: "hp_client w p = Some d1" "tied d d1" by (auto simp: kept_def)
    show ?thesis
    proof (cases "\<not> thrown \<and> POLLOUT \<in> ev_revents ?e \<and> \<not> isMarked (cl_fd d) w")
      case True
      then have send: "sendData (cl_fd d) (ev_send ?e) w = Some v" using w(2) by simp
      have "map_of (sv_clients w) (cl_fd d) = Some p" using owner(1) [of w p d1] w' d1 by (simp add: tied_def)
      from sendData_takes [OF send this d1(1)]
      have "hp_client v p = Some (d1\<lparr>cl_write_buffer := drop (offered ?e) (cl_write_buffer d1)\<rparr>)" using True by (simp add: offered_def)
      then show ?thesis using flows_tied(1) [OF d1(2) sent_flows] d1(2) by (simp add: drained_def tied_def)
    next
      case False
      then have "kept p d v \<and> (cl_fd d \<in> marks v \<or> POLLOUT \<notin> ev_revents ?e)" using w(2) w' by (cases thrown) (auto simp: isMarked_iff)
      then show ?thesis using unsent by blast
    qed
  qed
qed

lemma poll_loop_drains:
  assumes s: "sound s" and fresh: "accept_fresh s (ev_accept (event 0))" and c: "hp_client s p = Some c"
    and i: "i < length (sv_poll_fds s)" "pf_fd (sv_poll_fds s ! i) = cl_fd c"
  shows "returns (each (poll_step event) [0..<length (sv_poll_fds s)] s) (\<lambda>t. grows s t \<and> drained (event i) p c t)"
proof -
  define J where "J k u \<longleftrightarrow> (if k \<le> i then kept p c u else drained (event i) p c u)" for k u
  have step: "J (Suc k) v" if u: "grows s u" "k < length (sv_poll_fds s)" "J k u" "poll_step event k u = Some v" for k u v
  proof -
    have su: "sound u" by (rule grows_sound [OF u(1)])
    obtain d where d: "hp_client u p = Some d" "cl_fd d = cl_fd c"
      using u(3) by (auto simp: J_def kept_def drained_def tied_def split: if_splits)
    show ?thesis
    proof (cases "k = i")
      case True
      then obtain d where d: "hp_client u p = Some d" "tied c d" using u(3) by (auto simp: J_def kept_def)
      have "pf_fd (sv_poll_fds u ! i) = cl_fd d" using grows_nth(2) [OF u(1) i(1)] i(2) d(2) by (simp add: tied_def)
      then have "drained (event i) p d v" using poll_step_drains [OF su d(1)] client_fd_apart [OF su d(1)] u(4) True by blast
      then show ?thesis using True flows_tied(1) [OF d(2)] d(2) by (auto simp: J_def drained_def tied_def)
    next
      case False
      have fd: "pf_fd (sv_poll_fds u ! k) \<noteq> cl_fd c" by (rule other_entry [OF s i u(2) False u(1)])
      have "kept p d v" by (rule poll_step_others [OF su kept_self [OF d(1)] u(4)]) (use fd d(2) in simp)
      moreover have "kept p c v" if "kept p c u" by (rule poll_step_others [OF su that u(4) fd])
      ultimately show ?thesis using u(3) False drained_step [OF onward_poll_step [OF su u(4)] _ d(1)] by (auto simp: J_def)
    qed
  qed
  have "J 0 s" using kept_self [OF c] by (simp add: J_def)
  then have "returns (each (poll_step event) [0..<length (sv_poll_fds s)] s) (\<lambda>t. grows s t \<and> J (length (sv_poll_fds s)) t)"
    by (rule poll_loop_keeps [where J = J and event = event, OF s fresh _ le_refl]) (rule step)
  then show ?thesis using i(1) by (auto simp: J_def elim!: returns_mono)
qed

lemma iteration_drains:
  assumes s: "sound s" and fresh: "accept_fresh s (ev_accept (pe_event e 0))" and smooth: "pe_fault e = None" and ready: "0 \<le> pe_ready e"
    and t: "run_iteration e s = Some (go, t)"
    and c: "hp_client s p = Some c" and i: "i < length (sv_poll_fds s)" "pf_fd (sv_poll_fds s ! i) = cl_fd c" and c': "hp_client t p = Some c'"
  shows "flows (offered (pe_event e i)) c c'"
proof -
  obtain s1 where s1: "refreshPollEvents s = Some s1" "grows s s1" "sv_clients s1 = sv_clients s"
    using refreshPollEvents_sound [OF s] by (auto elim!: returnsE)
  have c1: "hp_client s1 p = Some c" using s1(1) c by (auto simp: refreshPollEvents_def bind_eq_Some_conv dest!: refresh_loop_same)
  obtain s2 where s2: "(if pe_ready e = 0 then listen_events {POLLIN} s1 else Some s1) = Some s2" "grows s1 s2" "sv_clients s2 = sv_clients s1" "hp_client s2 p = Some c"
    using sound_listen_events [OF grows_sound [OF s1(2)], of "{POLLIN}"] grows_refl [OF grows_sound [OF s1(2)]] c1
    by (cases "pe_ready e = 0") (auto elim!: returnsE simp: listen_eq split: if_splits)
  have g: "grows s s2" using grows_trans [OF s1(2) s2(2)] .
  have "accept_fresh s2 (ev_accept (pe_event e 0))" using fresh s1(2,3) s2(2,3) by (simp add: accept_fresh_def grows_def)
  note loop = poll_loop_drains [where event = "pe_event e", OF grows_sound [OF g] this s2(4) grows_nth(1) [OF g i(1)]]
  obtain s3 where s3: "each (poll_step (pe_event e)) [0..<length (sv_poll_fds s2)] s2 = Some s3" "sound s3" "drained (pe_event e i) p c s3"
    using loop grows_nth(2) [OF g i(1)] i(2) grows_sound by (auto elim!: returnsE)
  obtain s4 where s4: "cleanupDisconnected s3 = Some s4" "sound s4"
    using cleanupDisconnected_removes [OF soundD(1) [OF s3(2)]] soundD(2) [OF s3(2)] by (auto simp: sound_def elim!: returnsE)
  have idle: "checkIdleClients (pe_now e) s4 = Some t"
    using t s1(1) s2(1) s3(1) s4(1) ready by (auto simp: smooth_iteration [OF smooth] bind_eq_Some_conv simp del: upt_Suc)
  obtain n where n: "idle_first n (pe_now e) s4 = Some t" using checkIdleClients_first idle by metis
  obtain d4 where d4: "hp_client s4 p = Some d4" using idle_first_alive [OF s4(2) n, of p] c' by auto
  obtain d where d: "hp_client s3 p = Some d" "cl_fd d = cl_fd c" "cl_fd c \<in> marks s3 \<or> flows (offered (pe_event e i)) c d"
    using s3(3) by (auto simp: drained_def)
  have "cl_fd d \<notin> marks s3" using cleanup_leaves [OF s3(2) s4(1) d4] d(1) by auto
  then have flow: "flows (offered (pe_event e i)) c d" using d(2,3) by simp
  have first: "disconnect_first (length (sv_to_disconnected s3)) s3 = Some s4" using s4(1) by (simp add: disconnect_first_def cleanupDisconnected_def)
  have "tied d d4" by (rule cleanup_tied [OF s3(2) d(1) first d4])
  moreover have "tied d4 c'" using idle_first_kept [OF kept_self [OF d4] n] c' by (simp add: kept_def)
  ultimately show ?thesis using flows_tied(2) [OF flows_tied(2) [OF flow]] by blast
qed

end
