(* ===== verification/Irc_Lobby.thy ===== *)
theory Irc_Lobby
  imports Irc_Room_Steps Irc_Departure
begin

text \<open>
  The server as a whole implements an abstract lobby: who is connected and under which name, and the rooms. The lobby changes
  by deeds, each with its author: a client says a line, a client leaves, a client arrives. A line that is a command is obeyed
  exactly as \<open>room_command\<close> says, by the client that said it; anything else changes nothing. One iteration of the event loop is a sequence of deeds
  which the inputs account for: the entries of the poll set in order, each with the lines its own socket delivered, and then the
  clients that were removed, each of which was marked, was sent too much, or had something to report itself.
\<close>

section \<open>Deeds\<close>

text \<open>
  The abstract state: for every connected client its nickname and whether it is registered, and the rooms. The abstract events:
  a client says a line, is removed, or is accepted.
\<close>

type_synonym lobby = "(cptr \<Rightarrow> (string \<times> bool) option) \<times> rooms"

definition lobby :: "server \<Rightarrow> lobby" where
  "lobby s = (known s, rooms s)"

datatype deed = Says cptr string | Leaves cptr | Arrives cptr

text \<open>The directory of the registered clients, by nickname in any spelling\<close>

definition lists :: "(cptr \<Rightarrow> (string \<times> bool) option) \<Rightarrow> directory \<Rightarrow> bool" where
  "lists K who \<longleftrightarrow> (\<forall>nick q. who nick = Some q \<longleftrightarrow> (\<exists>n. K q = Some (n, True) \<and> toLower n = toLower nick))"

text \<open>The command a line stands for, if it is well-formed and known\<close>

definition spoken :: "string \<Rightarrow> (command \<times> string list) option" where
  "spoken raw = (case accepted (spliter raw Message0) of None \<Rightarrow> None
     | Some m \<Rightarrow> map_option (\<lambda>k. (k, m_parameter m)) (map_of Parser_commands (m_command m)))"

text \<open>Only PASS, NICK and USER change how their sender is known, only NICK its nickname, and a registration is never lost.\<close>

definition reintroduced :: "command \<Rightarrow> string list \<Rightarrow> string \<times> bool \<Rightarrow> string \<times> bool \<Rightarrow> bool" where
  "reintroduced k ps v w \<longleftrightarrow> w = v \<or> (snd v \<longrightarrow> snd w) \<and>
     (k \<in> {Pass, User} \<and> fst w = fst v \<or> k = Nick \<and> ps \<noteq> [] \<and> fst w = ps ! 0)"

text \<open>
  A line that is no command changes nothing, nor does a command that needs a registration its sender does not have; every other command is
  obeyed: the rooms become those \<open>room_command\<close> computes for this sender. Who leaves quits all rooms; who arrives is in none.
\<close>

inductive deed_step :: "deed \<Rightarrow> lobby \<Rightarrow> lobby \<Rightarrow> bool" where
  ignored: "spoken raw = None \<Longrightarrow> deed_step (Says p raw) L L"
| refused: "spoken raw = Some (k, ps) \<Longrightarrow> needLogin k \<Longrightarrow> K p = Some (n, False) \<Longrightarrow> deed_step (Says p raw) (K, R) (K, R)"
| obeyed: "spoken raw = Some (k, ps) \<Longrightarrow> K p = Some v \<Longrightarrow> (needLogin k \<Longrightarrow> snd v) \<Longrightarrow> lists K who \<Longrightarrow> reintroduced k ps v w \<Longrightarrow>
     deed_step (Says p raw) (K, R) (K(p \<mapsto> w), room_command k p who ps R)"
| leaves: "K p \<noteq> None \<Longrightarrow> deed_step (Leaves p) (K, R) (K(p := None), room_quit p R)"
| arrives: "K p = None \<Longrightarrow> deed_step (Arrives p) (K, R) (K(p \<mapsto> ([], False)), R)"

inductive_cases deed_stepE: "deed_step d L L'"

primrec happens :: "deed list \<Rightarrow> lobby \<Rightarrow> lobby \<Rightarrow> bool" where
  "happens [] L L' \<longleftrightarrow> L' = L"
| "happens (d # ds) L L' \<longleftrightarrow> (\<exists>M. deed_step d L M \<and> happens ds M L')"

lemma happens_append [simp]: "happens (ds @ es) L L' \<longleftrightarrow> (\<exists>M. happens ds L M \<and> happens es M L')"
  by (induction ds arbitrary: L) auto

lemma happens_single: "happens [d] L L' \<longleftrightarrow> deed_step d L L'"
  by (simp del: split_paired_Ex)

section \<open>Lines\<close>

text \<open>The complete lines of an input, each without its LF and a CR before it\<close>

definition chomp :: "string \<Rightarrow> string" where
  "chomp l = (if l \<noteq> [] \<and> last l = CR then butlast l else l)"

function lines_of :: "string \<Rightarrow> string list" where
  "lines_of b = (case dropWhile (\<lambda>x. x \<noteq> LF) b of [] \<Rightarrow> [] | _ # rest \<Rightarrow> chomp (takeWhile (\<lambda>x. x \<noteq> LF) b) # lines_of rest)"
  by pat_completeness auto
termination
proof (relation "measure length")
  show "(rest, b) \<in> measure length" if "dropWhile (\<lambda>x. x \<noteq> LF) b = x # rest" for b rest :: string and x
    using length_dropWhile_le [of "\<lambda>x. x \<noteq> LF" b] that by simp
qed simp

declare lines_of.simps [simp del]

lemma lines_of_split: "LF \<notin> set l \<Longrightarrow> lines_of (l @ LF # rest) = chomp l # lines_of rest"
proof -
  assume "LF \<notin> set l"
  then have "dropWhile (\<lambda>x. x \<noteq> LF) (l @ LF # rest) = LF # rest" "takeWhile (\<lambda>x. x \<noteq> LF) (l @ LF # rest) = l"
    by (induction l) auto
  then show ?thesis by (subst lines_of.simps) simp
qed

lemma lines_of_pop:
  assumes "hasCompleteLine c" "popLine c = (l, c')"
  shows "lines_of (cl_read_buffer c) = l # lines_of (cl_read_buffer c')"
  by (rule popLine_complete [OF assms(1)]) (use assms(2) in \<open>auto simp: lines_of_split chomp_def\<close>)

section \<open>One line\<close>

lemma lobby_eq: "known t = known s \<Longrightarrow> rooms t = rooms s \<Longrightarrow> lobby t = lobby s"
  by (simp add: lobby_def)

lemma lists_directory:
  assumes "sound s"
  shows "lists (known s) (directory s)"
proof -
  have "directory s nick = Some q \<longleftrightarrow> bears nick s q" for nick q
  proof -
    obtain r where "findClientByNickname nick s = Some r" "r = Some q \<longleftrightarrow> bears nick s q"
      using findClientByNickname_spec [OF soundD(1) [OF assms], of nick] by blast
    then show ?thesis by (cases r) (simp_all add: directory_def)
  qed
  moreover have "bears nick s q \<longleftrightarrow> (\<exists>n. known s q = Some (n, True) \<and> toLower n = toLower nick)" for nick q
    by (cases "hp_client s q") (auto simp: bears_def known_def)
  ultimately show ?thesis by (simp add: lists_def)
qed

lemma known_granted:
  assumes g: "known t q = known s q \<or> (\<exists>n r. known t q = Some (n, r) \<and> Identify q n \<in> granted k p msg s)"
    and reg: "registered_at q s \<Longrightarrow> registered_at q t"
  shows "q \<noteq> p \<Longrightarrow> known t q = known s q"
    and "q = p \<Longrightarrow> known s p = Some v \<Longrightarrow> known t p = Some w \<Longrightarrow> reintroduced k (m_parameter msg) v w"
proof -
  show "q \<noteq> p \<Longrightarrow> known t q = known s q"
    using g by (auto simp: granted_def pass_grants_def nick_grants_def same_nick_def split: if_splits)
  assume p: "q = p" "known s p = Some v" "known t p = Some w"
  then have "snd v \<longrightarrow> snd w" using reg by (auto simp: registered_at_def known_def)
  then show "reintroduced k (m_parameter msg) v w"
    using g p by (auto simp: reintroduced_def granted_def pass_grants_def nick_grants_def same_nick_def split: if_splits)
qed

lemma execute_deed:
  assumes s: "sound s" and p: "hp_client s p = Some c" and login: "needLogin k \<Longrightarrow> cl_is_registered c"
    and t: "execute k now p msg s = Some t" and raw: "spoken raw = Some (k, m_parameter msg)"
  shows "deed_step (Says p raw) (lobby s) (lobby t)"
proof -
  have rooms: "rooms t = room_command k p (directory s) (m_parameter msg) (rooms s)" using execute_rooms [OF s p, of k now msg] login t by simp
  have f: "frame_but (granted k p msg s) s t" using cmd.execute_keeps [OF s p, of k now msg] login t by (simp add: keeps_but_def)
  obtain d where d: "hp_client t p = Some d" using frame_client [OF f p] by metis
  let ?v = "(cl_nickname c, cl_is_registered c)" and ?w = "(cl_nickname d, cl_is_registered d)"
  have v: "known s p = Some ?v" "known t p = Some ?w" using p d by (simp_all add: known_def)
  have "known t q = known s q" if "q \<noteq> p" for q by (rule known_granted(1) [OF frameD(12) [OF f] frameD(10) [OF f] that])
  then have K: "known t = (known s)(p \<mapsto> ?w)" using v by auto
  have "reintroduced k (m_parameter msg) ?v ?w" by (rule known_granted(2) [OF frameD(12) [OF f] frameD(10) [OF f] refl v])
  from deed_step.obeyed [OF raw, of "known s" p ?v "directory s" ?w "rooms s"] this v(1) login lists_directory [OF s]
  show ?thesis unfolding lobby_def K rooms by simp
qed

lemma operate_deed:
  assumes s: "sound s" and p: "hp_client s p = Some c" and o: "operate now p raw s = Some (ok, t)"
  shows "deed_step (Says p raw) (lobby s) (lobby t)"
proof -
  obtain ok' msg where sp: "spliter raw Message0 = (ok', msg)" by (cases "spliter raw Message0")
  show ?thesis
  proof (cases "ok' \<and> (\<exists>k. map_of Parser_commands (m_command msg) = Some k)")
    case False
    then have "spoken raw = None" using sp by (auto simp: spoken_def accepted_def)
    moreover have "lobby t = lobby s" using o p sp False by (auto simp: operate_def dispatch_def Let_def heap_simps lobby_def split: if_splits)
    ultimately show ?thesis by (simp add: deed_step.ignored)
  next
    case True
    then obtain k where k: "map_of Parser_commands (m_command msg) = Some k" "ok'" by blast
    then have raw: "spoken raw = Some (k, m_parameter msg)" using sp by (simp add: spoken_def accepted_def)
    show ?thesis
    proof (cases "needLogin k \<and> \<not> cl_is_registered c")
      case True
      then have "lobby t = lobby s" using o p sp k by (auto simp: operate_def dispatch_def Let_def heap_simps lobby_def)
      then show ?thesis using deed_step.refused [OF raw, of "known s" p "cl_nickname c" "rooms s"] True p by (simp add: lobby_def known_def)
    next
      case False
      then have "execute k now p msg s = Some t" using o p sp k by (auto simp: operate_def dispatch_def Let_def heap_simps bind_eq_Some_conv)
      then show ?thesis using execute_deed [OF s p _ _ raw] False by blast
    qed
  qed
qed

section \<open>The lines of one client\<close>

lemma lobby_touch: "hp_client s p = Some c \<Longrightarrow> cl_nickname c' = cl_nickname c \<Longrightarrow> cl_is_registered c' = cl_is_registered c \<Longrightarrow> lobby (set_client p c' s) = lobby s"
  by (intro lobby_eq) (auto simp: known_def fun_eq_iff)

lemma lobby_mark [simp]: "lobby (markForDisconnection fd r s) = lobby s"
  by (intro lobby_eq known_cong) simp_all

text \<open>From \<open>s\<close> to \<open>t\<close> the client \<open>p\<close> is obeyed on the first lines of its input that are not blank.\<close>

definition hears :: "cptr \<Rightarrow> string list \<Rightarrow> server \<Rightarrow> server \<Rightarrow> bool" where
  "hears p input s t \<longleftrightarrow> (\<exists>n. happens (map (Says p) (filter (\<lambda>l. l \<noteq> []) (take n input))) (lobby s) (lobby t))"

lemma hears_nothing [simp]: "lobby t = lobby s \<Longrightarrow> hears p input s t"
  unfolding hears_def by (rule exI [of _ 0]) simp

lemma hears_blank: "hears p input s t \<Longrightarrow> hears p ([] # input) s t"
proof -
  assume "hears p input s t"
  then obtain n where "happens (map (Says p) (filter (\<lambda>l. l \<noteq> []) (take n input))) (lobby s) (lobby t)" by (auto simp: hears_def)
  then have "happens (map (Says p) (filter (\<lambda>l. l \<noteq> []) (take (Suc n) ([] # input)))) (lobby s) (lobby t)" by simp
  then show "hears p ([] # input) s t" unfolding hears_def by (rule exI)
qed

lemma hears_line: "deed_step (Says p l) (lobby s) (lobby u) \<Longrightarrow> l \<noteq> [] \<Longrightarrow> hears p input u t \<Longrightarrow> hears p (l # input) s t"
proof -
  assume l: "deed_step (Says p l) (lobby s) (lobby u)" "l \<noteq> []" and "hears p input u t"
  then obtain n where "happens (map (Says p) (filter (\<lambda>l. l \<noteq> []) (take n input))) (lobby u) (lobby t)" by (auto simp: hears_def)
  with l have "happens (map (Says p) (filter (\<lambda>l. l \<noteq> []) (take (Suc n) (l # input)))) (lobby s) (lobby t)"
    by (simp del: split_paired_Ex) blast
  then show "hears p (l # input) s t" unfolding hears_def by (rule exI)
qed

lemma hears_cong: "lobby s' = lobby s \<Longrightarrow> hears p input s' t \<longleftrightarrow> hears p input s t"
  by (simp add: hears_def)

lemma pop_sound:
  assumes "sound s" "hp_client s p = Some c" "popLine c = (l, c')"
  shows "sound (set_client p c' s)" "hp_client (set_client p c' s) p = Some c'" "lobby (set_client p c' s) = lobby s"
proof -
  note i = input_only_pop [OF assms(3)]
  show "sound (set_client p c' s)" by (rule touch_client_sound [OF assms(1,2) input_only_fields [OF i]])
  show "lobby (set_client p c' s) = lobby s" using i by (intro lobby_touch [OF assms(2)]) (auto simp: input_only_def)
qed simp

lemma pop_line:
  assumes "sound s" "hp_client s p = Some c" "popLine c = (l, c')" "operate now p l (set_client p c' s) = Some (ok, u)"
  shows "sound u" "deed_step (Says p l) (lobby s) (lobby u)" "\<exists>d. hp_client u p = Some d \<and> cl_read_buffer d = cl_read_buffer c'"
proof -
  note s1 = pop_sound [OF assms(1-3)]
  have k: "keeps_but (line_grants p l (set_client p c' s)) (set_client p c' s) u" using operate_keeps [OF s1(1,2), of now l] assms(4) by simp
  then show "sound u" by (simp add: keeps_but_def)
  show "deed_step (Says p l) (lobby s) (lobby u)" using operate_deed [OF s1(1,2) assms(4)] s1(3) by simp
  show "\<exists>d. hp_client u p = Some d \<and> cl_read_buffer d = cl_read_buffer c'"
    using frame_client [OF _ s1(2)] k unfolding keeps_but_def by metis
qed

lemma line_loop_hears:
  "line_loop now fd p s = Some t \<Longrightarrow> sound s \<Longrightarrow> hp_client s p = Some c \<Longrightarrow> hears p (lines_of (cl_read_buffer c)) s t"
proof (induction arbitrary: c rule: line_loop_induct)
  case (blank s d c' t)
  then have c: "c = d" "hasCompleteLine c" by (simp_all add: looping_def)
  note s1 = pop_sound [OF blank.prems blank(3) [folded c(1)]]
  have "hears p (lines_of (cl_read_buffer c')) (set_client p c' s) t" by (rule blank.IH [OF s1(1,2)])
  then show ?case using hears_blank lines_of_pop [OF c(2) blank(3) [folded c(1)]] hears_cong [OF s1(3)] by simp
next
  case (line s d l c' ok u t)
  then have c: "c = d" "hasCompleteLine c" by (simp_all add: looping_def)
  note u = pop_line [OF line.prems line(3) [folded c(1)] line(5)]
  obtain d' where d': "hp_client u p = Some d'" "cl_read_buffer d' = cl_read_buffer c'" using u(3) by blast
  have "hears p (lines_of (cl_read_buffer d')) u t" by (rule line.IH [OF u(1) d'(1)])
  then show ?case using hears_line [OF u(2) line(4)] lines_of_pop [OF c(2) line(3) [folded c(1)]] d'(2) by simp
qed simp

lemma lines_until_hears:
  assumes "lines_until n now fd p s = Some (thrown, t)" "sound s" "hp_client s p = Some c"
  shows "hears p (lines_of (cl_read_buffer c)) s t"
  using assms
proof (induction n arbitrary: s c)
  case 0
  then show ?case by simp
next
  case (Suc n)
  obtain l c' where pop: "popLine c = (l, c')" by (cases "popLine c")
  note s1 = pop_sound [OF Suc.prems(2,3) pop]
  show ?case
  proof (cases "\<not> isMarked fd s \<and> hasCompleteLine c \<and> \<not> omap_count fd (sv_closing s)")
    case True
    then have lines: "lines_of (cl_read_buffer c) = l # lines_of (cl_read_buffer c')" using lines_of_pop [OF _ pop] by simp
    show ?thesis
    proof (cases "l = []")
      case True
      then have "lines_until n now fd p (set_client p c' s) = Some (thrown, t)"
        using Suc.prems(1,3) pop \<open>\<not> isMarked fd s \<and> _\<close> by (simp add: Let_def del: omap_count_iff)
      then have "hears p (lines_of (cl_read_buffer c')) (set_client p c' s) t" by (rule Suc.IH [OF _ s1(1,2)])
      then show ?thesis using hears_blank lines True hears_cong [OF s1(3)] by simp
    next
      case False
      then obtain ok u where u: "operate now p l (set_client p c' s) = Some (ok, u)" "lines_until n now fd p u = Some (thrown, t)"
        using Suc.prems(1,3) pop \<open>\<not> isMarked fd s \<and> _\<close> by (auto simp: Let_def bind_eq_Some_conv simp del: omap_count_iff)
      note v = pop_line [OF Suc.prems(2,3) pop u(1)]
      obtain d' where d': "hp_client u p = Some d'" "cl_read_buffer d' = cl_read_buffer c'" using v(3) by blast
      have "hears p (lines_of (cl_read_buffer d')) u t" by (rule Suc.IH [OF u(2) v(1) d'(1)])
      then show ?thesis using hears_line [OF v(2) False] lines d'(2) by simp
    qed
  next
    case False
    then show ?thesis using Suc.prems(1,3) by (auto simp: Let_def split: if_splits simp del: omap_count_iff)
  qed
qed

text \<open>The input of a turn: what waits in the buffer, and what arrives if the socket is readable\<close>

definition arriving :: "event \<Rightarrow> string" where
  "arriving e = (case ev_recv e of Recv bytes \<Rightarrow> bytes | Recv_error \<Rightarrow> [])"

definition heard :: "event \<Rightarrow> client \<Rightarrow> string list" where
  "heard e c = (if ev_revents e \<inter> {POLLIN, POLLHUP} = {} then [] else lines_of (cl_read_buffer c @ arriving e))"

lemma receive_turn_hears:
  assumes s: "sound s" and fd: "map_of (sv_clients s) fd = Some p" "hp_client s p = Some c" and t: "receive_turn e fd s = Some (thrown, t)"
  shows "hears p (lines_of (cl_read_buffer c @ arriving e)) s t"
proof -
  define d where "d b = updateLastActivity (ev_now e) (c\<lparr>cl_read_buffer := cl_read_buffer c @ b\<rparr>)" for b
  have i: "input_only c (d b)" for b unfolding d_def by (rule input_only_arrival)
  have s1: "sound (set_client p (d b) s)" "lobby (set_client p (d b) s) = lobby s" "hp_client (set_client p (d b) s) p = Some (d b)" for b
    using touch_client_sound [OF s fd(2) input_only_fields [OF i]] i [of b] lobby_touch [OF fd(2)] by (auto simp: input_only_def)
  have "t = s \<or> (\<exists>r. t = markForDisconnection fd r s) \<or> (\<exists>r b. t = markForDisconnection fd r (set_client p (d b) s)) \<or>
      line_loop (ev_now e) fd p (set_client p (d (arriving e)) s) = Some t \<or>
      (\<exists>n. lines_until n (ev_now e) fd p (set_client p (d (arriving e)) s) = Some (thrown, t))"
    using t fd by (auto simp: receive_turn_def receiveData_def receiveData_until_def heap_simps d_def arriving_def
      split: option.splits recv_result.splits if_splits fault_point.splits)
  moreover have "hears p (lines_of (cl_read_buffer (d (arriving e)))) s t"
    if "line_loop (ev_now e) fd p (set_client p (d (arriving e)) s) = Some t"
    using line_loop_hears [OF that s1(1,3)] hears_cong [OF s1(2)] by simp
  moreover have "hears p (lines_of (cl_read_buffer (d (arriving e)))) s t"
    if "lines_until n (ev_now e) fd p (set_client p (d (arriving e)) s) = Some (thrown, t)" for n
    using lines_until_hears [OF that s1(1,3)] hears_cong [OF s1(2)] by simp
  moreover have "cl_read_buffer (d b) = cl_read_buffer c @ b" for b by (simp add: d_def updateLastActivity_def)
  ultimately show ?thesis using s1(2) by auto
qed

lemma hears_heard:
  assumes "hears p (lines_of (cl_read_buffer c @ arriving e)) s t" "ev_revents e \<inter> {POLLIN, POLLHUP} \<noteq> {}"
  shows "hears p (heard e c) s t"
  using assms by (auto simp: heard_def)

section \<open>One entry of the poll set\<close>

lemma known_sent: "hp_client v = (hp_client u)(q \<mapsto> d\<lparr>cl_write_buffer := b\<rparr>) \<Longrightarrow> hp_client u q = Some d \<Longrightarrow> known v = known u"
  by (auto simp: known_def fun_eq_iff)

lemma sendData_lobby:
  assumes s: "sound s" and t: "sendData fd k s = Some t"
  shows "lobby t = lobby s"
proof (rule lobby_eq [OF _ sendData_rooms [OF t]])
  show "known t = known s"
  proof (cases "map_of (sv_clients s) fd")
    case None
    then show ?thesis using sendData_absent [OF None] t by simp
  next
    case (Some q)
    obtain d where d: "hp_client s q = Some d" using client_of_fd [OF s Some] by metis
    from sendData_client [OF t Some d] obtain n where
      "hp_client t = (hp_client s)(q \<mapsto> d\<lparr>cl_write_buffer := drop n (cl_write_buffer d)\<rparr>)" by blast
    then show ?thesis using d by (rule known_sent)
  qed
qed

lemma client_turn_hears:
  assumes s: "sound s" and fd: "map_of (sv_clients s) fd = Some p" "hp_client s p = Some c" and t: "client_turn e fd s = Some t"
  shows "hears p (heard e c) s t"
proof -
  obtain thrown u where u: "(if POLLIN \<in> ev_revents e \<or> POLLHUP \<in> ev_revents e then receive_turn e fd s else Some (False, s)) = Some (thrown, u)"
      "(if thrown then Some (markForDisconnection fd ''Internal error'' u)
        else if POLLOUT \<in> ev_revents e \<and> \<not> isMarked fd u then sendData fd (ev_send e) u else Some u) = Some t"
    using t unfolding client_turn_def by (auto simp: bind_eq_Some_conv)
  have turn: "sound u \<and> hears p (heard e c) s u"
  proof (cases "POLLIN \<in> ev_revents e \<or> POLLHUP \<in> ev_revents e")
    case True
    then have r: "receive_turn e fd s = Some (thrown, u)" using u(1) by simp
    then show ?thesis using receive_turn_sound [OF s, of e fd] hears_heard [OF receive_turn_hears [OF s fd r]] True by auto
  qed (use u(1) s in simp)
  moreover have "lobby t = lobby u"
    using u(2) turn by (auto simp: sendData_lobby split: if_splits)
  ultimately show ?thesis by (simp add: hears_def)
qed

lemma entry_throws_hears:
  assumes s: "sound s" and fd: "map_of (sv_clients s) fd = Some p" "hp_client s p = Some c" and t: "entry_throws e fd s = Some (b, t)"
  shows "hears p (heard e c) s t"
proof (cases "t = s")
  case False
  then have r: "\<exists>b. receive_turn e fd s = Some (b, t)" "ev_revents e \<inter> {POLLIN, POLLHUP} \<noteq> {}"
    using t by (auto simp: entry_throws_def bind_eq_Some_conv split: if_splits)
  then show ?thesis using hears_heard [OF receive_turn_hears [OF s fd]] by blast
qed simp

lemma lobby_with_client: "hp_client s p = None \<Longrightarrow> deed_step (Arrives p) (lobby s) ((known s)(p \<mapsto> ([], False)), rooms s)"
  unfolding lobby_def by (rule deed_step.arrives) (simp add: known_def)

lemma accept_lobby:
  assumes s: "sound s" and t: "acceptNewClient now e s = Some t"
  shows "lobby t = lobby s \<or> (\<exists>p. hp_client s p = None \<and> deed_step (Arrives p) (lobby s) (lobby t))"
proof -
  let ?p = "CPtr (hp_next s)"
  have none: "hp_client s ?p = None" using wfD(6) [OF soundD(3) [OF s]] unfolding inv_alloc_def by (metis cptr.sel less_irrefl)
  have same: "lobby t = lobby s" if "hp_client t = hp_client s" by (rule lobby_eq [OF known_cong [OF that] accept_rooms [OF t]])
  have new: "deed_step (Arrives ?p) (lobby s) (lobby t)" if "known t = (known s)(?p \<mapsto> ([], False))"
    using lobby_with_client [OF none] that accept_rooms [OF t] by (simp add: lobby_def)
  have "hp_client t = hp_client s \<or> known t = (known s)(?p \<mapsto> ([], False))"
    using t none by (auto simp: acceptNewClient_def new_client_def accept_rollback_def delete_client_def on_client_def set_client_def Let_def
        listen_eq known_def fun_eq_iff new_Client_def setIp_def split: if_splits)
  then show ?thesis using same new none by blast
qed

text \<open>The deeds an entry of the poll set of \<open>s\<close> can lead to\<close>

definition entry_deeds :: "event \<Rightarrow> server \<Rightarrow> int \<Rightarrow> deed list \<Rightarrow> bool" where
  "entry_deeds ev s fd ds \<longleftrightarrow>
     (if fd = sv_server_fd s then ds = [] \<or> POLLIN \<in> ev_revents ev \<and> (\<exists>p. ds = [Arrives p])
      else \<exists>p c n. map_of (sv_clients s) fd = Some p \<and> hp_client s p = Some c \<and>
        ds = map (Says p) (filter (\<lambda>l. l \<noteq> []) (take n (heard ev c))))"

text \<open>What a client has not yet been read waits for its own entry.\<close>

definition unread :: "cptr \<Rightarrow> client \<Rightarrow> server \<Rightarrow> bool" where
  "unread p c s \<longleftrightarrow> (\<exists>d. hp_client s p = Some d \<and> cl_fd d = cl_fd c \<and> cl_read_buffer d = cl_read_buffer c)"

lemma unread_cong: "hp_client t p = hp_client s p \<Longrightarrow> unread p c t \<longleftrightarrow> unread p c s"
  by (simp add: unread_def)

lemma unread_other: "sound u \<Longrightarrow> unread p c u \<Longrightarrow> map_of (sv_clients u) fd = Some q \<Longrightarrow> fd \<noteq> cl_fd c \<Longrightarrow> q \<noteq> p"
  using owner(2) unfolding unread_def by metis

lemma unread_operate:
  assumes u: "sound u" "unread p c u" "hp_client u q = Some d" "operate now q l u = Some (ok, v)"
  shows "unread p c v"
proof -
  note f = operate_frame [OF u(1,3,4)]
  obtain d where d: "hp_client u p = Some d" "cl_fd d = cl_fd c" "cl_read_buffer d = cl_read_buffer c" using u(2) by (auto simp: unread_def)
  obtain d' where d': "hp_client v p = Some d'" "tied d d'" using frame_tied [OF f d(1)] by blast
  have "map_option cl_read_buffer (hp_client v p) = map_option cl_read_buffer (hp_client u p)" by (rule frameD(6) [OF f])
  then show ?thesis using d d' by (simp add: unread_def tied_def)
qed

lemma unread_set: "unread p c u \<Longrightarrow> q \<noteq> p \<Longrightarrow> unread p c (set_client q d u)"
  by (simp add: unread_def)

lemma unread_sends:
  assumes u: "sound u" "unread p c u" "fd \<noteq> cl_fd c" and v: "sendData fd k u = Some v"
  shows "unread p c v"
proof (cases "map_of (sv_clients u) fd")
  case None
  then show ?thesis using sendData_absent [OF None] v u(2) by simp
next
  case (Some q)
  obtain d where d: "hp_client u q = Some d" using client_of_fd [OF u(1) Some] by metis
  obtain n where "hp_client v = (hp_client u)(q \<mapsto> d\<lparr>cl_write_buffer := drop n (cl_write_buffer d)\<rparr>)"
    using sendData_client [OF v Some d] by blast
  then show ?thesis using unread_other [OF u(1,2) Some u(3)] u(2) unread_cong [of v p u c] by simp
qed

interpretation unread_turn: turn "\<lambda>u. fd = cl_fd c \<or> unread p c u" e fd for p c e fd
proof unfold_locales
  show "fd = cl_fd c \<or> unread p c (set_client q d' u)"
    if "sound u" "fd = cl_fd c \<or> unread p c u" "map_of (sv_clients u) fd = Some q" for u q d'
    using that unread_set [OF _ unread_other] by blast
  show "fd = cl_fd c \<or> unread p c v"
    if "sound u" "fd = cl_fd c \<or> unread p c u" "hp_client u q = Some d" "operate (ev_now e) q l u = Some (ok, v)" for u q d l ok v
    using that unread_operate by blast
  show "fd = cl_fd c \<or> unread p c v" if "sound u" "fd = cl_fd c \<or> unread p c u" "sendData fd (ev_send e) u = Some v" for u v
    using that unread_sends by blast
qed (simp add: unread_def)

lemma poll_step_unread:
  assumes u: "sound u" "unread p c u" and v: "poll_step event i u = Some v" and fd: "pf_fd (sv_poll_fds u ! i) \<noteq> cl_fd c"
  shows "unread p c v"
proof -
  have "unread p c w" if "acceptNewClient now e u = Some w" for now e w
    using u(2) accept_client [OF u(1) _ that] by (auto simp: unread_def)
  moreover have "unread p c w" if "client_turn (event i) (pf_fd (sv_poll_fds u ! i)) u = Some w" for w
    using unread_turn.turned [OF u(1) _ that, of c p] u(2) fd by simp
  ultimately show ?thesis using v u(2) by (auto simp: poll_step_def Let_def unread_def split: if_splits)
qed

text \<open>What the clients do in order of their entries\<close>

definition deeds_upto :: "(nat \<Rightarrow> event) \<Rightarrow> server \<Rightarrow> nat \<Rightarrow> lobby \<Rightarrow> bool" where
  "deeds_upto event s k L \<longleftrightarrow> (\<exists>dss. length dss = k \<and>
     (\<forall>i < k. entry_deeds (event i) s (pf_fd (sv_poll_fds s ! i)) (dss ! i)) \<and> happens (concat dss) (lobby s) L)"

lemma deeds_upto_0: "deeds_upto event s 0 (lobby s)"
  by (simp add: deeds_upto_def)

lemma deeds_upto_Suc:
  assumes "deeds_upto event s k L" "entry_deeds (event k) s (pf_fd (sv_poll_fds s ! k)) ds" "happens ds L M"
  shows "deeds_upto event s (Suc k) M"
proof -
  obtain dss where dss: "length dss = k" "\<forall>i < k. entry_deeds (event i) s (pf_fd (sv_poll_fds s ! i)) (dss ! i)"
    "happens (concat dss) (lobby s) L" using assms(1) by (auto simp: deeds_upto_def)
  have "happens (concat (dss @ [ds])) (lobby s) M" using dss(3) assms(3) by (simp del: split_paired_Ex) blast
  moreover have "entry_deeds (event i) s (pf_fd (sv_poll_fds s ! i)) ((dss @ [ds]) ! i)" if "i < Suc k" for i
    using that dss(1,2) assms(2) by (cases "i = k") (simp_all add: nth_append)
  ultimately show ?thesis unfolding deeds_upto_def using dss(1) by (intro exI [of _ "dss @ [ds]"]) simp
qed

definition polled_to :: "(nat \<Rightarrow> event) \<Rightarrow> server \<Rightarrow> nat \<Rightarrow> server \<Rightarrow> bool" where
  "polled_to event s k u \<longleftrightarrow> deeds_upto event s k (lobby u) \<and>
     (\<forall>p c. hp_client s p = Some c \<and> (\<forall>i < k. pf_fd (sv_poll_fds s ! i) \<noteq> cl_fd c) \<longrightarrow> unread p c u)"

lemma entry_of_client:
  assumes s: "sound s" and k: "k < length (sv_poll_fds s)" and fd: "pf_fd (sv_poll_fds s ! k) \<noteq> sv_server_fd s"
  obtains p c where "map_of (sv_clients s) (pf_fd (sv_poll_fds s ! k)) = Some p" "hp_client s p = Some c" "cl_fd c = pf_fd (sv_poll_fds s ! k)"
proof -
  let ?fd = "pf_fd (sv_poll_fds s ! k)"
  obtain e es where e: "sv_poll_fds s = e # es" "pf_fd e = sv_server_fd s" "pf_fd ` set es = fst ` set (sv_clients s)"
    by (rule inv_pollE [OF goodD(7) [OF soundD(1) [OF s]]])
  have "sv_poll_fds s ! k \<in> set es" using k fd e(1,2) by (cases k) auto
  then have "?fd \<in> fst ` set (sv_clients s)" using e(3) by blast
  then obtain p where p: "map_of (sv_clients s) ?fd = Some p" by (metis map_of_eq_None_iff not_None_eq)
  obtain c where "hp_client s p = Some c" "cl_fd c = ?fd" using client_of_fd [OF s p] by metis
  then show thesis using that p by blast
qed

lemma client_deeds:
  assumes s: "sound s" and u: "sound u" "polled_to event s k u" and k: "k < length (sv_poll_fds s)"
    and fd: "pf_fd (sv_poll_fds s ! k) = fd" "fd \<noteq> sv_server_fd s"
    and hears: "\<And>p d. map_of (sv_clients u) fd = Some p \<Longrightarrow> hp_client u p = Some d \<Longrightarrow> hears p (heard (event k) d) u v"
  shows "\<exists>ds. entry_deeds (event k) s fd ds \<and> happens ds (lobby u) (lobby v)"
proof -
  obtain p c where p: "map_of (sv_clients s) fd = Some p" "hp_client s p = Some c" "cl_fd c = fd"
    by (rule entry_of_client [OF s k]) (use fd in auto)
  have "pf_fd (sv_poll_fds s ! i) \<noteq> cl_fd c" if "i < k" for i
    using other_entry [OF s k fd(1), of i s] that k grows_refl [OF s] p(3) by simp
  then obtain d where d: "hp_client u p = Some d" "cl_fd d = fd" "cl_read_buffer d = cl_read_buffer c"
    using u(2) p(2,3) unfolding polled_to_def unread_def by metis
  have "map_of (sv_clients u) fd = Some p" using owner(1) [OF u(1) d(1)] d(2) by simp
  then obtain n where "happens (map (Says p) (filter (\<lambda>l. l \<noteq> []) (take n (heard (event k) d)))) (lobby u) (lobby v)"
    using hears [OF _ d(1)] by (auto simp: hears_def)
  moreover have "heard (event k) d = heard (event k) c" using d(3) by (simp add: heard_def)
  ultimately show ?thesis using p fd(2) by (auto simp: entry_deeds_def)
qed

lemma poll_step_deeds:
  assumes s: "sound s" and u: "grows s u" "polled_to event s k u" and k: "k < length (sv_poll_fds s)" and v: "poll_step event k u = Some v"
  shows "polled_to event s (Suc k) v"
proof -
  let ?fd = "pf_fd (sv_poll_fds s ! k)"
  have su: "sound u" by (rule grows_sound [OF u(1)])
  have fd: "pf_fd (sv_poll_fds u ! k) = ?fd" by (rule grows_nth(2) [OF u(1) k])
  have "\<exists>ds. entry_deeds (event k) s ?fd ds \<and> happens ds (lobby u) (lobby v)"
  proof (cases "?fd = sv_server_fd s")
    case True
    then have "v = u \<or> POLLIN \<in> ev_revents (event k) \<and> acceptNewClient (ev_now (event k)) (ev_accept (event k)) u = Some v"
      using v fd u(1) by (auto simp: poll_step_def Let_def grows_def split: if_splits)
    then consider "lobby v = lobby u" | p where "POLLIN \<in> ev_revents (event k)" "deed_step (Arrives p) (lobby u) (lobby v)"
      using accept_lobby [OF su] by blast
    then show ?thesis
    proof cases
      case 1
      then show ?thesis using True by (intro exI [of _ "[]"]) (simp add: entry_deeds_def)
    next
      case 2
      then have "entry_deeds (event k) s ?fd [Arrives p] \<and> happens [Arrives p] (lobby u) (lobby v)"
        using True unfolding happens_single by (simp add: entry_deeds_def)
      then show ?thesis by blast
    qed
  next
    case False
    have "hears p (heard (event k) d) u v" if "map_of (sv_clients u) ?fd = Some p" "hp_client u p = Some d" for p d
    proof (cases "client_turn (event k) ?fd u = Some v")
      case True
      then show ?thesis by (rule client_turn_hears [OF su that])
    next
      case n: False
      then have "lobby v = lobby u" using v fd False u(1) by (auto simp: poll_step_def Let_def grows_def split: if_splits)
      then show ?thesis by simp
    qed
    then show ?thesis by (rule client_deeds [OF s su u(2) k refl False])
  qed
  then obtain ds where ds: "entry_deeds (event k) s ?fd ds" "happens ds (lobby u) (lobby v)" by blast
  have "unread p c v" if "unread p c u" "?fd \<noteq> cl_fd c" for p c by (rule poll_step_unread [OF su that(1) v]) (simp add: fd that(2))
  then show ?thesis using u(2) deeds_upto_Suc [of event s k "lobby u", OF _ ds] by (simp add: polled_to_def)
qed

text \<open>The whole poll phase, whether an exception leaves it or not\<close>

lemma poll_phase_deeds:
  assumes s: "sound s" and fresh: "accept_fresh s (ev_accept (event 0))" and count: "count = length (sv_poll_fds s)"
    and t: "poll_phase f event count s = Some (thrown, t)"
  shows "grows s t" "\<exists>k \<le> count. deeds_upto event s k (lobby t)"
proof -
  have "polled_to event s 0 s" by (simp add: polled_to_def unread_def deeds_upto_0)
  then have phase: "\<exists>b w. poll_phase f event count s = Some (b, w) \<and> grows s w \<and>
      (\<not> b \<longrightarrow> polled_to event s count w \<and> each (poll_step event) [0..<count] s = Some w) \<and>
      (b \<longrightarrow> (\<exists>k u. k < count \<and> grows s u \<and> polled_to event s k u \<and> entry_throws (event k) (pf_fd (sv_poll_fds s ! k)) u = Some (True, w)))"
    by (rule poll_phase_keeps [where J = "polled_to event s" and event = event and f = f, OF s fresh _ count])
      (use poll_step_deeds [OF s] count in blast)
  then show "grows s t" using t by auto
  consider "polled_to event s count t"
    | k u where "k < count" "grows s u" "polled_to event s k u" "entry_throws (event k) (pf_fd (sv_poll_fds s ! k)) u = Some (True, t)"
    using phase t by (cases thrown) auto
  then show "\<exists>k \<le> count. deeds_upto event s k (lobby t)"
  proof cases
    case 1
    then show ?thesis by (auto simp: polled_to_def)
  next
    case 2
    have fd: "pf_fd (sv_poll_fds s ! k) \<noteq> sv_server_fd s" using 2(4) 2(2) by (auto simp: entry_throws_def grows_def)
    have "sound u" by (rule grows_sound [OF 2(2)])
    then have "\<exists>ds. entry_deeds (event k) s (pf_fd (sv_poll_fds s ! k)) ds \<and> happens ds (lobby u) (lobby t)"
      by (rule client_deeds [OF s _ 2(3) 2(1) [unfolded count] refl fd]) (use entry_throws_hears 2 \<open>sound u\<close> in blast)
    then have "deeds_upto event s (Suc k) (lobby t)" using deeds_upto_Suc 2(3) unfolding polled_to_def by blast
    then show ?thesis using 2(1) by (intro exI [of _ "Suc k"]) simp
  qed
qed

section \<open>One iteration\<close>

lemma gone_lobby:
  assumes u: "sound u" and v: "sound v" "gone p fd notice u v" and p: "hp_client u p = Some c"
  shows "deed_step (Leaves p) (lobby u) (lobby v)" "hp_client v p = None" "hp_client u q = None \<Longrightarrow> hp_client v q = None"
proof -
  have "known v = (known u)(p := None)"
    using v(2) by (auto simp: gone_def known_def fun_eq_iff option.map_comp o_def survivor_def)
  moreover have "rooms v = room_quit p (rooms u)" by (rule gone_rooms [OF u soundD(1) [OF v(1)] v(2)])
  moreover have "known u p \<noteq> None" using p by (simp add: known_def)
  ultimately show "deed_step (Leaves p) (lobby u) (lobby v)" unfolding lobby_def using deed_step.leaves by simp
  show "hp_client v p = None" "hp_client u q = None \<Longrightarrow> hp_client v q = None" using v(2) by (auto simp: gone_def)
qed

text \<open>Between \<open>s\<close> and \<open>t\<close> the clients \<open>ps\<close> have been removed; they were marked.\<close>

definition cleared :: "server \<Rightarrow> server \<Rightarrow> bool" where
  "cleared s t \<longleftrightarrow> (\<exists>ps. (\<forall>p \<in> set ps. hp_client t p = None \<and> (\<exists>c. hp_client s p = Some c \<and> cl_fd c \<in> marks s)) \<and>
     happens (map Leaves ps) (lobby s) (lobby t))"

lemma cleared_same: "lobby t = lobby s \<Longrightarrow> cleared s t"
  unfolding cleared_def by (rule exI [of _ "[]"]) simp

text \<open>The clients of \<open>u\<close> are clients of \<open>s\<close>.\<close>

definition remains :: "server \<Rightarrow> server \<Rightarrow> bool" where
  "remains s u \<longleftrightarrow> (\<forall>p d. hp_client u p = Some d \<longrightarrow> (\<exists>c. hp_client s p = Some c \<and> cl_fd c = cl_fd d))"

lemma remains_gone: "remains s u \<Longrightarrow> gone q fd notice u v \<Longrightarrow> remains s v"
proof -
  assume r: "remains s u" and g: "gone q fd notice u v"
  have "\<exists>c. hp_client s p = Some c \<and> cl_fd c = cl_fd d" if d: "hp_client v p = Some d" for p d
  proof -
    obtain c where "hp_client u p = Some c" "tied c d" using gone_tied [OF g d] by blast
    then show ?thesis using r unfolding remains_def tied_def by metis
  qed
  then show "remains s v" by (simp add: remains_def)
qed

lemma cleared_gone:
  assumes s: "cleared s u" "remains s u" and u: "sound u" "sound v" "gone p fd notice u v" "hp_client u p = Some c" and fd: "cl_fd c \<in> marks s"
  shows "cleared s v"
proof -
  obtain ps where ps: "\<forall>p \<in> set ps. hp_client u p = None \<and> (\<exists>c. hp_client s p = Some c \<and> cl_fd c \<in> marks s)"
    "happens (map Leaves ps) (lobby s) (lobby u)" using s(1) by (auto simp: cleared_def)
  note g = gone_lobby [OF u]
  have "happens [Leaves p] (lobby u) (lobby v)" using g(1) unfolding happens_single .
  then have "happens (map Leaves (ps @ [p])) (lobby s) (lobby v)" using ps(2) unfolding map_append happens_append list.map by blast
  moreover have "\<exists>c. hp_client s p = Some c \<and> cl_fd c \<in> marks s" using s(2) u(4) fd unfolding remains_def by metis
  then have "\<forall>q \<in> set (ps @ [p]). hp_client v q = None \<and> (\<exists>c. hp_client s q = Some c \<and> cl_fd c \<in> marks s)" using ps(1) g(2,3) by auto
  ultimately show ?thesis unfolding cleared_def by blast
qed

lemma cleanup_cleared:
  assumes s: "sound s" and t: "disconnect_first n s = Some t"
  shows "cleared s t"
proof -
  have "cleared s t \<and> remains s t"
  proof (rule disconnect_first_keeps [where J = "\<lambda>u. cleared s u \<and> remains s u", OF s _ t])
    have "lobby (s\<lparr>sv_to_disconnected := []\<rparr>) = lobby s" by (intro lobby_eq rooms_cong known_cong) simp_all
    then show "cleared s (s\<lparr>sv_to_disconnected := []\<rparr>) \<and> remains s (s\<lparr>sv_to_disconnected := []\<rparr>)"
      using cleared_same by (simp add: remains_def)
    show "cleared s v \<and> remains s v"
      if "sound u" "sound v" "cleared s u \<and> remains s u" "hp_client u p = Some c" "cl_fd c = fd" "fd \<in> fst ` set (sv_to_disconnected s)"
        "gone p fd notice u v" for u v p c fd notice
      using cleared_gone [OF _ _ that(1,2,7,4)] remains_gone [OF _ that(7)] that(3,5,6) by (simp add: marks_def)
  qed
  then show ?thesis by simp
qed

lemma idle_lobby:
  assumes t: "idle_first n now s = Some t"
  shows "lobby t = lobby s"
proof (rule lobby_eq [OF _ idle_rooms [OF t]])
  have step: "known u = known s" if u: "idle_step now it s = Some u" for it s u
  proof -
    obtain f where f: "hp_client s (snd it) = Some f" using u by (auto simp: idle_step_def bind_eq_Some_conv)
    show ?thesis
      using u f by (auto simp: idle_step_def disconnectAfterFlush_eq [OF f] on_client_def sendReply_emit markClosing_def setPingSent_def
        known_def fun_eq_iff Let_def split: if_splits option.splits)
  qed
  have "known u = known s" if "each (idle_step now) es s = Some u" for es s u
    using that by (induction es arbitrary: s) (auto simp: bind_eq_Some_conv dest!: step)
  then show "known t = known s" using t by (auto simp: idle_first_def)
qed

lemma idle_cleared:
  assumes s: "sound s" and u: "cleared r s" and t: "idle_first n now s = Some t"
  shows "cleared r t"
proof -
  have "hp_client t p = None" if "hp_client s p = None" for p using idle_first_alive [OF s t] that by blast
  then show ?thesis using u unfolding cleared_def idle_lobby [OF t] by blast
qed

lemma refresh_lobby:
  assumes "refresh_loop es s = Some (es', t)"
  shows "lobby (t\<lparr>sv_poll_fds := fds\<rparr>) = lobby s"
  using refresh_loop_same [OF assms] by (intro lobby_eq refresh_rooms [OF assms] known_cong) simp

lemma listen_lobby: "listen_events ev s = Some t \<Longrightarrow> lobby t = lobby s"
  by (intro lobby_eq) (auto simp: listen_rooms listen_eq intro: known_cong split: if_splits)

lemma entry_deeds_cong:
  "sv_server_fd t = sv_server_fd s \<Longrightarrow> sv_clients t = sv_clients s \<Longrightarrow> hp_client t = hp_client s \<Longrightarrow>
     entry_deeds e t fd ds \<longleftrightarrow> entry_deeds e s fd ds"
  by (simp add: entry_deeds_def)

lemma deeds_upto_cong:
  assumes "grows s t" "sv_clients t = sv_clients s" "hp_client t = hp_client s" "lobby t = lobby s" "k \<le> length (sv_poll_fds s)"
  shows "deeds_upto event t k L \<longleftrightarrow> deeds_upto event s k L"
proof -
  have "sv_server_fd t = sv_server_fd s" using assms(1) by (simp add: grows_def)
  note e = entry_deeds_cong [OF this assms(2,3)]
  have "pf_fd (sv_poll_fds t ! i) = pf_fd (sv_poll_fds s ! i)" if "i < k" for i
    using grows_nth(2) [OF assms(1)] that assms(5) by simp
  then show ?thesis using assms(4) by (auto simp: deeds_upto_def e)
qed

lemma poll_count:
  assumes "sound s"
  shows "length (sv_poll_fds s) = card (insert (sv_server_fd s) (fst ` set (sv_clients s)))"
proof -
  obtain e es where e: "sv_poll_fds s = e # es" "pf_fd e = sv_server_fd s" "pf_fd ` set es = fst ` set (sv_clients s)"
    "distinct (map pf_fd (e # es))" by (rule inv_pollE [OF goodD(7) [OF soundD(1) [OF assms]]])
  from distinct_card [OF e(4)] show ?thesis using e(1-3) by simp
qed

lemma grows_same: "sound s \<Longrightarrow> grows s t \<Longrightarrow> sv_clients t = sv_clients s \<Longrightarrow> length (sv_poll_fds t) = length (sv_poll_fds s)"
  using poll_count [of s] poll_count [of t] by (simp add: grows_def)

text \<open>Who is marked before the clean-up: who was already, who has too much output waiting, and who had something to report\<close>

lemma sendData_marks: "sendData fd k u = Some v \<Longrightarrow> marks v \<subseteq> insert fd (marks u)"
proof (cases "map_of (sv_clients u) fd")
  case None
  then show "sendData fd k u = Some v \<Longrightarrow> marks v \<subseteq> insert fd (marks u)" by (auto simp: sendData_absent)
next
  case (Some q)
  assume v: "sendData fd k u = Some v"
  then obtain d where "hp_client u q = Some d" using Some by (auto simp: sendData_def bind_eq_Some_conv)
  then show "marks v \<subseteq> insert fd (marks u)" using v Some by (auto simp: sendData_def heap_simps Let_def split: if_splits option.splits)
qed

interpretation marks_turn: turn "\<lambda>u. marks u \<subseteq> insert fd M" e fd for fd M e
proof unfold_locales
  show "marks v \<subseteq> insert fd M" if "sound u" "marks u \<subseteq> insert fd M" "hp_client u q = Some c" "operate (ev_now e) q l u = Some (ok, v)" for u q c l ok v
    using frameD(2) [OF operate_frame [OF that(1,3,4)]] that(2) by (simp add: marks_def)
qed (use sendData_marks in \<open>fastforce+\<close>)

lemma poll_step_marks:
  assumes u: "sound u" and v: "poll_step event i u = Some v"
  shows "marks v \<subseteq> marks u \<union> (if ev_revents (event i) = {} then {} else {pf_fd (sv_poll_fds u ! i)})"
proof -
  have "marks w = marks u" if "acceptNewClient now e u = Some w" for now e w
    using that by (auto simp: acceptNewClient_def new_client_def accept_rollback_def delete_client_def on_client_def set_client_def Let_def listen_eq
        marks_def split: if_splits)
  moreover have "marks w \<subseteq> insert fd (marks u)" if "client_turn (event i) fd u = Some w" for fd w
    using marks_turn.turned [OF u _ that] by blast
  ultimately show ?thesis using v by (auto simp: poll_step_def Let_def split: if_splits)
qed

lemma poll_phase_marks:
  assumes s: "sound s" and fresh: "accept_fresh s (ev_accept (event 0))" and t: "poll_phase f event (length (sv_poll_fds s)) s = Some (thrown, t)"
  shows "marks t \<subseteq> marks s \<union> {pf_fd (sv_poll_fds s ! i) |i. i < length (sv_poll_fds s) \<and> ev_revents (event i) \<noteq> {}}" (is "_ \<subseteq> ?M")
proof -
  have step: "marks v \<subseteq> ?M" if u: "grows s u" "k < length (sv_poll_fds s)" "marks u \<subseteq> ?M" "poll_step event k u = Some v" for k u v
  proof -
    have "pf_fd (sv_poll_fds u ! k) = pf_fd (sv_poll_fds s ! k)" by (rule grows_nth(2) [OF u(1,2)])
    then show ?thesis using poll_step_marks [OF grows_sound [OF u(1)] u(4)] u(2,3) by (auto split: if_splits)
  qed
  have phase: "\<exists>b w. poll_phase f event (length (sv_poll_fds s)) s = Some (b, w) \<and> grows s w \<and>
      (\<not> b \<longrightarrow> marks w \<subseteq> ?M \<and> each (poll_step event) [0..<length (sv_poll_fds s)] s = Some w) \<and>
      (b \<longrightarrow> (\<exists>k u. k < length (sv_poll_fds s) \<and> grows s u \<and> marks u \<subseteq> ?M \<and> entry_throws (event k) (pf_fd (sv_poll_fds s ! k)) u = Some (True, w)))"
    by (rule poll_phase_keeps [where J = "\<lambda>_ u. marks u \<subseteq> ?M" and event = event and f = f, OF s fresh _ refl]) (simp, rule step)
  have "marks t \<subseteq> ?M" if k: "k < length (sv_poll_fds s)" "grows s u" "marks u \<subseteq> ?M" "entry_throws (event k) (pf_fd (sv_poll_fds s ! k)) u = Some (True, t)" for k u
  proof -
    have "marks t \<subseteq> insert (pf_fd (sv_poll_fds s ! k)) (marks u)"
      by (rule marks_turn.threw [OF grows_sound [OF k(2)] _ k(4)]) blast
    moreover have "ev_revents (event k) \<noteq> {}" using k(4) by (auto simp: entry_throws_def)
    ultimately show ?thesis using k(1,3) by blast
  qed
  then show ?thesis using phase t by (cases thrown) auto
qed

lemma marks_connected: "sound s \<Longrightarrow> marks s \<subseteq> fst ` set (sv_clients s)"
  using goodD(6) [of s] soundD(1) [of s] by (simp add: inv_sched_def marks_def)

lemma connected_owner: "sound s \<Longrightarrow> fd \<in> fst ` set (sv_clients s) \<Longrightarrow> \<exists>p c. hp_client s p = Some c \<and> cl_fd c = fd"
  by (metis connected_client soundD(3))

lemma connected_polled:
  assumes "sound s" "fd \<in> fst ` set (sv_clients s)"
  obtains i where "i < length (sv_poll_fds s)" "pf_fd (sv_poll_fds s ! i) = fd"
proof -
  obtain e es where e: "sv_poll_fds s = e # es" "pf_fd ` set es = fst ` set (sv_clients s)"
    by (rule inv_pollE [OF goodD(7) [OF soundD(1) [OF assms(1)]]])
  then have "fd \<in> pf_fd ` set (sv_poll_fds s)" using assms(2) by simp
  then show thesis using that by (metis imageE in_set_conv_nth)
qed

lemma marked_origin:
  assumes s: "sound s" and fresh: "accept_fresh s (ev_accept (event 0))" and t: "poll_phase f event (length (sv_poll_fds s)) s = Some (thrown, t)"
    and p: "hp_client t p = Some c" "cl_fd c \<in> marks t"
  shows "\<exists>b. hp_client s p = Some b \<and> cl_fd b = cl_fd c"
proof -
  have g: "grows s t" by (rule poll_phase_deeds(1) [OF s fresh refl t])
  then have st: "sound t" by (rule grows_sound)
  have "cl_fd c \<in> fst ` set (sv_clients s)"
  proof (cases "cl_fd c \<in> marks s")
    case True
    then show ?thesis using marks_connected [OF s] by blast
  next
    case False
    then have "cl_fd c \<in> {pf_fd (sv_poll_fds s ! i) |i. i < length (sv_poll_fds s) \<and> ev_revents (event i) \<noteq> {}}"
      using poll_phase_marks [OF s fresh t] p(2) by blast
    then obtain i where i: "i < length (sv_poll_fds s)" "pf_fd (sv_poll_fds s ! i) = cl_fd c" by force
    have "cl_fd c \<noteq> sv_server_fd t" using server_fd_apart [OF st] marks_connected [OF st] p(2) by auto
    moreover have "sv_server_fd t = sv_server_fd s" using g by (simp add: grows_def)
    ultimately have "pf_fd (sv_poll_fds s ! i) \<noteq> sv_server_fd s" using i(2) by simp
    then obtain q b where "map_of (sv_clients s) (cl_fd c) = Some q" using entry_of_client [OF s i(1)] i(2) by metis
    then show ?thesis by (metis domI dom_map_of_conv_image_fst)
  qed
  then obtain q b i where q: "hp_client s q = Some b" "cl_fd b = cl_fd c" and i: "i < length (sv_poll_fds s)" "pf_fd (sv_poll_fds s ! i) = cl_fd b"
    using connected_owner [OF s] connected_polled [OF s] by metis
  obtain d where d: "hp_client t q = Some d" "cl_fd d = cl_fd b"
    using streamed_client [OF poll_phase_stream(1) [OF s fresh q(1) i t]] by blast
  have "q = p" using owner(1) [OF st d(1)] owner(1) [OF st p(1)] d(2) q(2) by simp
  then show ?thesis using q by blast
qed

text \<open>A client is expelled if it was marked, has too much output waiting, or if its own socket had something to report.\<close>

definition expelled :: "poll_env \<Rightarrow> server \<Rightarrow> cptr \<Rightarrow> bool" where
  "expelled e s p \<longleftrightarrow> (\<exists>c. hp_client s p = Some c \<and>
     (isMarked (cl_fd c) s \<or> length (cl_write_buffer c) > MAX_SENDQ \<or>
      (\<exists>i < length (sv_poll_fds s). pf_fd (sv_poll_fds s ! i) = cl_fd c \<and> ev_revents (pe_event e i) \<noteq> {})))"

definition backlogged :: "server \<Rightarrow> int set" where
  "backlogged s = {cl_fd c |p c. hp_client s p = Some c \<and> length (cl_write_buffer c) > MAX_SENDQ}"

lemma refresh_marks:
  assumes s: "sound s" and t: "refresh_loop es s = Some (es', t)"
  shows "marks t \<subseteq> marks s \<union> backlogged s"
proof -
  have "marks t \<subseteq> marks u \<union> backlogged s" if "refresh_loop es u = Some (es', t)" "hp_client u = hp_client s" "sv_clients u = sv_clients s" for es es' u
    using that
  proof (induction es arbitrary: u es')
    case (Cons e es)
    have full: "pf_fd e \<in> backlogged s" if "map_of (sv_clients s) (pf_fd e) = Some p" "hp_client s p = Some c" "length (cl_write_buffer c) > MAX_SENDQ" for p c
    proof -
      have "cl_fd c = pf_fd e" using client_of_fd [OF s that(1)] that(2) by auto
      then show ?thesis using that(2,3) unfolding backlogged_def by (intro CollectI exI [of _ p] exI [of _ c]) simp
    qed
    obtain u' es1 where u': "refresh_loop es u' = Some (es1, t)" "u' = u \<or> (\<exists>r. u' = markForDisconnection (pf_fd e) r u \<and> pf_fd e \<in> backlogged s)"
      using Cons.prems full by (fastforce simp: bind_eq_Some_conv split: if_splits option.splits)
    then have "marks t \<subseteq> marks u' \<union> backlogged s" "marks u' \<subseteq> marks u \<union> backlogged s" using Cons.IH [OF u'(1)] Cons.prems(2,3) by auto
    then show ?case by blast
  qed simp
  then show ?thesis using t by blast
qed

lemma cleared_expels:
  assumes m: "cleared m t" and "\<And>p c. hp_client m p = Some c \<Longrightarrow> cl_fd c \<in> marks m \<Longrightarrow> expelled e s p"
  obtains ps where "\<forall>p \<in> set ps. expelled e s p \<and> hp_client t p = None" "happens (map Leaves ps) (lobby m) (lobby t)"
  using assms unfolding cleared_def by meson

lemma iteration_deeds:
  assumes s: "sound s" and fresh: "accept_fresh s (ev_accept (pe_event e 0))" and t: "run_iteration e s = Some (go, t)"
  shows "\<exists>k \<le> length (sv_poll_fds s). \<exists>L ps. deeds_upto (pe_event e) s k L \<and> (\<forall>p \<in> set ps. expelled e s p \<and> hp_client t p = None) \<and>
    happens (map Leaves ps) L (lobby t)"
proof -
  have refresh: "grows s s1 \<and> sv_clients s1 = sv_clients s \<and> hp_client s1 = hp_client s \<and> lobby s1 = lobby s \<and> marks s1 \<subseteq> marks s \<union> backlogged s"
    if run: "refresh_phase (pe_fault e) s = Some (b, s1)" for b s1
  proof -
    have "grows s s1 \<and> sv_clients s1 = sv_clients s \<and>
        (\<exists>n es es' u. refresh_loop (take n (sv_poll_fds s)) s = Some (es, u) \<and> s1 = u\<lparr>sv_poll_fds := es'\<rparr>)"
      using refresh_phase_loop [OF s, of "pe_fault e"] run by simp
    then obtain n es es' u where u: "refresh_loop (take n (sv_poll_fds s)) s = Some (es, u)" "s1 = u\<lparr>sv_poll_fds := es'\<rparr>"
      "grows s s1" "sv_clients s1 = sv_clients s" by blast
    then show ?thesis using refresh_lobby [OF u(1)] refresh_loop_same [OF u(1)] refresh_marks [OF s u(1)] by simp
  qed
  from t show ?thesis
  proof (cases rule: iteration_phases)
    case early
    then have "lobby t = lobby s" using refresh by blast
    then have "happens (map Leaves []) (lobby s) (lobby t)" by simp
    then show ?thesis using deeds_upto_0 [of "pe_event e" s] by (intro exI [of _ 0] exI [of _ "lobby s"] exI [of _ "[]"] conjI) simp_all
  next
    case (polled s1 s2 b3 s3)
    note s1 = refresh [OF polled(2)]
    have s2: "grows s1 s2 \<and> sv_clients s2 = sv_clients s1 \<and> hp_client s2 = hp_client s1 \<and> lobby s2 = lobby s1 \<and> marks s2 = marks s1"
      using sound_listen_events [OF grows_sound, of s s1 "{POLLIN}"] polled(4) s1 grows_refl [OF grows_sound, of s s1]
        listen_lobby [of "{POLLIN}" s1 s2]
      by (auto simp: listen_eq split: if_splits)
    have g: "grows s s2" using grows_trans s1 s2 by blast
    note g2 = grows_sound [OF g]
    have count: "length (sv_poll_fds s2) = length (sv_poll_fds s)" by (rule grows_same [OF s g]) (use s1 s2 in simp)
    have fresh2: "accept_fresh s2 (ev_accept (pe_event e 0))" using fresh g s1 s2 by (simp add: accept_fresh_def grows_def)
    obtain k where k: "k \<le> length (sv_poll_fds s2)" "deeds_upto (pe_event e) s2 k (lobby s3)" and s3: "sound s3"
      using poll_phase_deeds [OF g2 fresh2 refl polled(5)] grows_sound by blast
    have k: "k \<le> length (sv_poll_fds s)" "deeds_upto (pe_event e) s k (lobby s3)"
      using k count deeds_upto_cong [OF g, of k] s1 s2 by simp_all
    have expels: "expelled e s p" if p: "hp_client s3 p = Some c" "cl_fd c \<in> marks s3" for p c
    proof -
      obtain b where b: "hp_client s p = Some b" "cl_fd b = cl_fd c" using marked_origin [OF g2 fresh2 polled(5) p] s1 s2 by auto
      have fds: "pf_fd (sv_poll_fds s2 ! i) = pf_fd (sv_poll_fds s ! i)" if "i < length (sv_poll_fds s)" for i using grows_nth(2) [OF g that] .
      have "cl_fd c \<in> marks s \<union> backlogged s \<union> {pf_fd (sv_poll_fds s2 ! i) |i. i < length (sv_poll_fds s2) \<and> ev_revents (pe_event e i) \<noteq> {}}"
        using poll_phase_marks [OF g2 fresh2 polled(5)] p(2) s1 s2 by blast
      moreover have "length (cl_write_buffer b) > MAX_SENDQ" if full: "cl_fd c \<in> backlogged s"
      proof -
        obtain q d where d: "cl_fd c = cl_fd d" "hp_client s q = Some d" "length (cl_write_buffer d) > MAX_SENDQ"
          using full unfolding backlogged_def by blast
        then have "q = p" using owner(1) [OF s d(2)] owner(1) [OF s b(1)] b(2) by simp
        then show ?thesis using d(2,3) b(1) by simp
      qed
      ultimately show ?thesis using b fds count by (auto simp: expelled_def isMarked_iff)
    qed
    have "cleared s3 t"
    proof (cases b3)
      case False
      then obtain b4 s4 where s4: "cleanup_phase (pe_fault e) s3 = Some (b4, s4)" "t = s4 \<or> (\<exists>b5. idle_phase (pe_fault e) (pe_now e) s4 = Some (b5, t))"
        using polled(6) by (auto split: if_splits)
      obtain n where n: "disconnect_first n s3 = Some s4" using cleanup_phase_first [OF s3, of "pe_fault e"] s4(1) by auto
      have s5: "sound s4" "cleared s3 s4" using disconnect_first_sound [OF s3, of n] n cleanup_cleared [OF s3 n] by auto
      have "cleared s3 t" if idle: "idle_phase (pe_fault e) (pe_now e) s4 = Some (b5, t)" for b5
      proof -
        obtain m where "idle_first m (pe_now e) s4 = Some t" using idle_phase_first [OF s5(1), of "pe_fault e" "pe_now e"] idle by auto
        then show ?thesis by (rule idle_cleared [OF s5])
      qed
      then show ?thesis using s4(2) s5(2) by blast
    qed (use polled(6) cleared_same in simp)
    then obtain ps where "\<forall>p \<in> set ps. expelled e s p \<and> hp_client t p = None" "happens (map Leaves ps) (lobby s3) (lobby t)"
      by (rule cleared_expels) (rule expels)
    then show ?thesis using k by blast
  qed
qed

end
