(* ===== verification/Irc_Registry.thy ===== *)
theory Irc_Registry
  imports Irc_Dispatch
begin

text \<open>
  \<open>CommandRegistry\<close> with its pointers: who owns the command objects, what \<open>registerCommand\<close> and the destructor delete, and
  that dispatching through the pointers is the \<open>dispatch\<close> of \<open>Irc_Dispatch\<close>.
\<close>

section \<open>Objects\<close>

datatype kptr = KPtr (kptr_addr: nat)

record command_registry =
  rg_commands :: "(string, kptr) omap"
  hp_command :: "kptr \<Rightarrow> command option"
  hp_next_command :: nat

definition new_CommandRegistry :: command_registry where
  "new_CommandRegistry = \<lparr>rg_commands = [], hp_command = Map.empty, hp_next_command = 0\<rparr>"

definition new_command :: "command \<Rightarrow> command_registry \<Rightarrow> kptr \<times> command_registry" where
  "new_command k r = (KPtr (hp_next_command r),
     r\<lparr>hp_command := (hp_command r)(KPtr (hp_next_command r) \<mapsto> k), hp_next_command := Suc (hp_next_command r)\<rparr>)"

definition delete_command :: "kptr \<Rightarrow> command_registry \<Rightarrow> command_registry option" where
  "delete_command c r = do { _ \<leftarrow> hp_command r c; Some (r\<lparr>hp_command := (hp_command r)(c := None)\<rparr>) }"

text \<open>\<open>registerCommand\<close> with the object it is given: the object registered before under the name is deleted.\<close>

definition register_object :: "string \<Rightarrow> kptr \<Rightarrow> command_registry \<Rightarrow> command_registry option" where
  "register_object name command r = do {
     r \<leftarrow> (case map_of (rg_commands r) name of None \<Rightarrow> Some r | Some old \<Rightarrow> delete_command old r);
     Some (r\<lparr>rg_commands := omap_put name command (rg_commands r)\<rparr>) }"

text \<open>The constructor of \<open>Parser\<close>, for any list of registrations\<close>

definition register_new :: "string \<times> command \<Rightarrow> command_registry \<Rightarrow> command_registry option" where
  "register_new e r = (case new_command (snd e) r of (c, r) \<Rightarrow> register_object (fst e) c r)"

definition new_Parser :: "command_registry option" where
  "new_Parser = each register_new Parser_table new_CommandRegistry"

text \<open>The destructor\<close>

definition destroy_CommandRegistry :: "command_registry \<Rightarrow> command_registry option" where
  "destroy_CommandRegistry r = each (\<lambda>it. delete_command (snd it)) (rg_commands r) r"

text \<open>\<open>dispatch\<close> through the pointers\<close>

definition dispatch_object :: "command_registry \<Rightarrow> int \<Rightarrow> cptr \<Rightarrow> message \<Rightarrow> server \<Rightarrow> server option" where
  "dispatch_object r now client message s = do {
     c \<leftarrow> hp_client s client;
     case map_of (rg_commands r) (m_command message) of
       None \<Rightarrow> do {
         let target = (if cl_is_registered c then cl_nickname c else ''*'');
         reply client (formatReplyWithParameter ERR_UNKNOWNCOMMAND target (m_command message) ''Unknown command'') s }
     | Some it \<Rightarrow> do {
         command \<leftarrow> hp_command r it;
         if needLogin command \<and> \<not> cl_is_registered c then
           reply client (formatReply ERR_NOTREGISTERED ''*'' ''You have not registered'') s
         else execute command now client message s } }"

section \<open>Ownership\<close>

text \<open>The registry owns exactly the live objects, each under one name.\<close>

definition owns :: "command_registry \<Rightarrow> bool" where
  "owns r \<longleftrightarrow> omap_ok (rg_commands r) \<and>
     (\<forall>n n' c. map_of (rg_commands r) n = Some c \<longrightarrow> map_of (rg_commands r) n' = Some c \<longrightarrow> n = n') \<and>
     (\<forall>c. hp_command r c \<noteq> None \<longleftrightarrow> (\<exists>n. map_of (rg_commands r) n = Some c)) \<and>
     (\<forall>c. hp_command r c \<noteq> None \<longrightarrow> kptr_addr c < hp_next_command r)"

lemma ownsD:
  assumes "owns r"
  shows "omap_ok (rg_commands r)" "\<And>n n' c. map_of (rg_commands r) n = Some c \<Longrightarrow> map_of (rg_commands r) n' = Some c \<Longrightarrow> n = n'"
    "\<And>c. hp_command r c \<noteq> None \<longleftrightarrow> (\<exists>n. map_of (rg_commands r) n = Some c)" "\<And>c. hp_command r c \<noteq> None \<Longrightarrow> kptr_addr c < hp_next_command r"
  using assms unfolding owns_def by blast+

text \<open>The commands a registry finds, without the pointers\<close>

definition registered :: "command_registry \<Rightarrow> string \<Rightarrow> command option" where
  "registered r name = Option.bind (map_of (rg_commands r) name) (hp_command r)"

lemma owns_new: "owns new_CommandRegistry"
  by (simp add: owns_def new_CommandRegistry_def)

lemma registered_new: "registered new_CommandRegistry = Map.empty"
  by (simp add: registered_def new_CommandRegistry_def fun_eq_iff)

lemma register_new_eq:
  assumes "owns r"
  shows "register_new e r = Some (r\<lparr>rg_commands := omap_put (fst e) (KPtr (hp_next_command r)) (rg_commands r),
     hp_command := (\<lambda>c. if c = KPtr (hp_next_command r) then Some (snd e)
       else if map_of (rg_commands r) (fst e) = Some c then None else hp_command r c),
     hp_next_command := Suc (hp_next_command r)\<rparr>)"
proof -
  have "hp_command r (KPtr (hp_next_command r)) = None" using ownsD(4) [OF assms] by fastforce
  then have new: "map_of (rg_commands r) (fst e) \<noteq> Some (KPtr (hp_next_command r))" using ownsD(3) [OF assms] by metis
  show ?thesis
  proof (cases "map_of (rg_commands r) (fst e)")
    case None
    then show ?thesis
      by (auto simp: register_new_def new_command_def register_object_def intro!: command_registry.equality)
  next
    case (Some old)
    then have "hp_command r old \<noteq> None" using ownsD(3) [OF assms] by blast
    then show ?thesis using Some new
      by (auto simp: register_new_def new_command_def register_object_def delete_command_def fun_eq_iff intro!: command_registry.equality)
  qed
qed

lemma register_new_owns:
  assumes "owns r"
  shows "returns (register_new e r) (\<lambda>r'. owns r' \<and> registered r' = (registered r)(fst e \<mapsto> snd e))"
proof -
  let ?c = "KPtr (hp_next_command r)" and ?m = "map_of (rg_commands r)"
  note o = ownsD [OF assms]
  have "hp_command r ?c = None" using o(4) by fastforce
  then have new: "?m n \<noteq> Some ?c" for n using o(3) by metis
  define r' where "r' = r\<lparr>rg_commands := omap_put (fst e) ?c (rg_commands r),
     hp_command := (\<lambda>c. if c = ?c then Some (snd e) else if ?m (fst e) = Some c then None else hp_command r c),
     hp_next_command := Suc (hp_next_command r)\<rparr>"
  have m': "map_of (rg_commands r') = ?m(fst e \<mapsto> ?c)" using o(1) by (simp add: r'_def)
  have "owns r'" unfolding owns_def
  proof (intro conjI allI impI)
    show "omap_ok (rg_commands r')" using o(1) by (simp add: r'_def)
    show "n = n'" if "map_of (rg_commands r') n = Some c" "map_of (rg_commands r') n' = Some c" for n n' c
      using that o(2) new unfolding m' by (metis fun_upd_apply option.inject)
    show "hp_command r' c \<noteq> None \<longleftrightarrow> (\<exists>n. map_of (rg_commands r') n = Some c)" for c
      using o(2,3) new unfolding m' by (simp add: r'_def) metis
    show "kptr_addr c < hp_next_command r'" if "hp_command r' c \<noteq> None" for c
      using that o(4) by (auto simp: r'_def less_Suc_eq split: if_splits)
  qed
  moreover have "registered r' = (registered r)(fst e \<mapsto> snd e)"
  proof
    fix n show "registered r' n = ((registered r)(fst e \<mapsto> snd e)) n"
      using o(2) [of n _ "fst e"] new [of n] unfolding registered_def m' by (cases "?m n") (auto simp: r'_def)
  qed
  ultimately show ?thesis unfolding register_new_eq [OF assms] r'_def by simp
qed

lemma register_all:
  assumes "owns r"
  shows "returns (each register_new es r) (\<lambda>r'. owns r' \<and> registered r' = (registered r) ++ map_of (rev es))"
  using assms
proof (induction es arbitrary: r)
  case (Cons e es)
  have "returns (each register_new es r1) (\<lambda>r'. owns r' \<and> registered r' = registered r ++ map_of (rev (e # es)))"
    if "owns r1 \<and> registered r1 = (registered r)(fst e \<mapsto> snd e)" for r1
  proof -
    have "registered r1 ++ map_of (rev es) = registered r ++ map_of (rev (e # es))"
      using that by (cases e) (simp add: map_add_upd_left map_add_assoc [symmetric] map_add_upd)
    then show ?thesis using Cons.IH [of r1] that by (simp only:)
  qed
  then show ?case using returns_mono [OF register_new_owns [OF Cons.prems]] by simp
qed simp

text \<open>The destructor deletes every object once.\<close>

lemma delete_all:
  assumes "distinct (map snd es)" "\<forall>it \<in> set es. hp_command r (snd it) \<noteq> None"
  shows "each (\<lambda>it. delete_command (snd it)) es r =
     Some (r\<lparr>hp_command := (\<lambda>c. if c \<in> snd ` set es then None else hp_command r c)\<rparr>)"
  using assms
proof (induction es arbitrary: r)
  case (Cons it es)
  let ?r = "r\<lparr>hp_command := (hp_command r)(snd it := None)\<rparr>"
  obtain k where "hp_command r (snd it) = Some k" using Cons.prems(2) by auto
  then have del: "delete_command (snd it) r = Some ?r" by (simp add: delete_command_def)
  have "\<forall>x \<in> set es. snd x \<noteq> snd it" using Cons.prems(1) by (metis distinct.simps(2) image_eqI list.set_map list.simps(9))
  then have "each (\<lambda>it. delete_command (snd it)) es ?r =
      Some (?r\<lparr>hp_command := (\<lambda>c. if c \<in> snd ` set es then None else hp_command ?r c)\<rparr>)"
    using Cons.prems by (intro Cons.IH) auto
  then show ?case by (simp add: del fun_upd_def) (auto intro!: command_registry.equality)
qed simp

lemma destroy_owned:
  assumes "owns r"
  shows "destroy_CommandRegistry r = Some (r\<lparr>hp_command := Map.empty\<rparr>)"
proof -
  note o = ownsD [OF assms] and find = omap_ok_find [OF ownsD(1) [OF assms]]
  have "inj_on snd (set (rg_commands r))"
  proof (rule inj_onI)
    fix x y assume "x \<in> set (rg_commands r)" "y \<in> set (rg_commands r)" "snd x = snd y"
    then show "x = y" using o(2) find by (metis prod.collapse)
  qed
  then have "distinct (map snd (rg_commands r))" using omap_ok_distinct [OF o(1)] by (simp add: distinct_map)
  moreover have live: "hp_command r c \<noteq> None \<longleftrightarrow> c \<in> snd ` set (rg_commands r)" for c
    unfolding o(3) using find by (force simp: image_iff)
  moreover have "(\<lambda>c. if c \<in> snd ` set (rg_commands r) then None else hp_command r c) = Map.empty"
    by (rule ext) (use live in \<open>metis (full_types)\<close>)
  ultimately show ?thesis using delete_all [of "rg_commands r" r] by (auto simp: destroy_CommandRegistry_def)
qed

text \<open>Dispatching through the pointers is dispatching on any table of commands with the same entries.\<close>

lemma dispatch_registered:
  assumes "owns r" and table: "map_of commands = registered r"
  shows "dispatch_object r = dispatch commands"
proof (intro ext)
  fix now p msg s
  show "dispatch_object r now p msg s = dispatch commands now p msg s"
  proof (cases "map_of (rg_commands r) (m_command msg)")
    case (Some c)
    moreover then obtain k where "hp_command r c = Some k" using ownsD(3) [OF assms(1)] by (metis not_None_eq)
    ultimately show ?thesis unfolding dispatch_object_def dispatch_def table by (simp add: registered_def)
  qed (simp add: dispatch_object_def dispatch_def table registered_def)
qed

end
