(* ===== verification/Irc_Demo.thy ===== *)
theory Irc_Demo
  imports Irc_Main Irc_Lobby Irc_Registry
begin

text \<open>
  A concrete server state at which the properties are applied: two registered clients, \<open>alice\<close> and \<open>bob\<close>, a third
  connection that has not registered, and a channel of which \<open>alice\<close> is the operator and only member and to which
  nobody is invited.
\<close>

abbreviation pA :: cptr where "pA \<equiv> CPtr 0"
abbreviation pB :: cptr where "pB \<equiv> CPtr 2"
abbreviation pC :: cptr where "pC \<equiv> CPtr 3"
abbreviation qH :: chptr where "qH \<equiv> ChPtr 4"

definition alice :: client where
  "alice = (new_Client 0 4)\<lparr>cl_ip := ''h'', cl_nickname := ''alice'', cl_username := ''a'', cl_realname := ''A'',
     cl_is_registered := True, cl_is_password_verified := True, cl_joinedChannels := [(''#h'', qH)]\<rparr>"

definition bob :: client where
  "bob = (new_Client 0 5)\<lparr>cl_ip := ''h'', cl_nickname := ''bob'', cl_username := ''b'', cl_realname := ''B'',
     cl_is_registered := True, cl_is_password_verified := True\<rparr>"

definition carol :: client where
  "carol = (new_Client 0 6)\<lparr>cl_ip := ''h''\<rparr>"

definition hall :: channel where
  "hall = (new_Channel ''#h'')\<lparr>ch_members := [pA], ch_operators := [pA]\<rparr>"

definition demo :: server where
  "demo = (new_Server 6667 ''pw'')\<lparr>sv_server_fd := 3,
     sv_poll_fds := map createPollFd [3, 4, 5, 6],
     sv_clients := [(4, pA), (5, pB), (6, pC)], sv_channels := [(''#h'', qH)],
     hp_client := [pA \<mapsto> alice, pB \<mapsto> bob, pC \<mapsto> carol], hp_channel := [qH \<mapsto> hall], hp_next := 5\<rparr>"

lemmas demo_defs = demo_def alice_def bob_def carol_def hall_def new_Client_def new_Channel_def new_Server_def createPollFd_def

lemma demo_heap [simp]:
  "hp_client demo pA = Some alice" "hp_client demo pB = Some bob" "hp_client demo pC = Some carol"
  "hp_channel demo qH = Some hall"
  by (simp_all add: demo_def)

lemma demo_client: "hp_client demo p = Some c \<longleftrightarrow> p = pA \<and> c = alice \<or> p = pB \<and> c = bob \<or> p = pC \<and> c = carol"
  by (auto simp: demo_def)

lemma demo_channel: "hp_channel demo q = Some ch \<longleftrightarrow> q = qH \<and> ch = hall"
  by (auto simp: demo_def)

lemma demo_members [simp]: "ch_members hall = [pA]" "ch_operators hall = [pA]" "ch_invitedUsers hall = []" "ch_name hall = ''#h''"
  by (simp_all add: hall_def new_Channel_def)

lemma demo_modes [simp]: "ch_topic hall = []" "ch_key hall = []" "ch_userLimit hall = 0" "\<not> ch_inviteOnly hall"
  "\<not> ch_topicByOpOnly hall"
  by (simp_all add: demo_defs)

lemma demo_registered [simp]: "cl_is_registered alice" "cl_is_registered bob" "\<not> cl_is_registered carol"
  by (simp_all add: demo_defs)

lemma demo_names [simp]: "cl_nickname alice = ''alice''" "cl_nickname bob = ''bob''" "cl_nickname carol = []"
  by (simp_all add: demo_defs)

lemma demo_fds [simp]: "cl_fd alice = 4" "cl_fd bob = 5" "cl_fd carol = 6"
  by (simp_all add: demo_defs)

lemma demo_tables [simp]: "sv_clients demo = [(4, pA), (5, pB), (6, pC)]" "sv_channels demo = [(''#h'', qH)]"
  "sv_to_disconnected demo = []" "sv_closing demo = []" "sv_server_fd demo = 3" "sv_password demo = ''pw''"
  by (simp_all add: demo_defs)

lemma demo_wf: "wf demo"
proof -
  have low: "toLower ''#h'' = ''#h''" by code_simp
  have "inv_clients demo"
    unfolding inv_clients_def demo_client by (auto simp: omap_ok_def split: if_splits)
  moreover have "inv_channels demo"
    unfolding inv_channels_def demo_channel by (auto simp: low omap_ok_def split: if_splits)
  moreover have "inv_lists demo"
    unfolding inv_lists_def demo_channel by (auto simp: lists_ok_def live_clients_def)
  moreover have "inv_joined demo"
    unfolding inv_joined_def demo_client in_channel_def demo_channel by (auto simp: demo_defs omap_ok_def)
  moreover have "inv_invited demo"
    unfolding inv_invited_def demo_client invited_in_def demo_channel by (auto simp: demo_defs)
  moreover have "inv_alloc demo"
    by (auto simp: inv_alloc_def demo_def)
  ultimately show ?thesis by (simp add: wf_def)
qed

lemma demo_sound: "sound demo"
proof -
  have toLower_empty: "toLower [] = []" by (simp add: toLower_def)
  have nick: "isValidNickname ''alice''" "isValidNickname ''bob''" "isValidChannelName ''#h''"
    "toLower ''alice'' \<noteq> toLower ''bob''" by code_simp+
  have "inv_values demo"
    unfolding inv_values_def demo_client demo_channel using nick
    by (auto simp: ok_client_def ok_channel_def) (auto simp: demo_defs)
  moreover have "inv_nicks demo"
    unfolding inv_nicks_def demo_client using nick(4) by (auto simp: toLower_empty)
  moreover have "inv_registered demo"
    unfolding inv_registered_def demo_client demo_channel by auto
  moreover have "inv_sched demo" "inv_poll demo"
    by (auto simp: inv_sched_def inv_poll_def demo_defs)
  moreover have "populated demo"
    unfolding populated_but_def demo_channel by auto
  ultimately show ?thesis using demo_wf by (simp add: sound_def good_def vals_def)
qed

section \<open>A run from the start\<close>

text \<open>
  A server that has just been set up, and one iteration of the loop in which \<open>accept\<close> returns descriptor 4.
\<close>

definition demo_init :: init_env where
  "demo_init = \<lparr>ie_socket = 3, ie_setsockopt = 0, ie_fcntl = 0, ie_bind = 0, ie_listen = 0\<rparr>"

definition boot :: server where
  "boot = (new_Server 6667 ''pw'')\<lparr>sv_server_fd := 3, sv_poll_fds := [\<lparr>pf_fd = 3, pf_events = {POLLIN}\<rparr>]\<rparr>"

definition quiet_event :: event where
  "quiet_event = \<lparr>ev_revents = {}, ev_now = 1,
     ev_accept = \<lparr>ae_fd = -1, ae_nonblocking = True, ae_ip = ''h'', ae_alloc = Alloc_ok\<rparr>, ev_recv = Recv_error, ev_fault = None, ev_send = 0\<rparr>"

definition accept_event :: event where
  "accept_event = quiet_event\<lparr>ev_revents := {POLLIN},
     ev_accept := \<lparr>ae_fd = 4, ae_nonblocking = True, ae_ip = ''h'', ae_alloc = Alloc_ok\<rparr>\<rparr>"

definition first_contact :: poll_env where
  "first_contact = \<lparr>pe_ready = 1, pe_eintr = False,
     pe_event = (\<lambda>i. if i = 0 then accept_event else quiet_event), pe_fault = None, pe_now = 1\<rparr>"

definition boot1 :: server where
  "boot1 = boot\<lparr>sv_poll_fds := map createPollFd [3, 4], sv_clients := [(4, pA)],
     hp_client := [pA \<mapsto> setIp ''h'' (new_Client 1 4)], hp_next := 1\<rparr>"

lemmas boot_defs = boot_def quiet_event_def accept_event_def first_contact_def new_Server_def

lemma boot_init: "init demo_init (new_Server 6667 ''pw'') = Inr boot"
  by (simp add: init_def demo_init_def boot_def new_Server_def)

lemma boot_reachable: "reachable boot"
  by (rule reachable.start [OF boot_init])

lemma boot_fresh: "accept_fresh boot (ev_accept (pe_event first_contact 0))"
  by (simp add: accept_fresh_def boot_defs)

lemma boot_contact: "run_iteration first_contact boot = Some (True, boot1)"
  by (simp add: smooth_iteration refreshPollEvents_def poll_step_def acceptNewClient_def new_client_def
      on_client_def set_client_def cleanupDisconnected_def checkIdleClients_def idle_step_def getConnectTime_def
      createPollFd_def setIp_def new_Client_def TIMEOUT_REGISTRATION_def upt_rec boot1_def boot_defs Let_def)

lemma boot1_reachable: "reachable boot1"
  by (rule reachable.iteration [OF boot_reachable boot_fresh boot_contact])

section \<open>A session\<close>

text \<open>
  A second client connects, and then the first one registers and joins a channel, in one piece of input. The state
  after that is reachable and has two clients, a nickname and a channel.
\<close>

abbreviation p2 :: cptr where "p2 \<equiv> CPtr (Suc 0)"

definition second_contact :: poll_env where
  "second_contact = first_contact\<lparr>pe_event := (\<lambda>i. if i = 0 then accept_event\<lparr>ev_accept := (ev_accept accept_event)\<lparr>ae_fd := 5\<rparr>\<rparr>
     else quiet_event)\<rparr>"

definition boot2 :: server where
  "boot2 = boot1\<lparr>sv_poll_fds := map createPollFd [3, 4, 5], sv_clients := [(4, pA), (5, p2)],
     hp_client := [pA \<mapsto> setIp ''h'' (new_Client 1 4), p2 \<mapsto> setIp ''h'' (new_Client 1 5)], hp_next := 2\<rparr>"

lemma boot2_reachable: "reachable boot2"
proof (rule reachable.iteration [OF boot1_reachable])
  show "accept_fresh boot1 (ev_accept (pe_event second_contact 0))"
    by (simp add: accept_fresh_def boot1_def second_contact_def boot_defs)
  show "run_iteration second_contact boot1 = Some (True, boot2)"
    by (simp add: smooth_iteration refreshPollEvents_def poll_step_def acceptNewClient_def new_client_def
        on_client_def set_client_def cleanupDisconnected_def checkIdleClients_def idle_step_def getConnectTime_def
        createPollFd_def setIp_def new_Client_def TIMEOUT_REGISTRATION_def upt_rec second_contact_def boot2_def boot1_def boot_defs Let_def)
qed

definition al :: client where
  "al = (setIp ''h'' (new_Client 1 4))\<lparr>cl_is_password_verified := True, cl_nickname := ''al'', cl_username := ''a'', cl_realname := ''A''\<rparr>"

lemma operate_accepted:
  assumes "accepted (spliter raw Message0) = Some m" "hp_client s p = Some c" "map_of Parser_commands (m_command m) = Some k"
    "needLogin k \<Longrightarrow> cl_is_registered c" "execute k now p m s = Some t"
  shows "operate now p raw s = Some (True, t)"
  using assms by (auto simp: operate_def dispatch_def accepted_def split: if_splits prod.splits)

definition speech :: string where
  "speech = ''PASS pw'' @ LF # ''NICK al'' @ LF # ''USER a 0 * :A'' @ LF # ''JOIN #h'' @ [LF]"

abbreviation al0 :: client where "al0 \<equiv> setIp ''h'' (new_Client 1 4)"

abbreviation al_in :: "client \<Rightarrow> string \<Rightarrow> server" where
  "al_in c buf \<equiv> set_client pA (c\<lparr>cl_read_buffer := buf\<rparr>) boot2"

lemma parsed:
  "accepted (spliter ''PASS pw'' Message0) = Some (cmd_msg ''PASS'' [''pw''])"
  "accepted (spliter ''NICK al'' Message0) = Some (cmd_msg ''NICK'' [''al''])"
  "accepted (spliter ''USER a 0 * :A'' Message0) = Some (cmd_msg ''USER'' [''a'', ''0'', ''*'', ''A''])"
  "accepted (spliter ''JOIN #h'' Message0) = Some (cmd_msg ''JOIN'' [''#h''])"
  by code_simp+

lemma found:
  "map_of Parser_commands ''PASS'' = Some Pass" "map_of Parser_commands ''NICK'' = Some Nick"
  "map_of Parser_commands ''USER'' = Some User" "map_of Parser_commands ''JOIN'' = Some Join"
  by (simp_all add: Parser_commands_find Parser_table_def)

lemma boot2_wf: "wf boot2" using soundD(3) [OF reachable_sound [OF boot2_reachable]] .

lemma boot2_al [simp]: "hp_client boot2 pA = Some al0" "sv_closing boot2 = []" "\<not> isMarked fd boot2" "sv_password boot2 = ''pw''"
  by (simp_all add: boot2_def boot1_def boot_defs isMarked_def)

lemma al_in_wf: "cl_fd c = 4 \<Longrightarrow> cl_joinedChannels c = [] \<Longrightarrow> cl_invitedChannels c = [] \<Longrightarrow> wf (al_in c buf)"
  by (rule wf_set_client [OF boot2_wf, where c = al0]) (simp_all add: setIp_def new_Client_def)

lemma al_in_marks [simp]: "\<not> isMarked fd (al_in c buf)" 
  by (simp add: isMarked_def boot2_def boot1_def boot_defs set_client_def)

lemma al_says:
  assumes "accepted (spliter l Message0) = Some m" "map_of Parser_commands (m_command m) = Some k"
    "needLogin k \<Longrightarrow> cl_is_registered c" "execute k 1 pA m (al_in c rest) = Some t"
    and "LF \<notin> set l" "l \<noteq> []" "last l \<noteq> CR"
  shows "line_loop 1 4 pA (al_in c (l @ LF # rest)) = line_loop 1 4 pA t"
proof (rule line_loop_line [where l = l])
  show "operate 1 pA l (set_client pA (c\<lparr>cl_read_buffer := l @ LF # rest, cl_read_buffer := rest\<rparr>) (al_in c (l @ LF # rest))) = Some (True, t)"
    using operate_accepted [OF assms(1) _ assms(2) _ assms(4), of "c\<lparr>cl_read_buffer := rest\<rparr>"] assms(3) by simp
qed (use assms in simp_all)

lemma al_free: "free_nick ''al'' pA (al_in c buf)"
proof -
  have "isValidNickname ''al''" "toLower [] \<noteq> toLower ''al''" by code_simp+
  then show ?thesis by (auto simp: free_nick_def boot2_def setIp_def new_Client_def split: if_splits)
qed

definition alR :: client where
  "alR = emit (greeting al) (al\<lparr>cl_is_registered := True\<rparr>)"

lemma al_registers: "line_loop 1 4 pA (al_in al0 speech) =
   line_loop 1 4 pA (al_in alR (''JOIN #h'' @ [LF]))"
proof -
  let ?r3 = "''JOIN #h'' @ [LF]"
  let ?r2 = "''USER a 0 * :A'' @ LF # ?r3"
  let ?r1 = "''NICK al'' @ LF # ?r2"
  let ?c1 = "al0\<lparr>cl_is_password_verified := True\<rparr>"
  let ?c2 = "?c1\<lparr>cl_nickname := ''al''\<rparr>"
  have "line_loop 1 4 pA (al_in al0 (''PASS pw'' @ LF # ?r1)) = line_loop 1 4 pA (al_in ?c1 ?r1)"
    by (rule al_says [OF parsed(1), where k = Pass]) (simp_all add: found pass_step unnamed_def setIp_def new_Client_def)
  moreover have "line_loop 1 4 pA (al_in ?c1 ?r1) = line_loop 1 4 pA (al_in ?c2 ?r2)"
  proof (rule al_says [OF parsed(2), where k = Nick])
    have "Nick_execute 1 pA (cmd_msg ''NICK'' [''al'']) (al_in ?c1 ?r2) =
        Some (set_client pA (?c1\<lparr>cl_read_buffer := ?r2, cl_nickname := ''al''\<rparr>) (al_in ?c1 ?r2))"
      by (rule nick_step [OF al_in_wf _ _ al_free]) (simp_all add: unnamed_def setIp_def new_Client_def)
    then show "execute Nick 1 pA (cmd_msg ''NICK'' [''al'']) (al_in ?c1 ?r2) = Some (al_in ?c2 ?r2)"
      by (simp add: setIp_def new_Client_def)
  qed (simp_all add: found)
  moreover have "line_loop 1 4 pA (al_in ?c2 ?r2) = line_loop 1 4 pA (al_in alR ?r3)"
    by (rule al_says [OF parsed(3), where k = User])
      (simp_all add: found user_step setIp_def new_Client_def Let_def emit_def al_def alR_def greeting_def)
  ultimately show ?thesis by (simp add: speech_def)
qed

lemma new_channel_admits:
  assumes "wf s" "hp_channel s q = Some (new_Channel n)" "hp_client s p = Some c"
  shows "handleJoin q p key s = Some (post (then_out (to_all [p] (makeCommand c ''JOIN'' n))
      (to_one p (join_welcome (join_state q (new_Channel n) p c s) (joined_channel p (new_Channel n)) c)))
      (join_state q (new_Channel n) p c s))"
  using assms by (simp add: handleJoin_eq join_refusal_def isFull_def new_Channel_def)

definition pre_hall :: server where
  "pre_hall = with_new_channel (new_Channel ''#h'') (set_client pA alR boot2)"

definition al_in_hall :: server where
  "al_in_hall = post (then_out (to_all [pA] (makeCommand alR ''JOIN'' ''#h''))
      (to_one pA (join_welcome (join_state (ChPtr 2) (new_Channel ''#h'') pA alR pre_hall) (joined_channel pA (new_Channel ''#h'')) alR)))
      (join_state (ChPtr 2) (new_Channel ''#h'') pA alR pre_hall)"

lemma boot2_tables [simp]: "sv_channels boot2 = []" "hp_next boot2 = 2"
  by (simp_all add: boot2_def boot1_def boot_defs)

lemma alR_fields [simp]: "cl_is_registered alR" "cl_joinedChannels alR = []" "cl_invitedChannels alR = []" "cl_fd alR = 4"
  "cl_read_buffer alR = []" "cl_nickname alR = ''al''" "cl_lastActivity alR = 1"
  by (simp_all add: alR_def al_def setIp_def new_Client_def)

lemma pre_hall_fields [simp]: "hp_channel pre_hall (ChPtr 2) = Some (new_Channel ''#h'')" "hp_client pre_hall pA = Some alR"
  by (simp_all add: pre_hall_def with_new_channel_def)

lemma pre_hall_wf: "wf pre_hall"
proof -
  have "wf (al_in alR [])" by (rule al_in_wf) simp_all
  moreover have "alR\<lparr>cl_read_buffer := []\<rparr> = alR" by simp
  ultimately show ?thesis
    unfolding pre_hall_def by (intro wf_new_channel) simp_all
qed

lemma al_joins: "line_loop 1 4 pA (al_in alR (''JOIN #h'' @ [LF])) = Some al_in_hall"
proof -
  have valid: "isValidChannelName ''#h''" by code_simp
  have rb: "alR\<lparr>cl_read_buffer := []\<rparr> = alR" by simp
  have "findOrCreateChannel ''#h'' (set_client pA alR boot2) = (ChPtr 2, pre_hall)"
    by (simp add: findOrCreateChannel_eq findChannel_def pre_hall_def)
  then have "Join_execute 1 pA (cmd_msg ''JOIN'' [''#h'']) (set_client pA alR boot2) = handleJoin (ChPtr 2) pA [] pre_hall"
    using valid by (simp add: Join_execute_def)
  also have "\<dots> = Some al_in_hall"
    unfolding al_in_hall_def by (rule new_channel_admits [OF pre_hall_wf]) simp_all
  finally have "line_loop 1 4 pA (al_in alR (''JOIN #h'' @ LF # [])) = line_loop 1 4 pA al_in_hall"
    by (intro al_says [OF parsed(4), where k = Join]) (simp_all add: found rb)
  moreover obtain d where "hp_client al_in_hall pA = Some d" "cl_read_buffer d = []"
    by (simp add: al_in_hall_def join_state_def joined_client_def)
  then have "line_loop 1 4 pA al_in_hall = Some al_in_hall" by (simp add: line_loop_done)
  ultimately show ?thesis by simp
qed

definition talk :: poll_env where
  "talk = first_contact\<lparr>pe_event := (\<lambda>i. if i = 1 then quiet_event\<lparr>ev_revents := {POLLIN}, ev_recv := Recv speech\<rparr> else quiet_event)\<rparr>"

lemma al_speaks: "receiveData 1 4 (Recv speech) boot2 = Some al_in_hall"
proof -
  have "LF \<in> set speech" "speech \<noteq> []" by (simp_all add: speech_def)
  moreover have "updateLastActivity 1 (al0\<lparr>cl_read_buffer := speech\<rparr>) = al0\<lparr>cl_read_buffer := speech\<rparr>" "cl_read_buffer al0 = []"
    by (simp_all add: updateLastActivity_def setIp_def new_Client_def)
  moreover have "map_of (sv_clients boot2) 4 = Some pA" by (simp add: boot2_def)
  ultimately show ?thesis
    using al_registers al_joins by (simp add: receiveData_def on_client_def hasCompleteLine_iff)
qed

lemma hall_fields [simp]: "sv_to_disconnected al_in_hall = []" "sv_closing al_in_hall = []" "sv_clients al_in_hall = [(4, pA), (5, p2)]"
  "sv_poll_fds al_in_hall = map createPollFd [3, 4, 5]" "sv_server_fd al_in_hall = 3"
  "hp_client al_in_hall p2 = Some (setIp ''h'' (new_Client 1 5))"
  "hp_channel al_in_hall (ChPtr 2) = Some (joined_channel pA (new_Channel ''#h''))"
  by (simp_all add: al_in_hall_def join_state_def pre_hall_def with_new_channel_def boot2_def boot1_def boot_defs to_one_def
      then_out_def to_all_def)

lemma hall_al: "\<exists>c. hp_client al_in_hall pA = Some c \<and> cl_is_registered c \<and> cl_nickname c = ''al'' \<and> cl_lastActivity c = 1"
  by (simp add: al_in_hall_def join_state_def joined_client_def)

lemma talk_fresh: "accept_fresh boot2 (ev_accept (pe_event talk 0))"
  by (simp add: accept_fresh_def talk_def boot_defs)

lemma talk_run: "run_iteration talk boot2 = Some (True, al_in_hall)"
proof -
  have "refreshPollEvents boot2 = Some boot2"
    by (simp add: refreshPollEvents_def boot2_def boot1_def boot_defs createPollFd_def setIp_def new_Client_def)
  moreover have "poll_step (pe_event talk) 0 boot2 = Some boot2" "poll_step (pe_event talk) 1 boot2 = Some al_in_hall"
    "poll_step (pe_event talk) 2 al_in_hall = Some al_in_hall"
    using al_speaks by (simp_all add: poll_step_def client_turn_def receive_turn_def talk_def boot2_def boot1_def boot_defs createPollFd_def Let_def)
  moreover have "cleanupDisconnected al_in_hall = Some al_in_hall" by (simp add: cleanupDisconnected_def)
  moreover have "checkIdleClients 1 al_in_hall = Some al_in_hall"
    using hall_al by (auto simp: checkIdleClients_def idle_step_def getIdleTime_def getConnectTime_def TIMEOUT_SECONDS_def
        TIMEOUT_REGISTRATION_def setIp_def new_Client_def)
  moreover have "[0..<length (sv_poll_fds boot2)] = [0, 1, 2]" "pe_ready talk = 1" "pe_now talk = 1"
    by (simp_all add: boot2_def talk_def first_contact_def upt_rec)
  ultimately show ?thesis by (simp add: smooth_iteration talk_def first_contact_def)
qed

lemma al_in_hall_reachable: "reachable al_in_hall"
  by (rule reachable.iteration [OF boot2_reachable talk_fresh talk_run])

section \<open>A long line\<close>

text \<open>509 letters and a Hangul syllable of three bytes: the limit of 510 falls inside the syllable.\<close>

definition hangul_line :: string where
  "hangul_line = replicate 509 CHR ''a'' @ [CHR 0xED, CHR 0x95, CHR 0x9C]"

lemma length_hangul_line: "length hangul_line = 512"
  by (simp add: hangul_line_def)

lemma utf8_append: "utf8 s \<Longrightarrow> utf8 t \<Longrightarrow> utf8 (s @ t)"
  by (induction rule: utf8.induct) (auto intro: utf8_app)

lemma hangul_line_utf8: "utf8 hangul_line"
proof -
  have "utf8_seq [CHR 0xED, CHR 0x95, CHR 0x9C]" by code_simp
  then have "utf8 ([CHR 0xED, CHR 0x95, CHR 0x9C] @ [])" by (rule utf8_app [OF _ utf8_Nil])
  moreover have "utf8 (replicate 509 CHR ''a'')" by (rule utf8_ascii) (simp add: list_all_iff)
  ultimately show ?thesis unfolding hangul_line_def by (intro utf8_append) simp_all
qed

end
