(* ===== verification/Protocol_Properties.thy ===== *)
theory Protocol_Properties
  imports Irc_Demo
begin

text \<open>
  What holds of the text layer: the message splitter, the two truncations, the framing of output and input, and the
  user limit of channels.
\<close>

section \<open>The message splitter\<close>

text \<open>
  C20. \<open>Message::spliter\<close>, which works with positions in a string, accepts exactly the lines of the message grammar,
  which is written over suffixes, and stores the prefix, the upper-case command and the parameters of the grammar.
\<close>

theorem parse_matches_grammar: "accepted (spliter raw Message0) = map_option message_of (grammar raw)"
  by (rule spliter_grammar)

text \<open>
  C32. Printing a message and splitting the line gives the message back, for every message that can be printed: an
  upper-case command, at most 15 parameters of which only the last may be empty, contain blanks or start with a colon,
  no NUL and no carriage return, and at most 510 bytes in all.
\<close>

theorem parse_print_roundtrip:
  assumes "printable pre cmd ps"
  shows "accepted (spliter (print_message pre cmd ps) Message0) = Some (message_of (pre, cmd, ps))"
  by (simp add: spliter_grammar grammar_print [OF assms])

theorem parse_print_roundtrip_witness:
  "printable (Some ''alice'') ''PRIVMSG'' [''#h'', ''hello : world''] \<and>
   accepted (spliter '':alice PRIVMSG #h :hello : world'' Message0) =
     Some (message_of (Some ''alice'', ''PRIVMSG'', [''#h'', ''hello : world'']))"
proof -
  have ok: "printable (Some ''alice'') ''PRIVMSG'' [''#h'', ''hello : world'']" by code_simp
  have "print_message (Some ''alice'') ''PRIVMSG'' [''#h'', ''hello : world''] = '':alice PRIVMSG #h :hello : world''"
    by (simp add: print_message_def)
  then show ?thesis using parse_print_roundtrip [OF ok] ok by simp
qed

text \<open>
  C33. Every message the splitter accepts has at most 15 parameters, all but the last of them non-empty words that do
  not start with a colon, a command in upper case without blanks, and no byte that was not received; NUL and
  carriage return do not occur in its prefix and parameters.
\<close>

theorem accepted_message_shape:
  assumes m: "accepted (spliter raw Message0) = Some m"
  shows "length (m_parameter m) \<le> 15 \<and> list_all middle (butlast (m_parameter m)) \<and>
     list_all (\<lambda>c. \<not> islower_c c \<and> c \<noteq> SP) (m_command m) \<and> m_command m \<noteq> [] \<and> message_bytes m \<subseteq> set raw - {NUL, CR}"
proof -
  obtain pre cmd ps where g: "grammar raw = Some (pre, cmd, ps)" and eq: "m = message_of (pre, cmd, ps)"
    using m by (rule accepted_grammar)
  obtain t where t: "t \<noteq> []" "hd t \<noteq> SP" "cmd = map toupper_c (word t)" "ps = params_of 0 (next_word t)"
    using g by (rule grammar_SomeE)
  have "list_all (\<lambda>c. \<not> islower_c c \<and> c \<noteq> SP) cmd"
    using word_no_space [of t] by (auto simp: t(3) list_all_iff toupper_c_no_space)
  moreover have "cmd \<noteq> []" using t(1-3) by (cases t) auto
  moreover have "length ps \<le> 15" using length_params_of [of 0 "next_word t"] by (simp add: t(4))
  moreover have "list_all middle (butlast ps)"
    unfolding t(4) by (rule params_of_middle) (use hd_next_word in blast)
  ultimately show ?thesis using accepted_bytes [OF m] by (simp add: eq message_of_def)
qed

theorem accepted_message_shape_witness:
  "\<exists>m. accepted (spliter ''join #h'' Message0) = Some m \<and> m_command m = ''JOIN'' \<and> length (m_parameter m) \<le> 15"
proof -
  obtain m where m: "accepted (spliter ''join #h'' Message0) = Some m" "m_command m = ''JOIN''"
  proof
    show "accepted (spliter ''join #h'' Message0) = Some \<lparr>m_prefix = [], m_existPrefix = False, m_command = ''JOIN'', m_parameter = [''#h'']\<rparr>"
      by code_simp
  qed simp
  then show ?thesis using accepted_message_shape [OF m(1)] by blast
qed

section \<open>Truncation\<close>

text \<open>
  C34. \<open>Client::sendReply\<close> appends one frame: a prefix of the message of at most 510 bytes and CR-LF. A well-formed
  UTF-8 message is never cut inside a character, and no longer well-formed prefix would have fitted.
\<close>

theorem sendReply_frame:
  "\<exists>body. cl_write_buffer (sendReply m c) = cl_write_buffer c @ body @ [CR, LF] \<and> length body \<le> 510 \<and>
     (\<exists>rest. m = body @ rest) \<and> (length m \<le> 510 \<longrightarrow> body = m) \<and>
     (utf8 m \<longrightarrow> utf8 body \<and> (\<forall>t u. utf8 t \<and> m = t @ u \<and> length t \<le> 510 \<longrightarrow> length t \<le> length body))"
  using cut510.trunc_prefix [of m] cut510.trunc_length [of m] cut510.trunc_utf8 [of m] cut510.trunc_maximal [of m]
  by (intro exI [of _ "cut510 m"]) (auto simp: sendReply_def)

theorem sendReply_frame_witness:
  "utf8 hangul_line \<and> length hangul_line = 512 \<and>
   (\<exists>body. cl_write_buffer (sendReply hangul_line carol) = body @ [CR, LF] \<and> length body \<le> 510 \<and> utf8 body)"
  using sendReply_frame [of hangul_line carol] hangul_line_utf8 length_hangul_line by (auto simp: demo_defs)

text \<open>
  The two truncations of the source, the bounded loop of \<open>Client::sendReply\<close> and \<open>Message::spliter\<close> and the
  unbounded one of \<open>truncateUtf8\<close> in \<open>Channel.cpp\<close>, agree on every well-formed UTF-8 string.
\<close>

theorem truncations_agree:
  assumes "utf8 s"
  shows "truncateUtf8 s 510 = cut510 s"
proof -
  have "length (truncateUtf8 s 510) = length (cut510 s)"
    using cut510.trunc_maximal [OF assms truncateUtf8.trunc_utf8 [OF assms]]
      truncateUtf8.trunc_maximal [OF assms cut510.trunc_utf8 [OF assms]]
      truncateUtf8.trunc_prefix [of s 510] cut510.trunc_prefix [of s]
      truncateUtf8.trunc_length [of s 510] cut510.trunc_length [of s] by (metis le_antisym)
  then show ?thesis
    using truncateUtf8.trunc_prefix [of s 510] cut510.trunc_prefix [of s] by (metis append_eq_append_conv)
qed

theorem truncations_agree_witness: "utf8 hangul_line \<and> truncateUtf8 hangul_line 510 = cut510 hangul_line"
  using truncations_agree [OF hangul_line_utf8] hangul_line_utf8 by simp

section \<open>Framing\<close>

text \<open>
  C35. What \<open>sendReply\<close> writes, \<open>popLine\<close> reads: a message of at most 510 bytes without newline that does not end in a
  carriage return comes out of the input buffer as it went into the output buffer, and the bytes after it stay.
\<close>

theorem frame_roundtrip:
  assumes "length m \<le> 510" "LF \<notin> set m" "m = [] \<or> last m \<noteq> CR" "cl_write_buffer c = []"
  shows "popLine (d\<lparr>cl_read_buffer := cl_write_buffer (sendReply m c) @ rest\<rparr>) = (m, d\<lparr>cl_read_buffer := rest\<rparr>)"
  using assms by (subst popLine_split [where l = "m @ [CR]" and rest = rest]) (auto simp: sendReply_def)

theorem frame_roundtrip_witness:
  "popLine (bob\<lparr>cl_read_buffer := cl_write_buffer (sendReply ''PING :ircserv'' carol) @ ''NI''\<rparr>) =
     (''PING :ircserv'', bob\<lparr>cl_read_buffer := ''NI''\<rparr>)"
  by (rule frame_roundtrip) (simp_all add: demo_defs)

section \<open>Numbers\<close>

text \<open>
  C36. \<open>parseLimit\<close> accepts exactly the non-empty strings of at most nine digits with a positive value, and returns that
  value: \<open>std::atoi\<close> never overflows there, and the limit fits an \<open>int\<close>.
\<close>

theorem parseLimit_exact:
  "parseLimit str = Some n \<longleftrightarrow>
     str \<noteq> [] \<and> length str \<le> 9 \<and> list_all isdigit_c str \<and> n = int (dec_value str) \<and> 0 < n \<and> n < 2 ^ 31"
  using dec_value_bound [of str] parseLimit_range [of str n]
  by (auto simp: parseLimit_eq split: if_splits)

end
