(* ===== verification/Command_Properties.thy ===== *)
theory Command_Properties
  imports Irc_Demo
begin

text \<open>
  What the channel handlers and the commands do on a sound state, branch by branch: the whole resulting state, including
  what is sent to whom; the member list a client receives when it joins; how channels come and go; and one mode
  change that does not take effect in the order it was written.
\<close>

section \<open>The handlers\<close>

text \<open>
  C22. \<open>Channel::handleJoin\<close>: a member is ignored; otherwise a wrong key, a missing invitation and a full channel are refused,
  in this order, with 475, 473 and 471 and nothing else changes. An admitted client becomes a member (and the operator of an
  empty channel), its invitation is used up, every member including the new one is sent one JOIN line, and the new member
  gets the topic, the member list and the end of the list.
\<close>

theorem join_outcome:
  assumes s: "sound s" and q: "hp_channel s q = Some ch" and p: "hp_client s p = Some c"
  shows "handleJoin q p key s =
     Some (if p \<in> set (ch_members ch) then s
           else case join_refusal ch p c key of
             Some err \<Rightarrow> post (to_one p [err]) s
           | None \<Rightarrow> post (then_out (to_all (ch_members ch @ [p]) (makeCommand c ''JOIN'' (ch_name ch)))
               (to_one p (join_welcome (join_state q ch p c s) (joined_channel p ch) c)))
               (join_state q ch p c s))"
  by (rule handleJoin_eq [OF soundD(3) [OF s] q p])

theorem join_outcome_witness:
  "join_refusal hall pB bob [] = None \<and>
   map_option (\<lambda>t. hp_channel t qH) (handleJoin qH pB [] demo) = Some (Some (joined_channel pB hall))"
  using join_outcome [OF demo_sound, of qH hall pB bob "[]"]
  by (simp add: join_refusal_def isFull_def join_state_def)

text \<open>
  \<open>Channel::handlePart\<close>: a client that is no member is told so (442); otherwise every member including the leaving one is sent
  one PART line with the message, or the nickname when there is none, and the client is taken off the member and
  operator lists and loses its link to the channel.
\<close>

theorem part_outcome:
  assumes s: "sound s" and q: "hp_channel s q = Some ch" and p: "hp_client s p = Some c"
  shows "handlePart q p message s = Some (if p \<notin> set (ch_members ch)
     then post (to_one p [makeReply ERR_NOTONCHANNEL (cl_nickname c) (ch_name ch @ '' :You're not on that channel'')]) s
     else post (to_all (ch_members ch) (makeCommand c ''PART''
         (ch_name ch @ '' :'' @ (if message \<noteq> [] then message else cl_nickname c)))) (leave_state q ch p c s))"
  by (rule handlePart_eq [OF soundD(3) [OF s] q p])

theorem part_outcome_witness:
  "map_option (\<lambda>t. hp_channel t qH) (handlePart qH pA ''bye'' demo) = Some (Some (left_channel pA hall)) \<and>
   map_option (\<lambda>t. hp_channel t qH) (handlePart qH pB [] demo) = Some (Some hall)"
  using part_outcome [OF demo_sound, of qH hall pA alice "''bye''"] part_outcome [OF demo_sound, of qH hall pB bob "[]"]
  by (simp add: leave_state_def)

text \<open>
  \<open>Channel::handleKick\<close>: the kicking client must be a member (442) and an operator (482) and the kicked one a member (441),
  checked in this order; otherwise every member is sent the KICK line and the kicked client leaves the channel.
\<close>

theorem kick_outcome:
  assumes s: "sound s" and q: "hp_channel s q = Some ch" and p: "hp_client s p = Some c" and k: "hp_client s k = Some d"
  shows "handleKick q p k comment s = Some (
     if p \<notin> set (ch_members ch) then
       post (to_one p [makeReply ERR_NOTONCHANNEL (cl_nickname c) (ch_name ch @ '' :You're not on that channel'')]) s
     else if p \<notin> set (ch_operators ch) then
       post (to_one p [makeReply ERR_CHANOPRIVSNEEDED (cl_nickname c) (ch_name ch @ '' :You're not channel operator'')]) s
     else if k \<notin> set (ch_members ch) then
       post (to_one p [makeReply ERR_USERNOTINCHANNEL (cl_nickname c)
         (cl_nickname d @ '' '' @ ch_name ch @ '' :They aren't on that channel'')]) s
     else post (to_all (ch_members ch) (makeCommand c ''KICK'' (ch_name ch @ '' '' @ cl_nickname d) @ '' :'' @
           (if comment \<noteq> [] then comment else cl_nickname c))) (leave_state q ch k d s))"
  by (rule handleKick_eq [OF soundD(3) [OF s] q p k])

theorem kick_outcome_witness:
  "map_option (\<lambda>t. hp_channel t qH) (handleKick qH pA pA [] demo) = Some (Some (left_channel pA hall)) \<and>
   map_option (\<lambda>t. hp_channel t qH) (handleKick qH pB pA [] demo) = Some (Some hall)"
  using kick_outcome [OF demo_sound, of qH hall pA alice pA alice "[]"] kick_outcome [OF demo_sound, of qH hall pB bob pA alice "[]"]
  by (simp add: leave_state_def)

text \<open>
  \<open>Channel::handleTopic\<close>: only members (442); without a topic parameter the topic is shown; with one it is set, by an operator
  where the channel is \<open>+t\<close> (482), to at most 300 bytes of the parameter, and shown to every member.
\<close>

theorem topic_outcome:
  assumes s: "sound s" and q: "hp_channel s q = Some ch" and p: "hp_client s p = Some c"
  shows "handleTopic q p topic given s = Some (
     if p \<notin> set (ch_members ch) then
       post (to_one p [makeReply ERR_NOTONCHANNEL (cl_nickname c) (ch_name ch @ '' :You're not on that channel'')]) s
     else if \<not> given then
       post (to_one p [if ch_topic ch = [] then makeReply RPL_NOTOPIC (cl_nickname c) (ch_name ch @ '' :No topic is set'')
         else makeReply RPL_TOPIC (cl_nickname c) (ch_name ch @ '' :'' @ ch_topic ch)]) s
     else if ch_topicByOpOnly ch \<and> p \<notin> set (ch_operators ch) then
       post (to_one p [makeReply ERR_CHANOPRIVSNEEDED (cl_nickname c) (ch_name ch @ '' :You're not channel operator'')]) s
     else post (to_all (ch_members ch) (makeCommand c ''TOPIC'' (ch_name ch @ '' :'' @ truncateUtf8 topic 300)))
       (set_channel q (ch\<lparr>ch_topic := truncateUtf8 topic 300\<rparr>) s))"
  by (rule handleTopic_eq [OF soundD(3) [OF s] q p])

theorem topic_outcome_witness:
  "map_option (\<lambda>t. hp_channel t qH) (handleTopic qH pA ''news'' True demo) = Some (Some (hall\<lparr>ch_topic := ''news''\<rparr>))"
  using topic_outcome [OF demo_sound, of qH hall pA alice "''news''" True] by (simp add: truncateUtf8_def)

text \<open>
  \<open>Channel::handleInvite\<close>: the inviting client must be a member (442), and an operator where the channel is \<open>+i\<close> (482); a
  client already invited is ignored and a member is reported (443); otherwise the invitation is recorded on both sides and
  the two clients are told, each once.
\<close>

theorem invite_outcome:
  assumes q: "hp_channel s q = Some ch" and p: "hp_client s p = Some c" and v: "hp_client s v = Some d"
  shows "handleInvite q p v s = Some (
     if p \<notin> set (ch_members ch) then
       post (to_one p [makeReply ERR_NOTONCHANNEL (cl_nickname c) (ch_name ch @ '' :You're not on that channel'')]) s
     else if ch_inviteOnly ch \<and> p \<notin> set (ch_operators ch) then
       post (to_one p [makeReply ERR_CHANOPRIVSNEEDED (cl_nickname c) (ch_name ch @ '' :You're not channel operator'')]) s
     else if v \<in> set (ch_invitedUsers ch) then s
     else if v \<in> set (ch_members ch) then
       post (to_one p [makeReply ERR_USERONCHANNEL (cl_nickname c)
         (cl_nickname d @ '' '' @ ch_name ch @ '' :is already on channel'')]) s
     else post (then_out (to_one p [makeReply RPL_INVITING (cl_nickname c) (ch_name ch @ '' '' @ cl_nickname d)])
         (to_one v [makeCommand c ''INVITE'' (cl_nickname d @ '' '' @ ch_name ch)])) (invite_state q ch v d s))"
  by (rule handleInvite_eq [OF q p v])

theorem invite_outcome_witness:
  "map_option (\<lambda>t. map_option ch_invitedUsers (hp_channel t qH)) (handleInvite qH pA pB demo) = Some (Some [pB])"
  using invite_outcome [of demo qH hall pA alice pB bob] by (simp add: invite_state_def)

text \<open>
  \<open>Channel::handleModeOperator\<close>: the target must be a member (441) and the client an operator (482), checked in this order;
  a change that is none is ignored; otherwise the target enters or leaves the operator list and every member is sent
  the MODE line.
\<close>

theorem operator_outcome:
  assumes s: "sound s" and q: "hp_channel s q = Some ch" and t: "hp_client s t = Some d" and p: "hp_client s p = Some c"
  shows "handleModeOperator q enable t p s = Some (
     if t \<notin> set (ch_members ch) then
       post (to_one p [makeReply ERR_USERNOTINCHANNEL (cl_nickname c)
         (cl_nickname d @ '' '' @ ch_name ch @ '' :They aren't on that channel'')]) s
     else if p \<notin> set (ch_operators ch) then
       post (to_one p [makeReply ERR_CHANOPRIVSNEEDED (cl_nickname c) (ch_name ch @ '' :You're not channel operator'')]) s
     else if (t \<in> set (ch_operators ch)) = enable then s
     else post (to_all (ch_members ch) (makeCommand c ''MODE''
         (ch_name ch @ '' '' @ (if enable then ''+o'' else ''-o'') @ '' '' @ cl_nickname d)))
       (set_channel q (setModeOperator enable t ch) s))"
  by (rule handleModeOperator_eq [OF soundD(3) [OF s] q t p])

theorem operator_outcome_witness:
  "map_option (\<lambda>t. map_option ch_operators (hp_channel t qH)) (handleModeOperator qH False pA pA demo) = Some (Some [])"
  using operator_outcome [OF demo_sound, of qH hall pA alice pA alice False]
  by (simp add: setModeOperator_def erase_remove_def)

text \<open>
  C24. \<open>Channel::handleChannelPrivmsg\<close>: a client that is no member is refused (404); the message of a member goes once to every
  other member and to nobody else.
\<close>

theorem channel_message_outcome:
  assumes s: "sound s" and q: "hp_channel s q = Some ch" and p: "hp_client s p = Some c"
  shows "handleChannelPrivmsg q p message s = Some (
     if p \<notin> set (ch_members ch) then
       post (to_one p [makeReply ERR_CANNOTSENDTOCHAN (cl_nickname c) (ch_name ch @ '' :Cannot send to channel'')]) s
     else post (to_all (erase_remove p (ch_members ch)) (makeCommand c ''PRIVMSG'' (ch_name ch @ '' :'' @ message))) s)"
  by (rule handleChannelPrivmsg_eq [OF soundD(3) [OF s] q p])

theorem channel_message_outcome_witness:
  "handleChannelPrivmsg qH pB ''hi'' demo =
     Some (post (to_one pB [makeReply ERR_CANNOTSENDTOCHAN ''bob'' ''#h :Cannot send to channel'']) demo)"
  using channel_message_outcome [OF demo_sound, of qH hall pB bob "''hi''"] by simp

text \<open>
  C21. \<open>Channel::handleMode\<close> means a list of changes. Without modes a member is shown the modes the channel has (442 otherwise); a client that is no operator
  is refused (482). Otherwise the letters with their signs and arguments are the changes requested; those that make a difference
  are carried out one after the other, the client is sent one reply for each letter that is unknown or refused for its argument, in their
  order, and if anything was carried out every member is sent one line that announces exactly that: a sign where it differs from that of the change before, the
  letters, then the arguments. The modes shown, in 324, are announced in the same way.
\<close>

theorem mode_refines:
  assumes s: "sound s" and q: "hp_channel s q = Some ch" and p: "hp_client s p = Some c"
  shows "handleMode q p modes modeParams s = Some (
     if modes = [] then
       (if p \<notin> set (ch_members ch) then
          post (to_one p [makeReply ERR_NOTONCHANNEL (cl_nickname c) (ch_name ch @ '' :You're not on that channel'')]) s
        else post (to_one p [makeReply RPL_CHANNELMODEIS (cl_nickname c)
          (ch_name ch @ '' '' @ (if current_modes ch = [] then ''+'' else announced (current_modes ch)))]) s)
     else if p \<notin> set (ch_operators ch) then
       post (to_one p [makeReply ERR_CHANOPRIVSNEEDED (cl_nickname c) (ch_name ch @ '' :You're not channel operator'')]) s
     else (case carried_out (cl_nickname c) (requested True modes modeParams) ch of (xs, replies) \<Rightarrow>
       post (if xs = [] then to_one p replies
             else then_out (to_one p replies) (to_all (ch_members ch) (makeCommand c ''MODE'' (ch_name ch @ '' '' @ announced xs))))
         (set_channel q (fold change_channel xs ch) s)))"
  by (rule handleMode_carried [OF soundD(3) [OF s] q p])

theorem mode_refines_witness:
  "handleMode qH pA ''+i-x+l'' [''9''] demo = Some (post
     (then_out (to_one pA [makeReply ERR_UNKNOWNMODE ''alice'' ''x :is unknown mode char to me for #h''])
        (to_all [pA] (makeCommand alice ''MODE'' ''#h +il 9'')))
     (set_channel qH (hall\<lparr>ch_inviteOnly := True, ch_userLimit := 9\<rparr>) demo))"
proof -
  have "parseLimit ''9'' = Some 9" by code_simp
  then have "carried_out ''alice'' (requested True ''+i-x+l'' [''9'']) hall =
      ([(True, CHR ''i'', []), (True, CHR ''l'', ''9'')], [makeReply ERR_UNKNOWNMODE ''alice'' ''x :is unknown mode char to me for #h''])"
    "fold change_channel [(True, CHR ''i'', []), (True, CHR ''l'', ''9'')] hall = hall\<lparr>ch_inviteOnly := True, ch_userLimit := 9\<rparr>"
    by (simp_all add: effective_def change_channel_def)
  moreover have "announced [(True, CHR ''i'', []), (True, CHR ''l'', ''9'')] = ''+il 9''" by (simp add: announced_def)
  ultimately show ?thesis using mode_refines [OF demo_sound, of qH hall pA alice "''+i-x+l''" "[''9'']"] by simp
qed

section \<open>Joining and leaving\<close>

text \<open>
  C23. The member list a client receives when it joins is complete and fits the protocol: the entries of the
  353 lines, line by line and blank-separated, are the members in order, itself last, operators marked, none left out and
  none repeated, and no line with its prefix is longer than 510 bytes, so that none is cut. The subtraction
  \<open>510 - prefix.size()\<close> does not wrap around.
\<close>

theorem join_member_list:
  assumes s: "sound s" and q: "hp_channel s q = Some ch" and p: "hp_client s p = Some c" and reg: "cl_is_registered c"
    and out: "p \<notin> set (ch_members ch)" and admitted: "join_refusal ch p c key = None"
  shows "\<exists>t groups. handleJoin q p key s = Some t \<and> concat groups = map (names_entry t (joined_channel p ch)) (ch_members ch @ [p]) \<and>
     [] \<notin> set groups \<and> (\<forall>es \<in> set groups. length (names_prefix ch c @ join_sp es) \<le> 510) \<and>
     (\<exists>before after. map_option cl_write_buffer (hp_client t p) =
        Some (cl_write_buffer c @ frames (before @ map (\<lambda>es. names_prefix ch c @ join_sp es) groups @ after)))"
proof -
  let ?t = "join_state q ch p c s" and ?ch = "joined_channel p ch"
  have g: "good ?t" by (rule good_join_state [OF soundD(1) [OF s] q p out reg])
  have t: "hp_channel ?t q = Some ?ch" "hp_client ?t p = Some (joined_client q (ch_name ch) c)" by (simp_all add: join_state_def)
  have nick: "isValidNickname (cl_nickname c)"
    using goodD(3) [OF soundD(1) [OF s]] p reg by (auto simp: inv_values_def ok_client_def)
  have pre: "names_prefix ?ch c = names_prefix ch c" by (simp add: names_prefix_def)
  obtain groups where lines: "names_lines ?t ?ch c = map (\<lambda>es. names_prefix ch c @ join_sp es) groups"
    and groups: "concat groups = map (names_entry ?t ?ch) (ch_members ?ch)" "[] \<notin> set groups"
    using names_lines_ok(1) [OF g t(1) nick] unfolding pre by blast
  have fit: "\<forall>es \<in> set groups. length (names_prefix ch c @ join_sp es) \<le> 510"
    using names_lines_ok(2) [OF g t(1) nick] unfolding lines by simp
  obtain a b where w: "join_welcome ?t ?ch c = a @ map (\<lambda>es. names_prefix ch c @ join_sp es) groups @ b"
    unfolding join_welcome_def lines by blast
  have eq: "handleJoin q p key s = Some (post (then_out (to_all (ch_members ch @ [p]) (makeCommand c ''JOIN'' (ch_name ch)))
      (to_one p (join_welcome ?t ?ch c))) ?t)" (is "_ = Some ?u")
    using handleJoin_eq [OF soundD(3) [OF s] q p, of key] out admitted by simp
  have buf: "map_option cl_write_buffer (hp_client ?u p) = Some (cl_write_buffer c @
      frames ((to_all (ch_members ch @ [p]) (makeCommand c ''JOIN'' (ch_name ch)) p @ a) @
        map (\<lambda>es. names_prefix ch c @ join_sp es) groups @ b))"
    using t(2) by (simp add: then_out_def w joined_client_def)
  have "concat groups = map (names_entry ?u ?ch) (ch_members ch @ [p])" using groups(1) by simp
  with eq groups(2) fit buf show ?thesis by blast
qed

theorem join_member_list_witness:
  "\<exists>t groups. handleJoin qH pB [] demo = Some t \<and> length (concat groups) = 2 \<and>
     (\<forall>es \<in> set groups. length (names_prefix hall bob @ join_sp es) \<le> 510)"
proof -
  have "join_refusal hall pB bob [] = None" by (simp add: join_refusal_def isFull_def)
  then obtain t groups where "handleJoin qH pB [] demo = Some t"
      "concat groups = map (names_entry t (joined_channel pB hall)) (ch_members hall @ [pB])"
      "\<forall>es \<in> set groups. length (names_prefix hall bob @ join_sp es) \<le> 510"
    using join_member_list [OF demo_sound, of qH hall pB bob "[]"] by auto
  then show ?thesis by (intro exI [of _ t] exI [of _ groups]) simp
qed

text \<open>
  JOIN with a valid name that no channel has creates the channel, spelt as given and found under every
  spelling, with the client as its only member and operator.
\<close>

theorem join_creates:
  assumes s: "sound s" and p: "hp_client s p = Some c" and reg: "cl_is_registered c"
    and valid: "isValidChannelName n" and new: "findChannel n s = None"
  shows "\<exists>t q. Join_execute now p (cmd_msg ''JOIN'' [n]) s = Some t \<and> sound t \<and> findChannel n t = Some q \<and>
     hp_channel t q = Some ((new_Channel n)\<lparr>ch_members := [p], ch_operators := [p]\<rparr>)"
proof -
  let ?q = "ChPtr (hp_next s)" and ?s = "with_new_channel (new_Channel n) s"
  have n: "n \<noteq> ''0''" using valid by (auto simp: isValidChannelName_def)
  have "wf ?s" using new_channel_keeps(1) [OF s new valid] by (simp add: good_def)
  moreover have "hp_channel ?s ?q = Some (new_Channel n)" "hp_client ?s p = Some c" using p by (simp_all add: with_new_channel_def)
  ultimately have "handleJoin ?q p [] ?s = Some (post (then_out (to_all [p] (makeCommand c ''JOIN'' n))
      (to_one p (join_welcome (join_state ?q (new_Channel n) p c ?s) (joined_channel p (new_Channel n)) c)))
      (join_state ?q (new_Channel n) p c ?s))" (is "_ = Some ?t")
    by (simp add: handleJoin_eq join_refusal_def isFull_def new_Channel_def)
  then have ex: "Join_execute now p (cmd_msg ''JOIN'' [n]) s = Some ?t"
    using p n valid new by (simp add: Join_execute_def findOrCreateChannel_eq)
  then have t: "sound ?t" using Join_keeps [OF s p reg, of now "cmd_msg ''JOIN'' [n]"] by (simp add: keeps_but_def)
  have ch: "hp_channel ?t ?q = Some (joined_channel p (new_Channel n))" by (simp add: join_state_def)
  have new_ch: "joined_channel p (new_Channel n) = (new_Channel n)\<lparr>ch_members := [p], ch_operators := [p]\<rparr>" "ch_name (new_Channel n) = n"
    by (simp_all add: joined_channel_def new_Channel_def erase_remove_def)
  then have "findChannel n ?t = Some ?q" using ch findChannel_spec [OF soundD(3) [OF t], of n ?q] by simp
  then show ?thesis using ex t ch unfolding new_ch by blast
qed

theorem join_creates_witness:
  "\<exists>t q. Join_execute 0 pB (cmd_msg ''JOIN'' [''#New'']) demo = Some t \<and> findChannel ''#New'' t = Some q \<and>
     hp_channel t q = Some ((new_Channel ''#New'')\<lparr>ch_members := [pB], ch_operators := [pB]\<rparr>)"
proof -
  have "isValidChannelName ''#New''" "findChannel ''#New'' demo = None" by code_simp+
  then show ?thesis using join_creates [OF demo_sound, of pB bob "''#New''" 0] by auto
qed

text \<open>
  When the last member parts, the channel is deleted: its name is free, and no pointer to it is left.
\<close>

theorem part_last_deletes:
  assumes s: "sound s" and p: "hp_client s p = Some c" and q: "findChannel n s = Some q" "hp_channel s q = Some ch"
    and last: "ch_members ch = [p]"
  shows "\<exists>t. Part_execute now p (cmd_msg ''PART'' [n]) s = Some t \<and> sound t \<and> findChannel n t = None \<and> hp_channel t q = None"
proof -
  have name: "toLower n = toLower (ch_name ch)" using q findChannel_spec [OF soundD(3) [OF s], of n q] by simp
  let ?u = "post (to_all [p] (makeCommand c ''PART'' (ch_name ch @ '' :'' @ cl_nickname c))) (leave_state q ch p c s)"
  have part: "handlePart q p [] s = Some ?u"
    using handlePart_eq [OF soundD(3) [OF s] q(2) p, of "[]"] last by simp
  have u: "good ?u" "hp_channel ?u q = Some (left_channel p ch)"
    using good_leave_state [OF soundD(1) [OF s] q(2) p] by (simp_all add: leave_state_def)
  let ?t = "without_channel (toLower (ch_name ch)) q ?u"
  have del: "deleteChannel n ?u = Some ?t"
    using deleteChannel_eq [OF goodD(1) [OF u(1)] u(2), of n] name by (simp add: left_channel_def)
  have ex: "Part_execute now p (cmd_msg ''PART'' [n]) s = Some ?t"
    using p q(1) part u(2) del last by (simp add: Part_execute_def isEmpty_def left_channel_def erase_remove_def)
  then have "sound ?t" using Part_keeps [OF s p, of now "cmd_msg ''PART'' [n]"] by (simp add: keeps_but_def)
  moreover have "findChannel n ?t = None" by (simp add: findChannel_def without_channel_def name)
  ultimately show ?thesis using ex by (auto simp: without_channel_def)
qed

theorem part_last_deletes_witness:
  "\<exists>t. Part_execute 0 pA (cmd_msg ''PART'' [''#H'']) demo = Some t \<and> findChannel ''#H'' t = None \<and> hp_channel t qH = None"
proof -
  have "findChannel ''#H'' demo = Some qH" by code_simp
  then show ?thesis using part_last_deletes [OF demo_sound, of pA alice "''#H''" qH hall 0] by auto
qed

text \<open>
  JOIN 0 takes the client out of every channel, and its list of joined channels is empty afterwards.
\<close>

theorem join_zero:
  assumes s: "sound s" and p: "hp_client s p = Some c" and reg: "cl_is_registered c"
  shows "\<exists>t c'. Join_execute now p (cmd_msg ''JOIN'' [''0'']) s = Some t \<and> sound t \<and> hp_client t p = Some c' \<and>
     cl_joinedChannels c' = [] \<and> (\<forall>q ch. hp_channel t q = Some ch \<longrightarrow> p \<notin> set (ch_members ch))"
proof -
  note j = joined_entries [OF soundD(3) [OF s] p]
  have "q \<in> snd ` set (cl_joinedChannels c)" if "hp_channel s q = Some ch" "p \<in> set (ch_members ch)" for q ch
  proof -
    have "map_of (cl_joinedChannels c) (ch_name ch) = Some q"
      using inv_joinedD(2) [OF wfD(4) [OF soundD(3) [OF s]] p] that by (simp add: in_channel_iff)
    then show ?thesis by (metis image_eqI map_of_SomeD snd_conv)
  qed
  then have "returns (each (part_step p) (cl_joinedChannels c) s) (\<lambda>t. \<forall>q ch. hp_channel t q = Some ch \<longrightarrow> p \<notin> set (ch_members ch))"
    using j by (intro part_all_leaves [OF s p]) auto
  moreover have "Join_execute now p (cmd_msg ''JOIN'' [''0'']) s = each (part_step p) (cl_joinedChannels c) s"
    using p by (simp add: Join_execute_def)
  ultimately obtain t where t: "Join_execute now p (cmd_msg ''JOIN'' [''0'']) s = Some t" "keeps s t"
      "\<forall>q ch. hp_channel t q = Some ch \<longrightarrow> p \<notin> set (ch_members ch)"
    using Join_keeps [OF s p reg, of now "cmd_msg ''JOIN'' [''0'']"] by (auto elim!: returnsE)
  then have st: "sound t" by (simp add: keeps_but_def)
  obtain c' where c': "hp_client t p = Some c'" using keeps_client [OF t(2) p] by blast
  have "it \<notin> set (cl_joinedChannels c')" for it using joined_entries(1) [OF soundD(3) [OF st] c'] t(3) by blast
  then have "cl_joinedChannels c' = []" by (metis list.set_intros(1) neq_Nil_conv)
  then show ?thesis using t st c' by blast
qed

theorem join_zero_witness:
  "\<exists>t. Join_execute 0 pA (cmd_msg ''JOIN'' [''0'']) demo = Some t \<and>
     (\<forall>q ch. hp_channel t q = Some ch \<longrightarrow> pA \<notin> set (ch_members ch))"
  using join_zero [OF demo_sound, of pA alice 0] by auto

section \<open>Messages and nicknames\<close>

text \<open>
  C25. PRIVMSG to a nickname, in any spelling, is delivered to the one registered client that bears it, once,
  and to nobody else.
\<close>

theorem private_message:
  assumes s: "sound s" and p: "hp_client s p = Some c" and r: "hp_client s r = Some d" "cl_is_registered d"
    and chan: "findChannel n s = None" and nick: "toLower n = toLower (cl_nickname d)" and given: "n \<noteq> []" "m \<noteq> []"
  shows "Privmsg_execute now p (cmd_msg ''PRIVMSG'' [n, m]) s =
     Some (post (to_one r [makeCommand c ''PRIVMSG'' (cl_nickname d @ '' :'' @ m)]) s)"
proof -
  have "findClientByNickname n s = Some (Some r)"
    using findClientByNickname_spec [OF soundD(1) [OF s], of n] r nick by (auto simp: bears_def)
  then show ?thesis
    using p r(1) chan given by (simp add: Privmsg_execute_def handlePersonalPrivmsg_def reply_eq)
qed

theorem private_message_witness:
  "Privmsg_execute 0 pA (cmd_msg ''PRIVMSG'' [''BOB'', ''hi'']) demo =
     Some (post (to_one pB [makeCommand alice ''PRIVMSG'' ''bob :hi'']) demo)"
proof -
  have "findChannel ''BOB'' demo = None" "toLower ''BOB'' = toLower ''bob''" by code_simp+
  then show ?thesis using private_message [OF demo_sound, of pA alice pB bob "''BOB''" "''hi''" 0] by simp
qed

text \<open>
  C26. A registered client that takes a valid nickname nobody else has bears it from then on, and the notice goes
  exactly once to the client and to everyone who shares a channel with it, however many channels they share.
\<close>

theorem nick_change:
  assumes s: "sound s" and p: "hp_client s p = Some c" and reg: "cl_is_registered c"
    and free: "free_nick n p s" and diff: "n \<noteq> cl_nickname c"
  shows "Nick_execute now p (cmd_msg ''NICK'' [n]) s =
     Some (post (\<lambda>p'. if p' \<in> insert p (peers s p) then [nickNotice (cl_nickname c) n (cl_username c) (cl_ip c)] else [])
       (set_client p (setNickname n c) s))"
proof -
  have wf: "wf (set_client p (setNickname n c) s)"
    by (rule wf_set_client [OF soundD(3) [OF s] p]) (simp_all add: setNickname_def)
  have "isNicknameTaken n p s = Some False" by (rule free_nick_not_taken [OF soundD(3) [OF s] free])
  moreover have "peers (set_client p (setNickname n c) s) p = peers s p" by (simp add: peers_def)
  moreover have valid: "isValidNickname n" using free by (simp add: free_nick_def)
  moreover have "n \<noteq> []" using valid by (rule valid_nickname_nonempty)
  ultimately show ?thesis
    using p reg diff broadcastNickChange_eq [OF wf, of p] by (simp add: Nick_execute_def heap_simps Let_def)
qed

theorem nick_change_witness:
  "\<exists>t c. Nick_execute 0 pA (cmd_msg ''NICK'' [''eve'']) demo = Some t \<and> hp_client t pA = Some c \<and> cl_nickname c = ''eve''"
proof -
  have "isValidNickname ''eve''" "toLower ''bob'' \<noteq> toLower ''eve''" "toLower [] \<noteq> toLower ''eve''" by code_simp+
  then have "free_nick ''eve'' pA demo" by (auto simp: free_nick_def demo_client)
  then show ?thesis using nick_change [OF demo_sound, of pA alice "''eve''" 0] by (simp add: setNickname_def)
qed

section \<open>A mode change out of order\<close>

text \<open>
  C27. \<open>Mode::execute\<close> carries out the letter \<open>o\<close> at once but collects the others for one call of
  \<open>handleMode\<close> at the end. An operator that sends \<open>+i-o\<close> with its own nickname first loses the operator status and is
  then refused the \<open>+i\<close> that came before it, with 482: the channel does not become invite-only.
\<close>

theorem mode_letters_out_of_order:
  assumes s: "sound s" and p: "hp_client s p = Some c" and reg: "cl_is_registered c"
    and q: "hp_channel s q = Some ch" "p \<in> set (ch_operators ch)" "\<not> ch_inviteOnly ch"
  shows "\<exists>t ch'. Mode_execute now p (cmd_msg ''MODE'' [ch_name ch, ''+i-o'', cl_nickname c]) s = Some t \<and>
     hp_channel t q = Some ch' \<and> \<not> ch_inviteOnly ch' \<and> p \<notin> set (ch_operators ch') \<and>
     (\<exists>before. map_option cl_write_buffer (hp_client t p) = Some (before @
        frames [makeReply ERR_CHANOPRIVSNEEDED (cl_nickname c) (ch_name ch @ '' :You're not channel operator'')]))"
proof -
  let ?n = "ch_name ch" and ?ch = "setModeOperator False p ch"
  have ok: "ok_channel ch" "lists_ok ch" using good_channelD [OF soundD(1) [OF s] q(1)] by simp_all
  then have mem: "p \<in> set (ch_members ch)" using q(2) by (auto simp: lists_ok_def)
  have name: "?n \<noteq> []" "hd ?n = CHR ''#'' \<or> hd ?n = CHR ''&''"
    using ok(1) by (auto simp: ok_channel_def isValidChannelName_def split: if_splits)
  have find: "findChannel ?n s = Some q" using q(1) findChannel_spec [OF soundD(3) [OF s], of ?n q] by simp
  have me: "findClientByNickname (cl_nickname c) s = Some (Some p)"
    using findClientByNickname_spec [OF soundD(1) [OF s], of "cl_nickname c"] p reg by (auto simp: bears_def)
  let ?s1 = "post (to_all (ch_members ch) (makeCommand c ''MODE'' (?n @ '' -o '' @ cl_nickname c))) (set_channel q ?ch s)"
  have op: "handleModeOperator q False p p s = Some ?s1"
    using handleModeOperator_eq [OF soundD(3) [OF s] q(1) p p, of False] mem q(2) by simp
  have st: "keeps s ?s1" using handleModeOperator_keeps [OF s q(1) p p, of False] op by simp
  have s1: "hp_channel ?s1 q = Some ?ch" "hp_client ?s1 p = Some (emit (to_all (ch_members ch) (makeCommand c ''MODE'' (?n @ '' -o '' @ cl_nickname c)) p) c)"
    using p by simp_all
  have "p \<notin> set (ch_operators ?ch)" "?ch\<lparr>ch_operators := ch_operators ch\<rparr> = ch" using q(2) by (simp_all add: setModeOperator_def)
  then have refuse: "handleMode q p ''+i'' [] ?s1 = Some (post (to_one p
      [makeReply ERR_CHANOPRIVSNEEDED (cl_nickname c) (?n @ '' :You're not channel operator'')]) ?s1)"
    using handleMode_eq [OF soundD(3) s1, of "''+i''" "[]"] st by (simp add: keeps_but_def setModeOperator_def)
  have "Mode_execute now p (cmd_msg ''MODE'' [?n, ''+i-o'', cl_nickname c]) s = handleMode q p ''+i'' [] ?s1"
    using p reg name find q(1,2) me op
    by (cases "hd ?n = CHR ''#''") (simp_all add: Mode_execute_def mode_exec_step_def mode_exec_apply_def mode_exec0_def Let_def)
  then show ?thesis using refuse p q(2,3) by (simp add: setModeOperator_def)
qed

theorem mode_letters_out_of_order_witness:
  "\<exists>t ch. Mode_execute 0 pA (cmd_msg ''MODE'' [''#h'', ''+i-o'', ''alice'']) demo = Some t \<and>
     hp_channel t qH = Some ch \<and> \<not> ch_inviteOnly ch \<and> pA \<notin> set (ch_operators ch)"
  using mode_letters_out_of_order [OF demo_sound, of pA alice qH hall 0] by auto

end
