(* ===== verification/Room_Properties.thy ===== *)
theory Room_Properties
  imports Irc_Demo
begin

text \<open>
  The server against its abstract specifications, the lobby of \<open>Irc_Lobby\<close> and the table of rooms of \<open>Irc_Rooms\<close>: an iteration of the event loop
  is a sequence of deeds, every command and every disconnection implements its abstract function, and what a client can change is bounded by its
  standing in the room.
\<close>

section \<open>Refinement\<close>

lemma rooms_demo [simp]: "rooms demo ''#h'' = Some (room_of hall)"
  by (simp add: rooms_def)

text \<open>
  C2. The event loop implements the abstract lobby, deed by deed, and the inputs account for every deed. From any state the server can reach,
  one iteration of \<open>Server::run\<close>, whatever it receives, sends, accepts, times out, cleans up or fails at, returns, and is this sequence of deeds: in the order of the poll set, entry \<open>i\<close>
  contributes the deeds \<open>dss ! i\<close>, for the listening socket at most one arrival, and that only if it is readable, and for the socket of a client the
  first of the lines it delivered, each said by this very client; then the clients \<open>ps\<close> leave, who are expelled: each was marked before,
  had more output waiting than the server allows, or had something to report on its own socket.
  A deed changes the lobby as \<open>deed_step\<close> says: a line that is a command its sender may give is obeyed exactly as \<open>room_command\<close> computes for this sender, with
  the directory of the registered clients; any other line changes nothing.
\<close>

theorem server_implements_rooms:
  assumes s: "reachable s" and fresh: "accept_fresh s (ev_accept (pe_event e 0))"
  shows "\<exists>go t dss ps. run_iteration e s = Some (go, t) \<and> length dss \<le> length (sv_poll_fds s) \<and>
     (\<forall>i < length dss. entry_deeds (pe_event e i) s (pf_fd (sv_poll_fds s ! i)) (dss ! i)) \<and>
     (\<forall>p \<in> set ps. expelled e s p \<and> hp_client t p = None) \<and>
     happens (concat dss @ map Leaves ps) (lobby s) (lobby t)"
proof -
  have s': "sound s" by (rule reachable_sound [OF s])
  obtain go t where t: "run_iteration e s = Some (go, t)" using run_iteration_sound [OF s' fresh] by (auto elim!: returnsE)
  obtain dss L ps where "length dss \<le> length (sv_poll_fds s)" "happens (concat dss) (lobby s) L" "happens (map Leaves ps) L (lobby t)"
      "\<forall>i < length dss. entry_deeds (pe_event e i) s (pf_fd (sv_poll_fds s ! i)) (dss ! i)" "\<forall>p \<in> set ps. expelled e s p \<and> hp_client t p = None"
    using iteration_deeds [OF s' fresh t] unfolding deeds_upto_def by blast
  then show ?thesis using t unfolding happens_append by blast
qed

theorem server_implements_rooms_witness:
  "\<exists>dss ps. run_iteration talk boot2 = Some (True, al_in_hall) \<and> length dss \<le> 3 \<and>
     (\<forall>i < length dss. entry_deeds (pe_event talk i) boot2 (pf_fd (sv_poll_fds boot2 ! i)) (dss ! i)) \<and>
     happens (concat dss @ map Leaves ps) (lobby boot2) (lobby al_in_hall)"
proof -
  have "length (sv_poll_fds boot2) = 3" by (simp add: boot2_def)
  then show ?thesis using server_implements_rooms [OF boot2_reachable talk_fresh] talk_run by auto
qed

text \<open>
  C4. Every command implements its abstract function on rooms, on every branch, errors included: the rooms after
  \<open>execute\<close> are those \<open>room_command\<close> computes from the rooms before, the parameters and the directory of nicknames. JOIN founds
  a room or enters it if it is admitted, JOIN 0, PART and KICK leave it and the last member takes it along, TOPIC, INVITE and
  MODE change one room, and the other commands leave all rooms as they are.
\<close>

theorem commands_refine_rooms:
  assumes s: "sound s" and p: "hp_client s p = Some c" and login: "needLogin k \<Longrightarrow> cl_is_registered c"
  shows "\<exists>t. execute k now p msg s = Some t \<and> rooms t = room_command k p (directory s) (m_parameter msg) (rooms s)"
  using execute_rooms [OF s p, of k now msg] login by (auto simp: returns_def)

theorem commands_refine_rooms_witness:
  "\<exists>t. execute Join 0 pB (cmd_msg ''JOIN'' [''#H'']) demo = Some t \<and> rooms t ''#h'' = Some (entered pB (room_of hall))"
proof -
  have "isValidChannelName ''#H''" "toLower ''#H'' = ''#h''" by code_simp+
  moreover have "admits (room_of hall) pB []" by (simp add: admits_def)
  ultimately have "room_command Join pB (directory demo) [''#H''] (rooms demo) ''#h'' = Some (entered pB (room_of hall))"
    by (simp add: room_join_def)
  then show ?thesis using commands_refine_rooms [OF demo_sound, of pB bob Join 0 "cmd_msg ''JOIN'' [''#H'']"] by auto
qed

text \<open>
  C5. The disconnection of a client is the abstract quit: it is gone from every room, from the members, the operators
  and the invited alike, the rooms it was alone in are gone, and all the others are as before.
\<close>

theorem quit_refines_rooms:
  assumes s: "sound s" and fd: "map_of (sv_clients s) fd = Some p" and unmarked: "\<not> isMarked fd s"
  shows "\<exists>t. disconnect fd reason s = Some t \<and> sound t \<and> rooms t = room_quit p (rooms s)"
proof -
  obtain c where c: "hp_client s p = Some c" using client_of_fd [OF s fd] by metis
  have "fd \<notin> fst ` set (sv_to_disconnected s)" using unmarked by (simp add: isMarked_def map_of_eq_None_iff)
  then obtain t notice where t: "disconnect fd reason s = Some t" "good t" "gone p fd notice s t"
    using disconnect_gone [OF soundD(1) [OF s] fd c] by blast
  then have "sound t" using gone_populated [OF soundD(1) [OF s] t(3) soundD(2) [OF s]] by (simp add: sound_def)
  with t gone_rooms [OF s t(2,3)] show ?thesis by blast
qed

theorem quit_refines_rooms_witness:
  "\<exists>t. disconnect 4 ''gone'' demo = Some t \<and> rooms t ''#h'' = None"
proof -
  have "departed pA (room_of hall) = None" by (simp add: departed_def)
  then have "room_quit pA (rooms demo) ''#h'' = None" by (simp add: room_quit_def evacuate_def)
  moreover have "\<not> isMarked 4 demo" by (simp add: isMarked_def)
  ultimately show ?thesis using quit_refines_rooms [OF demo_sound, of 4 pA "''gone''"] by auto
qed

section \<open>Authority\<close>

text \<open>
  C3. Nobody acts beyond its standing. Whatever command a client sends, in any room: only the client itself can become
  a member, and only by a JOIN for which key, invitation and limit admit it; another client loses its membership only when an
  operator kicks it; the operator status, the key, the limit, invite-only and the topic restriction change only by the MODE of an operator, save that
  who leaves loses the status; the topic changes only by the TOPIC of a member, and of an operator where it is restricted;
  an invitation is given only by the INVITE of a member, and of an operator where the room is invite-only, and disappears only when the invited client
  itself enters; a room disappears only when the client was alone in it and gives up its membership. A new room is the client's own.
\<close>

theorem command_authority:
  assumes s: "sound s" and p: "hp_client s p = Some c" and login: "needLogin k \<Longrightarrow> cl_is_registered c"
    and t: "execute k now p msg s = Some t"
  shows "case rooms s n of
     Some r \<Rightarrow> authorised k (m_parameter msg) p r (rooms t n)
   | None \<Rightarrow> rooms t n = None \<or> (\<exists>name. k = Join \<and> toLower name = n \<and> isValidChannelName name \<and> rooms t n = Some (founded p name))"
proof -
  have "rooms t = room_command k p (directory s) (m_parameter msg) (rooms s)" using execute_rooms [OF s p, of k now msg] login t by simp
  moreover note command_authorised [of "rooms s" n _ k "m_parameter msg" p "directory s", OF _ rooms_operators [OF s]]
    command_founds [of "rooms s" n k p "directory s" "m_parameter msg"]
  ultimately show ?thesis by (cases "rooms s n") auto
qed

theorem command_authority_witness:
  "\<exists>t. execute Kick 0 pB (cmd_msg ''KICK'' [''#h'', ''alice'']) demo = Some t \<and>
     authorised Kick [''#h'', ''alice''] pB (room_of hall) (rooms t ''#h'')"
proof -
  obtain t where t: "execute Kick 0 pB (cmd_msg ''KICK'' [''#h'', ''alice'']) demo = Some t"
    using cmd.execute_keeps [OF demo_sound, of pB bob Kick 0] by (auto simp: returns_def)
  show ?thesis using command_authority [OF demo_sound _ _ t, of bob "''#h''"] t by simp
qed

end
