(* ===== verification/Server_Properties.thy ===== *)
theory Server_Properties
  imports Irc_Demo
begin

text \<open>
  What the server object does: the dispatch of commands, the removal of clients, the housekeeping of the event
  loop, new connections, input and shutdown.
\<close>

section \<open>Dispatch\<close>

text \<open>
  C28. \<open>CommandRegistry::dispatch\<close>: a command that is not in the table is answered with 421, and the seven
  channel and message commands are answered with 451 while the client is not registered; nothing else changes.
\<close>

theorem dispatch_refusals:
  assumes p: "hp_client s p = Some c"
  shows "(m_command msg \<notin> fst ` set Parser_table \<longrightarrow>
       dispatch Parser_commands now p msg s = Some (post (to_one p
         [formatReplyWithParameter ERR_UNKNOWNCOMMAND (targetname c) (m_command msg) ''Unknown command'']) s)) \<and>
     (\<not> cl_is_registered c \<and> m_command msg \<in> {''INVITE'', ''JOIN'', ''KICK'', ''MODE'', ''PART'', ''PRIVMSG'', ''TOPIC''} \<longrightarrow>
       dispatch Parser_commands now p msg s = Some (post (to_one p
         [formatReply ERR_NOTREGISTERED ''*'' ''You have not registered'']) s))"
proof (intro conjI impI)
  assume "m_command msg \<notin> fst ` set Parser_table"
  then have "map_of Parser_commands (m_command msg) = None" by (simp only: Parser_commands_find map_of_eq_None_iff not_False_eq_True)
  then show "dispatch Parser_commands now p msg s = Some (post (to_one p
      [formatReplyWithParameter ERR_UNKNOWNCOMMAND (targetname c) (m_command msg) ''Unknown command'']) s)"
    using p by (simp add: dispatch_def reply_eq targetname_def)
next
  assume "\<not> cl_is_registered c \<and> m_command msg \<in> {''INVITE'', ''JOIN'', ''KICK'', ''MODE'', ''PART'', ''PRIVMSG'', ''TOPIC''}"
  then show "dispatch Parser_commands now p msg s = Some (post (to_one p
      [formatReply ERR_NOTREGISTERED ''*'' ''You have not registered'']) s)"
    using p by (auto simp: dispatch_def Parser_commands_find Parser_table_def reply_eq)
qed

theorem dispatch_refusals_witness:
  "dispatch Parser_commands 0 pC (cmd_msg ''WHO'' []) demo =
     Some (post (to_one pC [formatReplyWithParameter ERR_UNKNOWNCOMMAND ''*'' ''WHO'' ''Unknown command'']) demo) \<and>
   dispatch Parser_commands 0 pC (cmd_msg ''JOIN'' [''#h'']) demo =
     Some (post (to_one pC [formatReply ERR_NOTREGISTERED ''*'' ''You have not registered'']) demo)"
  using dispatch_refusals [of demo pC carol "cmd_msg ''WHO'' []" 0] dispatch_refusals [of demo pC carol "cmd_msg ''JOIN'' [''#h'']" 0]
  by (simp add: Parser_table_def targetname_def)

text \<open>
  C31. The registry owns its command objects. Registering any list of new objects never deletes an object twice or one that
  does not exist, a name registered twice keeps the later object and the earlier one is deleted; dispatching through the
  pointers is dispatching on the table of \<open>registerCommand\<close>; and the destructor deletes every object that is left. The
  constructor of \<open>Parser\<close> is one such list.
\<close>

theorem registry_ownership:
  "\<exists>r. each register_new es new_CommandRegistry = Some r \<and>
     (\<forall>n. Option.bind (map_of (rg_commands r) n) (hp_command r) = map_of (rev es) n) \<and>
     (\<forall>c. hp_command r c \<noteq> None \<longleftrightarrow> (\<exists>n. map_of (rg_commands r) n = Some c)) \<and>
     dispatch_object r = dispatch (fold (\<lambda>(name, command). registerCommand name command) es []) \<and>
     map_option hp_command (destroy_CommandRegistry r) = Some Map.empty"
proof -
  obtain r where r: "each register_new es new_CommandRegistry = Some r" "owns r" "registered r = map_of (rev es)"
    using register_all [OF owns_new, of es] by (auto simp: registered_new elim!: returnsE)
  have "map_of (fold (\<lambda>(name, command). registerCommand name command) es []) = registered r"
    unfolding r(3) registerCommand_def using omap.find_fold_put [of "[]" es] by (auto simp: fun_eq_iff split: option.splits)
  then have "dispatch_object r = dispatch (fold (\<lambda>(name, command). registerCommand name command) es [])"
    by (rule dispatch_registered [OF r(2)])
  then show ?thesis using r destroy_owned [OF r(2)] ownsD(3) [OF r(2)]
    by (intro exI [of _ r]) (simp add: registered_def fun_eq_iff)
qed

section \<open>Removing clients\<close>

text \<open>
  C16. \<open>Server::disconnect\<close> of a connected client: the client object is deleted and leaves every table; a
  channel of which it was the only member is deleted, in the others it is neither member nor operator nor invited; the
  other clients keep their state except that invitations to deleted channels go and that those who shared a channel with
  a registered client get one QUIT line, with the reason recorded when the link began to close if there is one. The
  state stays sound, so no pointer to the deleted objects is left.
\<close>

theorem disconnect_removes:
  assumes s: "sound s" and fd: "map_of (sv_clients s) fd = Some p" and p: "hp_client s p = Some c" and unmarked: "\<not> isMarked fd s"
  shows "\<exists>t notice. disconnect fd reason s = Some t \<and> sound t \<and>
     notice = quit_notice c (case map_of (sv_closing s) fd of Some r \<Rightarrow> r | None \<Rightarrow> reason) \<and>
     hp_client t = (\<lambda>p'. if p' = p then None else map_option (survivor p notice s p') (hp_client s p')) \<and>
     hp_channel t = surviving_channels p s \<and> sv_clients t = omap_erase fd (sv_clients s) \<and>
     sv_closing t = omap_erase fd (sv_closing s)"
proof -
  have "fd \<notin> fst ` set (sv_to_disconnected s)" using unmarked unfolding isMarked_def map_of_eq_None_iff by simp
  from disconnect_gone [OF soundD(1) [OF s] fd p this, of reason] obtain t where t: "disconnect fd reason s = Some t" "good t"
    "gone p fd (quit_notice c (case map_of (sv_closing s) fd of Some r \<Rightarrow> r | None \<Rightarrow> reason)) s t" by blast
  moreover have "sound t" using t gone_populated [OF soundD(1) [OF s] t(3) soundD(2) [OF s]] by (simp add: sound_def)
  ultimately show ?thesis by (auto simp: gone_def)
qed

theorem disconnect_removes_witness:
  "\<exists>t. disconnect 4 ''gone'' demo = Some t \<and> sound t \<and> hp_client t pA = None \<and> hp_channel t qH = None \<and>
     sv_clients t = [(5, pB), (6, pC)]"
  using disconnect_removes [OF demo_sound, of 4 pA alice "''gone''"]
  by (auto simp: isMarked_def surviving_channels_def lonely_def omap_erase_def)

text \<open>
  \<open>Server::cleanupDisconnected\<close> disconnects exactly the marked clients, empties the table of marks and
  leaves a sound state.
\<close>

theorem cleanup_removes:
  assumes s: "sound s"
  shows "\<exists>t. cleanupDisconnected s = Some t \<and> sound t \<and> sv_to_disconnected t = [] \<and>
     fst ` set (sv_clients t) = fst ` set (sv_clients s) - fst ` set (sv_to_disconnected s)"
  using cleanupDisconnected_removes [OF soundD(1) [OF s]] soundD(2) [OF s] by (auto simp: sound_def elim!: returnsE)

theorem cleanup_removes_witness:
  "\<exists>t. cleanupDisconnected (markForDisconnection 4 ''gone'' demo) = Some t \<and> fst ` set (sv_clients t) = {5, 6}"
proof -
  have "sound (markForDisconnection 4 ''gone'' demo)" by (rule mark_sound [OF demo_sound]) simp
  from cleanup_removes [OF this] show ?thesis by (auto simp: markForDisconnection_def)
qed



section \<open>The event loop\<close>

text \<open>
  C18. The loop of \<open>Server::receiveData\<close> over the lines of the input buffer terminates, whatever the client
  sent, and ends only when no complete line is left or the connection is marked or closing.
\<close>

theorem line_loop_returns:
  assumes "sound s" "hp_client s p = Some c"
  shows "\<exists>t c'. line_loop now fd p s = Some t \<and> sound t \<and> hp_client t p = Some c' \<and>
     (isMarked fd t \<or> \<not> hasCompleteLine c' \<or> map_of (sv_closing t) fd \<noteq> None)"
proof -
  obtain t where t: "line_loop now fd p s = Some t" "sound t" using line_loop_sound [OF assms, of now fd] by (auto elim!: returnsE)
  then show ?thesis using line_loop_stops [OF t(1)] by (auto simp: looping_def map_of_eq_None_iff)
qed

theorem line_loop_returns_witness: "sound al_in_hall \<and> (\<exists>t. line_loop 1 4 pA al_in_hall = Some t)"
proof -
  obtain c where "hp_client al_in_hall pA = Some c" using hall_al by blast
  then show ?thesis using line_loop_returns [OF reachable_sound [OF al_in_hall_reachable], of pA c 1 4] reachable_sound [OF al_in_hall_reachable] by blast
qed

text \<open>
  C19. How the network cuts the input into pieces does not matter: if a block of bytes is received in one call and the link does not
  begin to close, receiving any non-empty pieces of it one after the other ends in exactly the same state. The commands run on
  complete lines only, and the rest of a line waits in the buffer. Buffered input and block together stay within the 8192 bytes
  that the overflow check allows at any point; that one call of \<open>recv\<close> hands over at most 1024 bytes is not used.
\<close>

theorem input_chunks:
  assumes "sound s" "map_of (sv_clients s) fd = Some p" "hp_client s p = Some c"
    and "bs \<noteq> []" "\<forall>b \<in> set bs. b \<noteq> []" "length (cl_read_buffer c) + length (concat bs) \<le> 8192"
    and "map_of (sv_closing s) fd = None"
    and "receiveData now fd (Recv (concat bs)) s = Some t" "map_of (sv_closing t) fd = None"
  shows "each (\<lambda>b. receiveData now fd (Recv b)) bs s = Some t"
proof (cases bs)
  case (Cons a bs')
  then show ?thesis
    using assms(5-9) unfolding map_of_eq_None_iff by (blast intro: receive_chunks [OF assms(1-3)])
qed (use assms(4) in simp)

theorem input_chunks_witness:
  "each (\<lambda>b. receiveData 1 4 (Recv b)) [take 10 speech, drop 10 speech] boot2 = Some al_in_hall"
proof -
  have pieces: "concat [take 10 speech, drop 10 speech] = speech" by simp
  have s: "sound boot2" by (rule reachable_sound [OF boot2_reachable])
  have "map_of (sv_clients boot2) 4 = Some pA" "hp_client boot2 pA = Some (setIp ''h'' (new_Client 1 4))"
    "sv_closing boot2 = []" by (simp_all add: boot2_def boot1_def boot_defs)
  moreover have "length speech \<le> 8192" "take 10 speech \<noteq> []" "drop 10 speech \<noteq> []" by (simp_all add: speech_def)
  ultimately show ?thesis
    using input_chunks [OF s, of 4 pA "setIp ''h'' (new_Client 1 4)" "[take 10 speech, drop 10 speech]" 1 al_in_hall, unfolded pieces]
      al_speaks by (simp add: setIp_def new_Client_def)
qed



text \<open>
  C30. A failed \<open>accept\<close> stops the server from listening, and this is how it ends: after an iteration in which nothing fails and the listening socket
  reports nothing, the server listens again if no descriptor was ready or a client was removed, and in every other case it
  still listens exactly if it did before. While other clients keep the poll busy and none leaves, new connections wait.
\<close>

theorem listening_pause:
  assumes s: "sound s" and fresh: "accept_fresh s (ev_accept (pe_event e 0))" and quiet: "ev_revents (pe_event e 0) = {}"
    and ready: "0 \<le> pe_ready e" and smooth: "pe_fault e = None"
  shows "\<exists>t. run_iteration e s = Some (True, t) \<and>
     listening t = (if pe_ready e = 0 \<or> fst ` set (sv_clients t) \<noteq> fst ` set (sv_clients s) then {POLLIN} else listening s)"
proof -
  obtain go t where t: "run_iteration e s = Some (go, t)"
    using run_iteration_sound [OF s fresh] by (auto elim!: returnsE)
  then have "run_iteration e s = Some (True, t)" using run_iteration_goes [OF t ready] by simp
  then show ?thesis using run_iteration_listening [OF s fresh quiet ready smooth t] by blast
qed

theorem listening_pause_witness:
  "\<exists>s. listen_events {} boot2 = Some s \<and> sv_clients s = [(4, pA), (5, p2)] \<and>
     (\<exists>t. run_iteration (talk\<lparr>pe_event := (\<lambda>_. quiet_event)\<rparr>) s = Some (True, t) \<and> listening t = {})"
proof -
  let ?e = "talk\<lparr>pe_event := (\<lambda>_. quiet_event)\<rparr>"
  let ?s = "boot2\<lparr>sv_poll_fds := (createPollFd 3)\<lparr>pf_events := {}\<rparr> # map createPollFd [4, 5]\<rparr>"
  have l: "listen_events {} boot2 = Some ?s" by (simp add: listen_events_def boot2_def)
  then have "sound ?s" "sv_clients ?s = [(4, pA), (5, p2)]"
    using sound_listen_events [OF reachable_sound [OF boot2_reachable], of "{}"]
    by (simp_all add: grows_sound listening_listen) (simp add: boot2_def)
  moreover have "accept_fresh ?s (ev_accept (pe_event ?e 0))" "ev_revents (pe_event ?e 0) = {}" "0 \<le> pe_ready ?e" "pe_ready ?e \<noteq> 0" "pe_fault ?e = None"
    by (simp_all add: accept_fresh_def talk_def boot_defs)
  moreover have run: "run_iteration ?e ?s = Some (True, ?s)"
    by (simp add: smooth_iteration refreshPollEvents_def poll_step_def cleanupDisconnected_def checkIdleClients_def idle_step_def
        getConnectTime_def createPollFd_def setIp_def new_Client_def TIMEOUT_REGISTRATION_def upt_rec boot2_def boot1_def talk_def
        boot_defs Let_def)
  ultimately obtain t where "run_iteration ?e ?s = Some (True, t)" "listening t = listening ?s"
    using listening_pause [of ?s ?e] by auto
  then show ?thesis using l listening_listen [OF l] \<open>sv_clients ?s = [(4, pA), (5, p2)]\<close> by auto
qed

text \<open>
  C39. A client that has sent more than 8192 bytes without a newline is marked for disconnection, and no command
  is executed.
\<close>

theorem input_overflow:
  assumes p: "map_of (sv_clients s) fd = Some p" "hp_client s p = Some c" and alive: "map_of (sv_closing s) fd = None"
    and flood: "8192 < length (cl_read_buffer c @ bytes)" "LF \<notin> set (cl_read_buffer c @ bytes)" "bytes \<noteq> []"
  shows "receiveData now fd (Recv bytes) s = Some (markForDisconnection fd ''Input buffer overflow''
     (set_client p (updateLastActivity now (c\<lparr>cl_read_buffer := cl_read_buffer c @ bytes\<rparr>)) s))"
  using assms by (simp add: receiveData_def on_client_def omap_count_def updateLastActivity_def hasCompleteLine_iff del: omap_count_iff)

theorem input_overflow_witness:
  "let s = set_client pC (carol\<lparr>cl_read_buffer := replicate 8000 CHR ''x''\<rparr>) demo
   in \<exists>t. receiveData 0 6 (Recv (replicate 1000 CHR ''x'')) s = Some t \<and> isMarked 6 t"
  using input_overflow [of "set_client pC (carol\<lparr>cl_read_buffer := replicate 8000 CHR ''x''\<rparr>) demo" 6 pC
      "carol\<lparr>cl_read_buffer := replicate 8000 CHR ''x''\<rparr>" "replicate 1000 CHR ''x''" 0]
  by (simp add: demo_defs isMarked_def markForDisconnection_def set_client_def)

text \<open>
  C37. \<open>Server::checkIdleClients\<close>: a link that has been closing for more than 5 seconds is marked for
  disconnection; a client that has not registered within 60 seconds of connecting is marked; a registered client that has
  been silent for more than 300 seconds begins to close. This holds for every client in one pass.
\<close>

theorem idle_clients_closed:
  assumes s: "sound s" and it: "map_of (sv_clients s) fd = Some p" and c: "hp_client s p = Some c"
  shows "\<exists>t. checkIdleClients now s = Some t \<and> sound t \<and>
     (map_of (sv_closing s) fd \<noteq> None \<and> getClosingTime now c > 5 \<longrightarrow> isMarked fd t) \<and>
     (map_of (sv_closing s) fd = None \<and> \<not> cl_is_registered c \<and> getConnectTime now c > 60 \<longrightarrow> isMarked fd t) \<and>
     (map_of (sv_closing s) fd = None \<and> cl_is_registered c \<and> getIdleTime now c > 300 \<longrightarrow> map_of (sv_closing t) fd \<noteq> None)"
proof -
  obtain t where t: "checkIdleClients now s = Some t" "sound t"
    using checkIdleClients_sound [OF s, of now] by (auto elim!: returnsE)
  note idle = checkIdleClients_effect [OF s t(1) it]
  have "map_of (sv_closing t) fd \<noteq> None \<longleftrightarrow> fd \<in> fst ` set (sv_closing t)" by (simp only: map_of_eq_None_iff not_not)
  then show ?thesis
    using idle(1,2) t c by (cases "map_of (sv_closing s) fd")
      (simp_all add: overdue_def silent_def idle_view_def TIMEOUT_REGISTRATION_def TIMEOUT_SECONDS_def)
qed

theorem idle_clients_closed_witness:
  "\<exists>t. checkIdleClients 500 demo = Some t \<and> isMarked 6 t"
  using idle_clients_closed [OF demo_sound, of 6 pC carol 500] by (simp add: demo_defs getConnectTime_def) blast

text \<open>
  \<open>Server::refreshPollEvents\<close> asks for \<open>POLLOUT\<close> exactly for the clients with output pending within the
  limit, and marks exactly the clients whose pending output exceeds \<open>MAX_SENDQ\<close>, besides those marked before.
\<close>

theorem poll_set_refreshed:
  assumes s: "sound s"
  shows "\<exists>t. refreshPollEvents s = Some t \<and> sv_poll_fds t = map (wanted s) (sv_poll_fds s) \<and> hp_client t = hp_client s \<and>
     (\<forall>fd. isMarked fd t \<longleftrightarrow> isMarked fd s \<or> (\<exists>e \<in> set (sv_poll_fds s). pf_fd e = fd \<and> overfull s e))"
proof -
  let ?m = "mark_all ''SendQ exceeded'' (filter (overfull s) (sv_poll_fds s)) s"
  have ok: "omap_ok (sv_to_disconnected s)" using goodD(6) [OF soundD(1) [OF s]] by (simp add: inv_sched_def)
  have "refreshPollEvents s = Some (?m\<lparr>sv_poll_fds := map (wanted s) (sv_poll_fds s)\<rparr>)"
    by (simp add: refreshPollEvents_def refresh_loop_eq [OF all_live [OF soundD(3) [OF s]]])
  moreover have "hp_client ?m = hp_client s" by (rule mark_all_client)
  moreover have "isMarked fd (?m\<lparr>sv_poll_fds := es\<rparr>) \<longleftrightarrow> isMarked fd s \<or> (\<exists>e \<in> set (sv_poll_fds s). pf_fd e = fd \<and> overfull s e)" for fd es
    using isMarked_mark_all [OF ok, of fd "''SendQ exceeded''" "filter (overfull s) (sv_poll_fds s)"] by (auto simp: isMarked_def)
  ultimately show ?thesis by simp
qed

theorem poll_set_refreshed_witness:
  "\<exists>t. refreshPollEvents demo = Some t \<and> sv_poll_fds t = map createPollFd [3, 4, 5, 6]"
proof -
  have "map (wanted demo) (sv_poll_fds demo) = map createPollFd [3, 4, 5, 6]"
    by (simp add: wanted_def client_at_def demo_defs)
  then show ?thesis using poll_set_refreshed [OF demo_sound] by metis
qed



section \<open>The life of a connection\<close>

text \<open>
  C11. The output of a client is a stream of whole lines. Over one iteration of \<open>Server::run\<close>, whatever events
  it handles and wherever it fails, the output buffer of a client that is still connected afterwards only grows at the end by whole lines, each
  ended by CR LF, and loses at the front nothing but the bytes that one \<open>send\<close> on its own socket accepted, and those only if the socket was
  reported writable. In an iteration without failures it loses exactly these: what a writable socket took is gone from the buffer, and otherwise nothing is.
\<close>

theorem output_stream:
  assumes s: "sound s" and fresh: "accept_fresh s (ev_accept (pe_event e 0))" and run: "run_iteration e s = Some (go, t)"
    and c: "hp_client s p = Some c" and c': "hp_client t p = Some c'"
    and entry: "i < length (sv_poll_fds s)" "pf_fd (sv_poll_fds s ! i) = cl_fd c"
  shows "\<exists>n before after. cl_write_buffer c' = drop n (cl_write_buffer c @ frames before) @ frames after \<and>
     (n = 0 \<or> POLLOUT \<in> ev_revents (pe_event e i) \<and> n = nat (ev_send (pe_event e i))) \<and>
     (pe_fault e = None \<and> 0 \<le> pe_ready e \<longrightarrow> n = (if POLLOUT \<in> ev_revents (pe_event e i) then nat (ev_send (pe_event e i)) else 0))"
proof (cases "pe_fault e = None \<and> 0 \<le> pe_ready e")
  case True
  then have "flows (offered (pe_event e i)) c c'" using iteration_drains [OF s fresh _ _ run c entry c'] by blast
  then show ?thesis unfolding flows_def offered_def by (auto split: if_splits)
next
  case False
  then show ?thesis using iteration_stream [OF s fresh run c entry c'] unfolding flows_def sent_by_def by blast
qed

theorem output_stream_witness:
  "let s = post (to_one pA [''hi'']) demo; e = talk\<lparr>pe_event := (\<lambda>i. quiet_event\<lparr>ev_revents := if i = 1 then {POLLOUT} else {}, ev_send := 3\<rparr>)\<rparr>
   in \<exists>t c'. run_iteration e s = Some (True, t) \<and> hp_client t pA = Some c' \<and>
     (\<exists>before after. cl_write_buffer c' = drop 3 (frames [''hi''] @ frames before) @ frames after)"
proof -
  let ?s = "post (to_one pA [''hi'']) demo" and ?e = "talk\<lparr>pe_event := (\<lambda>i. quiet_event\<lparr>ev_revents := if i = 1 then {POLLOUT} else {}, ev_send := 3\<rparr>)\<rparr>"
  have s: "sound ?s" "accept_fresh ?s (ev_accept (pe_event ?e 0))" using demo_sound by (simp_all add: sound_def accept_fresh_def quiet_event_def)
  let ?t = "set_client pA (alice\<lparr>cl_write_buffer := [LF]\<rparr>) (post (to_one pA [''hi'']) demo\<lparr>sv_poll_fds := [createPollFd 3, (createPollFd 4)\<lparr>pf_events := {POLLIN, POLLOUT}\<rparr>, createPollFd 5, createPollFd 6]\<rparr>)"
  have run: "run_iteration ?e ?s = Some (True, ?t)"
    by (simp add: smooth_iteration refreshPollEvents_def poll_step_def client_turn_def sendData_def isMarked_def on_client_def set_client_def
        cleanupDisconnected_def checkIdleClients_def idle_step_def getConnectTime_def getIdleTime_def emit_def frames_def post_def
        TIMEOUT_REGISTRATION_def TIMEOUT_SECONDS_def MAX_SENDQ_def upt_rec talk_def boot_defs demo_defs Let_def)
  have "\<exists>n before after. cl_write_buffer (alice\<lparr>cl_write_buffer := [LF]\<rparr>) = drop n (cl_write_buffer (emit [''hi''] alice) @ frames before) @ frames after \<and>
      (n = 0 \<or> POLLOUT \<in> ev_revents (pe_event ?e 1) \<and> n = nat (ev_send (pe_event ?e 1))) \<and>
      (pe_fault ?e = None \<and> 0 \<le> pe_ready ?e \<longrightarrow> n = (if POLLOUT \<in> ev_revents (pe_event ?e 1) then nat (ev_send (pe_event ?e 1)) else 0))"
    by (rule output_stream [OF s run, where p = pA]) (simp_all add: demo_defs)
  moreover have "cl_write_buffer (emit [''hi''] alice) = frames [''hi'']" by (simp add: demo_defs)
  moreover have "pe_fault ?e = None" "0 \<le> pe_ready ?e" by (simp_all add: talk_def boot_defs)
  ultimately show ?thesis using run by (auto simp: quiet_event_def)
qed

text \<open>
  C12. Nobody stays for ever on a link the server wants to close. In two iterations without failures, each of which \<open>poll\<close> ends by returning,
  a client that is marked is deleted by the first; one whose link has been closing for more than 5 seconds is deleted
  by the second; and one that connected more than 60 seconds ago is deleted by the second unless it is registered or its link is closing after the first.
\<close>

theorem overdue_clients_leave:
  assumes s: "reachable s" and p: "hp_client s p = Some c"
    and quiet: "pe_fault e = None" "0 \<le> pe_ready e" "pe_fault e' = None" "0 \<le> pe_ready e'"
    and fresh: "accept_fresh s (ev_accept (pe_event e 0))"
      "\<And>t. run_iteration e s = Some (True, t) \<Longrightarrow> accept_fresh t (ev_accept (pe_event e' 0))"
  shows "\<exists>t u. run_iteration e s = Some (True, t) \<and> run_iteration e' t = Some (True, u) \<and>
     (isMarked (cl_fd c) s \<longrightarrow> hp_client t p = None) \<and>
     (map_of (sv_closing s) (cl_fd c) \<noteq> None \<and> getClosingTime (pe_now e) c > 5 \<longrightarrow> hp_client u p = None) \<and>
     (getConnectTime (pe_now e) c > 60 \<longrightarrow> hp_client u p = None \<or> registered_at p t \<or> map_of (sv_closing t) (cl_fd c) \<noteq> None)"
proof -
  obtain t where t: "run_iteration e s = Some (True, t)" "sound t" "cptr_addr p < hp_next t"
    and d: "\<And>d. hp_client t p = Some d \<Longrightarrow> cl_fd d = cl_fd c \<and> cl_fd c \<notin> marks s \<and>
      (cl_fd c \<in> closings s \<and> getClosingTime (pe_now e) c > 5 \<longrightarrow> cl_fd c \<in> marks t) \<and>
      (getConnectTime (pe_now e) c > TIMEOUT_REGISTRATION \<longrightarrow> registered_at p t \<or> cl_fd c \<in> closings t \<or> cl_fd c \<in> marks t)"
    using leaving_iteration [OF reachable_sound [OF s] quiet(1,2) fresh(1) p] by blast
  obtain u where u: "run_iteration e' t = Some (True, u)" and left: "hp_client u p \<noteq> None \<Longrightarrow> \<exists>d. hp_client t p = Some d \<and> cl_fd d \<notin> marks t"
    using next_iteration [OF t(2) quiet(3,4) fresh(2) [OF t(1)] t(3)] by blast
  have "hp_client t p = None" if "isMarked (cl_fd c) s"
    using d that unfolding isMarked_iff by (cases "hp_client t p") blast+
  moreover have "hp_client u p = None" if "map_of (sv_closing s) (cl_fd c) \<noteq> None" "getClosingTime (pe_now e) c > 5"
    using left d that unfolding closings_iff not_not by metis
  moreover have "hp_client u p = None \<or> registered_at p t \<or> map_of (sv_closing t) (cl_fd c) \<noteq> None" if "getConnectTime (pe_now e) c > 60"
    using left d that unfolding closings_iff not_not TIMEOUT_REGISTRATION_def by metis
  ultimately show ?thesis using t(1) u by blast
qed

theorem overdue_clients_leave_witness:
  "\<exists>t u. run_iteration (talk\<lparr>pe_event := (\<lambda>_. quiet_event), pe_now := 100\<rparr>) boot2 = Some (True, t) \<and>
     run_iteration (talk\<lparr>pe_event := (\<lambda>_. quiet_event), pe_now := 101\<rparr>) t = Some (True, u) \<and>
     (hp_client u pA = None \<or> registered_at pA t \<or> map_of (sv_closing t) 4 \<noteq> None)"
proof -
  have fresh: "accept_fresh s (ev_accept (pe_event (talk\<lparr>pe_event := (\<lambda>_. quiet_event), pe_now := n\<rparr>) 0))" for s n
    by (simp add: accept_fresh_def quiet_event_def)
  have "pe_fault talk = None" "0 \<le> pe_ready talk" by (simp_all add: talk_def first_contact_def)
  then show ?thesis
    using overdue_clients_leave [OF boot2_reachable boot2_al(1), of "talk\<lparr>pe_event := (\<lambda>_. quiet_event), pe_now := 100\<rparr>"
        "talk\<lparr>pe_event := (\<lambda>_. quiet_event), pe_now := 101\<rparr>"] fresh
    by (simp add: getConnectTime_def setIp_def new_Client_def)
qed

section \<open>Shutdown\<close>

text \<open>
  C40. The destructor of \<open>Server\<close> deletes every client and every channel, each exactly once: nothing is left
  on the heap and nothing is deleted twice.
\<close>

theorem shutdown_frees:
  assumes "sound s"
  shows "\<exists>t. destroy s = Some t \<and> hp_client t = Map.empty \<and> hp_channel t = Map.empty"
  using destroy_frees [OF soundD(3) [OF assms]] .

theorem shutdown_frees_witness:
  "hp_client demo pA \<noteq> None \<and> (\<exists>t. destroy demo = Some t \<and> hp_client t = Map.empty \<and> hp_channel t = Map.empty)"
  using shutdown_frees [OF demo_sound] by simp

end
