(* ===== verification/Spec2Isabelle.thy ===== *)
theory Spec2Isabelle
  imports Protocol_Properties Command_Properties Room_Properties Server_Properties
begin

text \<open>
  \<^bold>\<open>A verification library for the ircserv IRC server\<close>

  The program is a single-process IRC server in C++98 (\<open>src/\<close>). \<open>main.cpp\<close> checks the command line and runs a
  \<open>Server\<close>; \<open>network/\<close> holds the \<open>Server\<close> object with its \<open>poll\<close> loop, the tables of clients and channels and the
  closing of connections; \<open>Client.cpp\<close> is the state of one connection; \<open>channel/Channel.cpp\<close> is the state of one channel
  and the handlers of the channel commands; \<open>parse/\<close> turns a line into a message and finds the command object for it;
  \<open>common/commandlist/\<close> has one class per command, all behind the interface \<open>ICommand\<close>; \<open>common/\<close> formats replies.
  Clients and channels refer to each other by raw pointers in both directions, and objects are created and deleted while
  the loop runs, so the heart of the matter is that no pointer dangles and no loop is caught halfway.

  \<^bold>\<open>The theories\<close>

  \<^item> \<open>Irc_Prelude\<close>: \<open>std::map\<close> and \<open>std::set\<close> as association lists in strict key order, with the locale
    \<open>ordered_map\<close> for their contract; the erase-remove idiom; \<open>size_t\<close> subtraction with wrap-around; the total-correctness
    predicate \<open>returns\<close> for computations that may fault.
  \<^item> \<open>Irc_Text\<close>: \<open>common/IrcHelpers.cpp\<close>, \<open>makeReply\<close> of \<open>common/Reply.cpp\<close>, the numerics, the C library's character
    classes, \<open>strtol\<close> and \<open>atoi\<close>, and the two UTF-8 truncations, which interpret the locale \<open>utf8_truncation\<close>.
  \<^item> \<open>Irc_Message\<close>: \<open>parse/Message.cpp\<close>, position arithmetic and all, with a grammar over suffixes and a printer.
  \<^item> \<open>Irc_Client\<close>, \<open>Irc_Channel_Base\<close>: the records for \<open>Client.hpp\<close> and \<open>channel/Channel.hpp\<close> and the methods that touch
    one object; the syntax checks of \<open>Nick.cpp\<close> and \<open>Join.cpp\<close>.
  \<^item> \<open>Irc_State\<close>: the record for \<open>network/Server.hpp\<close> together with the heap its pointers point into; a method call
    through a pointer to an object that does not exist is a fault (\<open>None\<close>). Output is \<open>post\<close>, which appends messages to the
    output buffers of any number of clients.
  \<^item> \<open>Irc_Invariant\<close>: the invariant \<open>wf\<close> of the tables, lists and back pointers, the values \<open>vals\<close>, and what joining,
    leaving, inviting, creating and deleting do to them. \<open>good\<close> is both; \<open>sound\<close> (in \<open>Irc_Contract\<close>) adds that no channel
    is empty.
  \<^item> \<open>Irc_Channel\<close>: the handlers of \<open>channel/Channel.cpp\<close>, their closed forms on well-formed states, and the refinement of the
    mode loop to a pure function on channels.
  \<^item> \<open>Irc_Server\<close>: \<open>network/ServerUtils.cpp\<close>, \<open>ChannelHandler.cpp\<close>, \<open>ServerDisconnect.cpp\<close>, what the lookups find and
    what a removal leaves behind.
  \<^item> \<open>Irc_Commands\<close>, \<open>Irc_Contract\<close>: the \<open>execute\<close> methods; the locale \<open>icommand\<close> is the contract of \<open>ICommand\<close>, and its
    interpretation on all thirteen classes is the proof that they fulfil it.
  \<^item> \<open>Irc_Dispatch\<close>: \<open>parse/CommandRegistry.cpp\<close> and \<open>parse/Parser.cpp\<close>, the registry as a plain table.
  \<^item> \<open>Irc_Registry\<close>: the registry once more, with its pointers to command objects on a heap of their own; who deletes what, and that
    dispatching through the pointers is dispatching on the table.
  \<^item> \<open>Irc_Network\<close>, \<open>Irc_Safety\<close>, \<open>Irc_Housekeeping\<close>: the event loop of \<open>network/Server.cpp\<close> and
    \<open>network/ServerConnection.cpp\<close>; that it returns and keeps the state sound; the reachable states; what the housekeeping
    does to each client, and when the listening socket is polled. The locale \<open>receiving\<close> says what an invariant of the
    server must allow for while a client's input is read and its lines are executed, failures included, and \<open>turn\<close> extends it by \<open>sendData\<close>; the loop over
    the poll set and the iteration have invariant principles (\<open>poll_loop_keeps\<close>, \<open>run_iteration_keeps\<close>). The refinement of the rooms,
    the output stream and the departure of clients are interpretations of these.
  \<^item> \<open>Irc_Buffering\<close>: no command looks at the input buffer of its client or at the clock of its arrival (locale \<open>unobserved\<close>), so input may
    arrive in any pieces.
  \<^item> \<open>Irc_Output\<close>, \<open>Irc_Departure\<close>: the life of one connection across iterations of the loop: its output as a stream of lines
    (\<open>flows\<close>), and how a link that is being closed comes to its end (\<open>onward\<close>).
  \<^item> \<open>Irc_Rooms\<close>: the abstract specification. A \<open>room\<close> is a channel as its users see it, with sets for lists; \<open>rooms\<close> is the
    partial function from folded names to rooms and \<open>directory\<close> the one from folded nicknames to clients; \<open>room_command\<close> says what a command does to
    the rooms and \<open>room_quit\<close> what a disconnection does. The channel handlers implement it.
  \<^item> \<open>Irc_Room_Commands\<close>, \<open>Irc_Room_Steps\<close>: so do the thirteen commands and the whole iteration, which is a sequence of
    \<open>room_step\<close>s; who may change what (\<open>authorised\<close>).
  \<^item> \<open>Irc_Main\<close>: \<open>main.cpp\<close>.
  \<^item> \<open>Irc_Demo\<close>: concrete states at which the properties are applied, among them a reachable one with two clients and a channel.
  \<^item> \<open>Protocol_Properties\<close>, \<open>Command_Properties\<close>, \<open>Room_Properties\<close>, \<open>Server_Properties\<close> and this theory: the properties.

  \<^bold>\<open>Correspondence\<close>

  A class is a record with the fields of the class (prefix \<open>cl_\<close>, \<open>ch_\<close>, \<open>sv_\<close>, \<open>m_\<close>); pointers are the datatypes \<open>cptr\<close> and
  \<open>chptr\<close> and the heap the two partial functions \<open>hp_client\<close> and \<open>hp_channel\<close>. \<open>new\<close> returns an address that was
  never used; since in a sound state no pointer to a deleted object is left, reuse of addresses would not be observable. A method is a
  function with the name of the method and the object as an argument; getters are the record selectors. Strings are lists of
  bytes, \<open>int\<close> values are integers whose range is shown where it matters (the user limit is below \<open>10 ^ 9\<close>), positions and sizes
  are natural numbers, and the one unsigned subtraction that could wrap around is written with 64-bit words. The loop over the
  lines of the input buffer is a \<open>partial_function\<close> whose termination is a property; every other loop is a total function.

  What the operating system returns is an argument: \<open>init_env\<close>, \<open>accept_env\<close>, \<open>recv_result\<close>, the result of \<open>send\<close>, and
  for every iteration of the loop a \<open>poll_env\<close> with the result of \<open>poll\<close>, the reported events and the clock. The only
  assumption on it is \<open>accept_fresh\<close>: \<open>accept\<close> does not return a descriptor that is already open. \<open>std::time\<close> is read once
  per event. The signal handler's \<open>g_stop\<close> is the end of the list of iterations. A turn of a
  client may fail: the field \<open>ev_fault\<close> of its event says where \<open>receiveData\<close> throws, when the input is appended to the buffer or when a line is taken
  from it after some lines have been handled, and \<open>client_turn\<close> has the handler of \<open>Server::run\<close> that marks the client. An exception may also leave the loop body: the field \<open>pe_fault\<close>
  of an iteration says in which of its four parts (\<open>refresh_phase\<close>, \<open>poll_phase\<close>, \<open>cleanup_phase\<close>, \<open>idle_phase\<close>) and at which of its steps a mark, the
  copy of a reason or a line cannot be stored; what was done before stays, and the outer handler goes on with the next iteration. A point at which the
  code would not have stored anything does not fail.

  \<^bold>\<open>Properties\<close>

  This theory has the properties of the whole program (safety of the loop, exit code, the contract of the commands,
  authentication, the invariants of reachable states). \<open>Command_Properties\<close> gives the behaviour of the channel handlers and
  commands on every branch, \<open>Room_Properties\<close> the refinement of the abstract rooms by commands, disconnections and the event loop, and
  the authority it takes to change a room, \<open>Server_Properties\<close> the behaviour of dispatch and registry, disconnection, line loop, input in
  pieces, failing turns, time-outs, poll set, listening socket, new connections, output, departure and shutdown, \<open>Protocol_Properties\<close> that of the splitter, the truncations and the framing. \<open>sound\<close> states are the
  hypothesis of most of them; every reachable state is sound.

  \<^bold>\<open>Not modelled\<close>

  The sockets themselves and the log output. Exceptions (\<open>std::bad_alloc\<close>) are modelled in \<open>init\<close> and \<open>acceptNewClient\<close>, where the code
  recovers from them itself, where the input of a client is buffered and cut into lines, and where the event loop stores a mark, a reason or a
  line of its own. An allocation that fails in the middle of a command, of the removal of one client or of a reply is not: such a failure leaves the
  lists of two objects half updated, the code has no repair for that beyond the two handlers of \<open>Server::run\<close>, and every allocating expression would be
  a point of failure. Nor is a send error whose mark cannot be stored. The private copy operations that are declared only to forbid
  copying are left out. The \<open>revents\<close> field of the poll set is part of the events of an iteration.

  \<^bold>\<open>Bounds\<close>

  No definition uses fuel except \<open>mode_changes\<close> of the abstract specification, whose first argument is the number of changes one MODE may make,
  three as in \<open>Mode.cpp\<close>, and \<open>lines_until\<close>, whose first argument is the number of lines handled before the failure. The number in a \<open>loop_fault\<close> is a position in the list that part goes through. The property on input in pieces
  is for buffers within the 8192 bytes of \<open>ServerConnection.cpp\<close>.
\<close>

section \<open>The whole program\<close>

text \<open>
  C1. Memory safety and progress of the event loop. In every state the server can reach, whatever the clients
  send and whatever the calls of the operating system return, the state is sound and the next iteration of \<open>Server::run\<close>
  returns: no pointer to a deleted object is followed, no entry beyond the poll set is read, no object is deleted twice and no loop
  runs forever. The one thing asked of the operating system is that \<open>accept\<close> does not return a descriptor that is open.
\<close>

theorem server_is_safe:
  assumes s: "reachable s" and fresh: "accept_fresh s (ev_accept (pe_event e 0))"
  shows "sound s \<and> (\<exists>go t. run_iteration e s = Some (go, t) \<and> sound t \<and> reachable t)"
proof -
  have "sound s" by (rule reachable_sound [OF s])
  moreover obtain go t where t: "run_iteration e s = Some (go, t)" "sound t"
    using run_iteration_sound [OF \<open>sound s\<close> fresh] by (auto elim!: returnsE)
  ultimately show ?thesis using reachable.iteration [OF s fresh t(1)] by blast
qed

theorem server_is_safe_witness: "reachable boot \<and> (\<exists>go t. run_iteration first_contact boot = Some (go, t) \<and> sound t)"
  using server_is_safe [OF boot_reachable boot_fresh] boot_reachable by blast

text \<open>
  C6. \<open>main\<close> always terminates the server object properly: for every command line, every outcome of the
  socket setup and every finite sequence of events before the stop signal it returns, with exit code 0 when the setup
  succeeded and 1 when the arguments were refused or the setup failed.
\<close>

theorem main_exit_code:
  assumes "main_fresh ie es argv"
  shows "main ie es argv = Some (case check_args argv of
     Start port password \<Rightarrow> (case init ie (new_Server port password) of Inl _ \<Rightarrow> 1 | Inr _ \<Rightarrow> 0) | _ \<Rightarrow> 1)"
  using assms by (rule main_returns)

theorem main_exit_code_witness: "main demo_init [first_contact] [''ircserv'', ''6667'', ''pw''] = Some 0"
proof -
  have args: "check_args [''ircserv'', ''6667'', ''pw''] = Start 6667 ''pw''" by code_simp
  then have "main_fresh demo_init [first_contact] [''ircserv'', ''6667'', ''pw'']"
    using boot_fresh boot_contact by (simp add: main_fresh_def boot_init)
  from main_exit_code [OF this] show ?thesis by (simp add: args boot_init)
qed

text \<open>
  C7. Every command, with any parameters, on any sound state and from any client that is registered if the
  command asks for it, returns and keeps the state sound, leaves the client table, the poll set, the marks and every input
  buffer alone, and never takes back a registration.
\<close>

theorem command_contract:
  assumes "sound s" "hp_client s p = Some c" "needLogin k \<Longrightarrow> cl_is_registered c"
  shows "\<exists>t. execute k now p msg s = Some t \<and> sound t \<and> sv_clients t = sv_clients s \<and> sv_poll_fds t = sv_poll_fds s \<and>
     sv_to_disconnected t = sv_to_disconnected s \<and> (\<forall>p'. registered_at p' s \<longrightarrow> registered_at p' t) \<and>
     (\<forall>p'. map_option cl_read_buffer (hp_client t p') = map_option cl_read_buffer (hp_client s p'))"
  using cmd.execute_keeps [OF assms, of k now msg] frameD(1,2,3,6,10) by (auto simp: keeps_but_def elim!: returnsE)

theorem command_contract_witness:
  "\<exists>t. execute Kick 0 pA (cmd_msg ''KICK'' [''#h'', ''bob'']) demo = Some t \<and> sound t"
  using command_contract [OF demo_sound, of pA alice Kick 0 "cmd_msg ''KICK'' [''#h'', ''bob'']"] by auto

section \<open>Authentication\<close>

text \<open>
  C8. The only way to become a verified client is to send the server password: if a line makes a client
  verified, then it is the client that sent the line, and the line is PASS with exactly the password of the server.
\<close>

theorem only_password_verifies:
  assumes s: "sound s" and p: "hp_client s p = Some c"
  shows "\<exists>ok t. operate now p raw s = Some (ok, t) \<and>
     (\<forall>p'. verified_at p' t \<and> \<not> verified_at p' s \<longrightarrow> p' = p \<and>
        (\<exists>m. accepted (spliter raw Message0) = Some m \<and> m_command m = ''PASS'' \<and> m_parameter m \<noteq> [] \<and>
             m_parameter m ! 0 = sv_password s))"
proof -
  obtain ok t where op: "operate now p raw s = Some (ok, t)" and k: "keeps_but (line_grants p raw s) s t"
    using operate_keeps [OF s p, of now raw] by (auto elim!: returnsE)
  have only: "p' = p \<and> (\<exists>m. accepted (spliter raw Message0) = Some m \<and> m_command m = ''PASS'' \<and> m_parameter m \<noteq> [] \<and>
             m_parameter m ! 0 = sv_password s)" if "Verify p' \<in> line_grants p raw s" for p'
  proof -
    have pass: "name = ''PASS''" if "map_of Parser_commands name = Some Pass" for name
      using that by (auto simp: Parser_commands_find Parser_table_def split: if_splits)
    show ?thesis using that pass
      by (auto simp: line_grants_def dispatch_grants_def granted_def pass_grants_def same_nick_def nick_grants_def split: option.splits if_splits)
  qed
  have "Verify p' \<in> line_grants p raw s" if "verified_at p' t" "\<not> verified_at p' s" for p'
    using k that frameD(11) by (auto simp: keeps_but_def)
  then show ?thesis using op only by blast
qed

theorem only_password_verifies_witness:
  "\<exists>ok t. operate 0 pC ''PASS pw'' demo = Some (ok, t) \<and> (\<forall>p'. verified_at p' t \<and> \<not> verified_at p' demo \<longrightarrow> p' = pC)"
  using only_password_verifies [OF demo_sound, of pC carol 0 "''PASS pw''"] by auto

text \<open>
  C9. A client that sends PASS with the password, NICK with a valid nickname nobody else has and USER with
  a name without @ is registered under these names and gets the four welcome lines, and nothing else changes.
\<close>

theorem registration_succeeds:
  assumes s: "sound s" and p: "hp_client s p = Some c" "unnamed c" and pw: "sv_password s \<noteq> []"
    and n: "free_nick n p s" and u: "u \<noteq> []" "CHR ''@'' \<notin> set u"
  shows "do { s \<leftarrow> Pass_execute now p (cmd_msg ''PASS'' [sv_password s]) s;
              s \<leftarrow> Nick_execute now p (cmd_msg ''NICK'' [n]) s;
              User_execute now p (cmd_msg ''USER'' [u, m, x, r]) s } =
     Some (let c' = c\<lparr>cl_is_password_verified := True, cl_nickname := n, cl_username := u, cl_realname := r,
                      cl_is_registered := True\<rparr>
           in set_client p (emit (greeting c') c') s)"
proof -
  let ?c1 = "c\<lparr>cl_is_password_verified := True\<rparr>"
  let ?s1 = "set_client p ?c1 s" and ?s2 = "set_client p (?c1\<lparr>cl_nickname := n\<rparr>) s"
  have c1: "unnamed ?c1" "free_nick n p ?s1" using p(2) n by (simp_all add: unnamed_def free_nick_def)
  have "wf ?s1" by (rule wf_set_client [OF soundD(3) [OF s] p(1)]) simp_all
  then have nick: "Nick_execute now p (cmd_msg ''NICK'' [n]) ?s1 = Some ?s2"
    using nick_step [of ?s1 p ?c1 n now] c1 by simp
  moreover have "n \<noteq> []" using n by (auto simp: free_nick_def isValidNickname_def)
  ultimately show ?thesis
    using p pw u pass_step [OF p pw] by (simp add: user_step unnamed_def Let_def greeting_def)
qed

theorem registration_succeeds_witness:
  "\<exists>t. do { s \<leftarrow> Pass_execute 0 pC (cmd_msg ''PASS'' [sv_password demo]) demo;
            s \<leftarrow> Nick_execute 0 pC (cmd_msg ''NICK'' [''eve'']) s;
            User_execute 0 pC (cmd_msg ''USER'' [''e'', ''0'', ''*'', ''Eve'']) s } = Some t \<and> registered_at pC t"
proof -
  have "isValidNickname ''eve''" "toLower ''alice'' \<noteq> toLower ''eve''" "toLower ''bob'' \<noteq> toLower ''eve''" by code_simp+
  then have "free_nick ''eve'' pC demo" by (auto simp: free_nick_def demo_client)
  moreover have "unnamed carol" by (simp add: unnamed_def demo_defs)
  ultimately show ?thesis
    using registration_succeeds [OF demo_sound, of pC carol "''eve''" "''e''" 0 "''0''" "''*''" "''Eve''"]
    by (simp add: registered_at_def Let_def)
qed

text \<open>
  C10. A client that gave a wrong password and both names is not registered: it gets 464 and the closing
  line, and its link is closing with the reason \<open>Bad Password\<close>.
\<close>

theorem wrong_password_refused:
  assumes s: "sound s" and p: "hp_client s p = Some c" "unnamed c" and pw: "pw \<noteq> sv_password s" "pw \<noteq> []"
    and n: "free_nick n p s" and u: "u \<noteq> []" "CHR ''@'' \<notin> set u"
  shows "\<exists>t c'. do { s \<leftarrow> Pass_execute now p (cmd_msg ''PASS'' [pw]) s;
              s \<leftarrow> Nick_execute now p (cmd_msg ''NICK'' [n]) s;
              User_execute now p (cmd_msg ''USER'' [u, m, x, r]) s } = Some t \<and>
     hp_client t p = Some c' \<and> \<not> cl_is_registered c' \<and> map_of (sv_closing t) (cl_fd c) = Some ''Bad Password'' \<and>
     cl_write_buffer c' = cl_write_buffer c @ frames [formatReply ERR_PASSWDMISMATCH ''*'' ''Password incorrect'',
       ''ERROR :Closing Link: '' @ cl_ip c @ '' (Bad Password)'']"
proof -
  let ?c1 = "c\<lparr>cl_is_password_verified := False\<rparr>"
  let ?s1 = "set_client p ?c1 s" and ?s2 = "set_client p (?c1\<lparr>cl_nickname := n\<rparr>) s"
  have c1: "unnamed ?c1" "free_nick n p ?s1" using p(2) n by (simp_all add: unnamed_def free_nick_def)
  have "wf ?s1" by (rule wf_set_client [OF soundD(3) [OF s] p(1)]) simp_all
  then have nick: "Nick_execute now p (cmd_msg ''NICK'' [n]) ?s1 = Some ?s2"
    using nick_step [of ?s1 p ?c1 n now] c1 by simp
  have n0: "n \<noteq> []" using n by (auto simp: free_nick_def isValidNickname_def)
  have "omap_ok (sv_closing s)" using goodD(6) [OF soundD(1) [OF s]] by (simp add: inv_sched_def)
  then show ?thesis
    using p pw u n0 nick pass_step [OF p pw(2)]
    by (simp add: user_step unnamed_def Let_def disconnectClient_def disconnectAfterFlush_eq markClosing_def)
qed

theorem wrong_password_refused_witness:
  "\<exists>t. do { s \<leftarrow> Pass_execute 0 pC (cmd_msg ''PASS'' [''no'']) demo;
            s \<leftarrow> Nick_execute 0 pC (cmd_msg ''NICK'' [''eve'']) s;
            User_execute 0 pC (cmd_msg ''USER'' [''e'', ''0'', ''*'', ''Eve'']) s } = Some t \<and>
     map_of (sv_closing t) 6 = Some ''Bad Password''"
proof -
  have "isValidNickname ''eve''" "toLower ''alice'' \<noteq> toLower ''eve''" "toLower ''bob'' \<noteq> toLower ''eve''" by code_simp+
  then have "free_nick ''eve'' pC demo" by (auto simp: free_nick_def demo_client)
  moreover have "unnamed carol" by (simp add: unnamed_def demo_defs)
  ultimately show ?thesis
    using wrong_password_refused [OF demo_sound, of pC carol "''no''" "''eve''" "''e''" 0 "''0''" "''*''" "''Eve''"] by auto
qed

section \<open>What holds in every reachable state\<close>

text \<open>
  C13. The links between clients and channels agree in both directions: the channels in the map of a client
  are exactly the existing channels that have it on their member list, under their own names, and its list of invitations
  is exactly the existing channels that have it on their list of invited clients.
\<close>

theorem reachable_membership:
  assumes s: "reachable s" and p: "hp_client s p = Some c"
  shows "(\<forall>n q. map_of (cl_joinedChannels c) n = Some q \<longleftrightarrow>
       (\<exists>ch. hp_channel s q = Some ch \<and> ch_name ch = n \<and> p \<in> set (ch_members ch))) \<and>
     (\<forall>q. q \<in> set (cl_invitedChannels c) \<longleftrightarrow> (\<exists>ch. hp_channel s q = Some ch \<and> p \<in> set (ch_invitedUsers ch)))"
proof -
  have wf: "wf s" using soundD(3) [OF reachable_sound [OF s]] .
  show ?thesis
    using inv_joinedD(2) [OF wfD(4) [OF wf] p] inv_invitedD(2) [OF wfD(5) [OF wf] p]
    by (simp add: in_channel_def invited_in_def)
qed

theorem reachable_membership_witness:
  "\<exists>c. hp_client al_in_hall pA = Some c \<and> map_of (cl_joinedChannels c) ''#h'' = Some (ChPtr 2)"
proof -
  obtain c where c: "hp_client al_in_hall pA = Some c" using hall_al by blast
  then show ?thesis using reachable_membership [OF al_in_hall_reachable c] by (simp add: new_Channel_def)
qed

text \<open>
  C14. Every existing channel has a member; its member and operator lists are free of duplicates, operators are
  members and members are registered clients that exist; it is found under its name in any spelling; and its name, topic, key
  and limit are within the bounds the commands enforce.
\<close>

theorem reachable_channels:
  assumes s: "reachable s" and q: "hp_channel s q = Some ch"
  shows "ch_members ch \<noteq> [] \<and> distinct (ch_members ch) \<and> distinct (ch_operators ch) \<and> set (ch_operators ch) \<subseteq> set (ch_members ch) \<and>
     (\<forall>p \<in> set (ch_members ch). registered_at p s) \<and> findChannel (ch_name ch) s = Some q \<and> ok_channel ch"
proof -
  have st: "sound s" using reachable_sound [OF s] .
  note ch = good_channelD [OF soundD(1) [OF st] q]
  have "registered_at p s" if "p \<in> set (ch_members ch)" for p
    using ch(3,4) that by (auto simp: registered_at_def live_clients_def subset_iff)
  moreover have "findChannel (ch_name ch) s = Some q" using q findChannel_spec [OF soundD(3) [OF st], of "ch_name ch" q] by simp
  ultimately show ?thesis using ch(1,2) populated_member [OF soundD(2) [OF st] q] by (simp add: lists_ok_def)
qed

theorem reachable_channels_witness:
  "reachable al_in_hall \<and> registered_at pA al_in_hall \<and> findChannel ''#h'' al_in_hall = Some (ChPtr 2)"
  using reachable_channels [OF al_in_hall_reachable, of "ChPtr 2" "joined_channel pA (new_Channel ''#h'')"] al_in_hall_reachable
  by (simp add: new_Channel_def)

text \<open>
  C15. No two clients have the same nickname up to case, and a registered client has given the server
  password, a valid nickname and a user name.
\<close>

theorem reachable_clients:
  assumes s: "reachable s" and p: "hp_client s p = Some c"
  shows "(\<forall>p' c'. hp_client s p' = Some c' \<and> p' \<noteq> p \<and> cl_nickname c \<noteq> [] \<longrightarrow> toLower (cl_nickname c') \<noteq> toLower (cl_nickname c)) \<and>
     (cl_is_registered c \<longrightarrow> cl_is_password_verified c \<and> isValidNickname (cl_nickname c) \<and> cl_username c \<noteq> [])"
proof -
  have g: "good s" by (rule soundD(1) [OF reachable_sound [OF s]])
  show ?thesis
    using inv_nicksD [OF goodD(4) [OF g] p] client_ok [OF reachable_sound [OF s] p] by (auto simp: ok_client_def)
qed

theorem reachable_clients_witness:
  "\<exists>c d. hp_client al_in_hall pA = Some c \<and> hp_client al_in_hall p2 = Some d \<and> cl_is_password_verified c \<and>
     toLower (cl_nickname d) \<noteq> toLower (cl_nickname c)"
proof -
  obtain c where c: "hp_client al_in_hall pA = Some c" "cl_is_registered c" "cl_nickname c = ''al''" using hall_al by blast
  have "p2 \<noteq> pA" "cl_nickname c \<noteq> []" using c(3) by simp_all
  then have "toLower (cl_nickname d) \<noteq> toLower (cl_nickname c)" if "hp_client al_in_hall p2 = Some d" for d
    using reachable_clients [OF al_in_hall_reachable c(1)] that by blast
  then show ?thesis using reachable_clients [OF al_in_hall_reachable c(1)] c by simp
qed

end
